(* ===== verification/FM_Prelude.thy ===== *)
theory FM_Prelude
  imports Main "HOL-Library.Word" "HOL-Library.Signed_Division"
begin

text \<open>
  Vocabulary shared by every component of the development.

  \<^item> \<open>fault\<close> and \<open>'a res\<close>: the C and C++ sources have undefined behaviour (an index past
    an array, a string routine on a buffer with no terminator, a null or dangling
    pointer). An operation that can run into it returns a sum, \<open>Inl\<close> the fault.
  \<^item> \<open>c_int\<close>, \<open>c_ulong\<close>: the value an integer has after conversion to \<open>int\<close> or to
    \<open>unsigned long\<close> / \<open>size_t\<close> (64 bit) of the platform the sources are built for.
  \<^item> list lemmas used by several components: counting after an update, and reading a list
    written at an offset (\<open>splice_at\<close>, the effect of \<open>pwrite\<close> or \<open>memcpy\<close> on a byte list).
\<close>

section \<open>Faults and results\<close>

datatype fault =
    Out_of_bounds
  | Not_terminated
  | Null_pointer
  | Use_after_free
  | Bad_release
  | Bad_format
  | Division_by_zero
  | Indeterminate

type_synonym 'a res = "fault + 'a"

definition bind_res :: "'a res \<Rightarrow> ('a \<Rightarrow> 'b res) \<Rightarrow> 'b res" where
  "bind_res r f = (case r of Inl e \<Rightarrow> Inl e | Inr x \<Rightarrow> f x)"

lemma bind_res_Inl [simp]: "bind_res (Inl e) f = Inl e"
  by (simp add: bind_res_def)

lemma bind_res_Inr [simp]: "bind_res (Inr x) f = f x"
  by (simp add: bind_res_def)

lemma bind_res_eq_Inr: "bind_res r f = Inr y \<longleftrightarrow> (\<exists>x. r = Inr x \<and> f x = Inr y)"
  by (cases r) auto

lemma bind_res_assoc: "bind_res (bind_res r f) g = bind_res r (\<lambda>x. bind_res (f x) g)"
  by (cases r) auto

text \<open>
  Code whose loops may not return: \<open>None\<close> is a run that never does, \<open>Some\<close> the result of one
  that does.
\<close>

type_synonym 'a run = "'a res option"

definition bind_run :: "'a run \<Rightarrow> ('a \<Rightarrow> 'b run) \<Rightarrow> 'b run" where
  "bind_run r f = (case r of None \<Rightarrow> None | Some (Inl e) \<Rightarrow> Some (Inl e) | Some (Inr x) \<Rightarrow> f x)"

lemma bind_run_simps [simp]:
  "bind_run None f = None"
  "bind_run (Some (Inl e)) f = Some (Inl e)"
  "bind_run (Some (Inr x)) f = f x"
  by (simp_all add: bind_run_def)

named_theorems view_simps \<open>how the abstract view of a component changes under its operations\<close>
named_theorems inv_intros \<open>each operation preserves its component's invariant\<close>

section \<open>Machine integers\<close>

definition c_int :: "int \<Rightarrow> int" where
  "c_int x = signed_take_bit 31 x"

definition c_ulong :: "int \<Rightarrow> int" where
  "c_ulong x = take_bit 64 x"

lemma c_int_id: "- (2 ^ 31) \<le> x \<Longrightarrow> x < 2 ^ 31 \<Longrightarrow> c_int x = x"
  by (simp add: c_int_def signed_take_bit_int_eq_self)

lemma c_ulong_id: "0 \<le> x \<Longrightarrow> x < 2 ^ 64 \<Longrightarrow> c_ulong x = x"
  by (simp add: c_ulong_def take_bit_int_eq_self)

lemma c_ulong_negative: "- (2 ^ 64) \<le> x \<Longrightarrow> x < 0 \<Longrightarrow> c_ulong x = x + 2 ^ 64"
  using take_bit_int_eq_self [of "x + 2 ^ 64" 64] take_bit_add [of 64 x "2 ^ 64"]
  by (simp add: c_ulong_def take_bit_eq_mod)

lemma c_ulong_minus_one: "c_ulong (- 1) = 2 ^ 64 - 1"
  by (simp add: c_ulong_def mask_eq_exp_minus_1)

section \<open>Array accesses\<close>

text \<open>C arrays are not bounds-checked: an access outside the array is a fault.\<close>

definition arr_get :: "'a list \<Rightarrow> int \<Rightarrow> 'a res" where
  "arr_get xs i = (if 0 \<le> i \<and> i < int (length xs) then Inr (xs ! nat i) else Inl Out_of_bounds)"

definition arr_set :: "'a list \<Rightarrow> int \<Rightarrow> 'a \<Rightarrow> 'a list res" where
  "arr_set xs i x =
     (if 0 \<le> i \<and> i < int (length xs) then Inr (xs[nat i := x]) else Inl Out_of_bounds)"

lemma arr_get_in [simp]: "0 \<le> i \<Longrightarrow> i < int (length xs) \<Longrightarrow> arr_get xs i = Inr (xs ! nat i)"
  by (simp add: arr_get_def)

lemma arr_get_negative [simp]: "i < 0 \<Longrightarrow> arr_get xs i = Inl Out_of_bounds"
  by (simp add: arr_get_def)

lemma arr_set_in [simp]: "0 \<le> i \<Longrightarrow> i < int (length xs) \<Longrightarrow> arr_set xs i x = Inr (xs[nat i := x])"
  by (simp add: arr_set_def)

section \<open>Counting list elements across an update\<close>

definition count_if :: "('a \<Rightarrow> bool) \<Rightarrow> 'a list \<Rightarrow> nat" where
  "count_if P xs = length (filter P xs)"

lemma count_if_simps [simp]:
  "count_if P [] = 0"
  "count_if P (x # xs) = (if P x then Suc (count_if P xs) else count_if P xs)"
  by (simp_all add: count_if_def)

lemma count_if_replicate [simp]: "count_if P (replicate n x) = (if P x then n else 0)"
  by (induction n) auto

lemma count_if_update:
  "i < length xs \<Longrightarrow>
     count_if P (xs[i := y]) + (if P (xs ! i) then 1 else 0) =
     count_if P xs + (if P y then 1 else 0)"
proof (induction xs arbitrary: i)
  case (Cons x xs)
  then show ?case by (cases i) auto
qed simp

lemma count_if_pos: "i < length xs \<Longrightarrow> P (xs ! i) \<Longrightarrow> 0 < count_if P xs"
  by (auto simp: count_if_def filter_empty_conv)

lemma sum_map_update:
  fixes f :: "'a \<Rightarrow> 'b::comm_monoid_add"
  shows "i < length xs \<Longrightarrow>
    sum_list (map f (xs[i := y])) + f (xs ! i) = sum_list (map f xs) + f y"
proof (induction xs arbitrary: i)
  case (Cons x xs)
  then show ?case by (cases i) (auto simp: ac_simps)
qed simp

section \<open>Prefixes up to a given element\<close>

lemma takeWhile_upto [simp]: "x \<notin> set xs \<Longrightarrow> takeWhile (\<lambda>c. c \<noteq> x) (xs @ x # ys) = xs"
  by (induction xs) auto

lemma takeWhile_absent [simp]: "x \<notin> set xs \<Longrightarrow> takeWhile (\<lambda>c. c \<noteq> x) xs = xs"
  by (induction xs) auto

section \<open>Writing a block at an offset\<close>

definition splice_at :: "'a \<Rightarrow> 'a list \<Rightarrow> nat \<Rightarrow> 'a list \<Rightarrow> 'a list" where
  "splice_at z xs off ys =
     (if ys = [] then xs
      else take off xs @ replicate (off - length xs) z @ ys @ drop (off + length ys) xs)"

lemma splice_at_Nil [simp]: "splice_at z xs off [] = xs"
  by (simp add: splice_at_def)

lemma length_splice_at:
  "ys \<noteq> [] \<Longrightarrow> length (splice_at z xs off ys) = max (length xs) (off + length ys)"
  by (auto simp: splice_at_def)

lemma nth_splice_at:
  "i < length (splice_at z xs off ys) \<Longrightarrow>
     splice_at z xs off ys ! i =
       (if off \<le> i \<and> i < off + length ys then ys ! (i - off)
        else if i < length xs then xs ! i else z)"
  by (cases "ys = []")
     (auto simp: splice_at_def nth_append min_def not_less)

text \<open>
  Blocks cut from one list \<open>F\<close> and written at their offsets, in any order and possibly
  several times: what they cover is \<open>F\<close>, the rest is as it was.
\<close>

definition block_of :: "'a list \<Rightarrow> nat \<times> 'a list \<Rightarrow> bool" where
  "block_of F b \<longleftrightarrow>
     fst b + length (snd b) \<le> length F \<and> snd b = take (length (snd b)) (drop (fst b) F)"

definition covers :: "(nat \<times> 'a list) list \<Rightarrow> nat \<Rightarrow> bool" where
  "covers bs i \<longleftrightarrow> (\<exists>b \<in> set bs. fst b \<le> i \<and> i < fst b + length (snd b))"

definition splices :: "'a \<Rightarrow> 'a list \<Rightarrow> (nat \<times> 'a list) list \<Rightarrow> 'a list" where
  "splices z xs bs = foldl (\<lambda>c b. splice_at z c (fst b) (snd b)) xs bs"

lemma covers_snoc: "covers (bs @ [b]) i \<longleftrightarrow> covers bs i \<or> (fst b \<le> i \<and> i < fst b + length (snd b))"
  by (auto simp: covers_def)

lemma splices_nth:
  assumes "\<forall>b \<in> set bs. block_of F b"
  shows "(\<forall>i. i < length (splices z xs bs) \<longrightarrow>
            splices z xs bs ! i = (if covers bs i then F ! i else if i < length xs then xs ! i else z)) \<and>
         (\<forall>i. covers bs i \<longrightarrow> i < length (splices z xs bs)) \<and>
         length xs \<le> length (splices z xs bs) \<and>
         length (splices z xs bs) \<le> max (length xs) (length F)"
  using assms
proof (induction bs rule: rev_induct)
  case Nil
  then show ?case by (simp add: splices_def covers_def)
next
  case (snoc b bs)
  let ?c = "splices z xs bs" and ?d = "splices z xs (bs @ [b])"
  have d: "?d = splice_at z ?c (fst b) (snd b)" by (simp add: splices_def)
  have b: "block_of F b" using snoc.prems by simp
  have IH: "\<forall>i. i < length ?c \<longrightarrow>
        ?c ! i = (if covers bs i then F ! i else if i < length xs then xs ! i else z)"
      "\<forall>i. covers bs i \<longrightarrow> i < length ?c" "length xs \<le> length ?c"
      "length ?c \<le> max (length xs) (length F)"
    using snoc by auto
  show ?case
  proof (cases "snd b = []")
    case True
    then show ?thesis using IH d by (auto simp: covers_snoc)
  next
    case False
    have len: "length ?d = max (length ?c) (fst b + length (snd b))"
      using d False by (simp add: length_splice_at)
    have at: "snd b ! (i - fst b) = F ! i" if "fst b \<le> i" "i < fst b + length (snd b)" for i
    proof -
      have "snd b ! (i - fst b) = take (length (snd b)) (drop (fst b) F) ! (i - fst b)"
        using b unfolding block_of_def by argo
      then show ?thesis using that b by (simp add: block_of_def)
    qed
    have "?d ! i = (if covers (bs @ [b]) i then F ! i else if i < length xs then xs ! i else z)"
      if "i < length ?d" for i
    proof -
      have "?d ! i = (if fst b \<le> i \<and> i < fst b + length (snd b) then snd b ! (i - fst b)
          else if i < length ?c then ?c ! i else z)"
        using nth_splice_at [of i z ?c "fst b" "snd b"] that d by simp
      then show ?thesis using at IH(1-3) by (auto simp: covers_snoc)
    qed
    moreover have "i < length ?d" if "covers (bs @ [b]) i" for i
      using that IH(2) len by (auto simp: covers_snoc)
    moreover have "length ?d \<le> max (length xs) (length F)"
      using len IH(4) b by (auto simp: block_of_def)
    ultimately show ?thesis using len IH(3) by auto
  qed
qed

lemma splices_cover:
  assumes "\<forall>b \<in> set bs. block_of F b" "\<forall>i < length F. covers bs i"
  shows "splices z xs bs = F @ drop (length F) xs"
proof (rule nth_equalityI)
  note n = splices_nth [OF assms(1), of z xs]
  have "length F \<le> length (splices z xs bs)"
  proof (rule ccontr)
    assume "\<not> ?thesis"
    then have "length (splices z xs bs) < length F" by simp
    with assms(2) n show False by blast
  qed
  with n show len: "length (splices z xs bs) = length (F @ drop (length F) xs)" by auto
  fix i assume i: "i < length (splices z xs bs)"
  have "\<not> covers bs i" if "length F \<le> i"
    using assms(1) that by (auto simp: covers_def block_of_def)
  then show "splices z xs bs ! i = (F @ drop (length F) xs) ! i"
    using n i assms(2) len by (auto simp: nth_append)
qed

lemma less_length_splices:
  "i < length (splices z xs bs) \<longleftrightarrow>
     i < length xs \<or> (\<exists>b \<in> set bs. snd b \<noteq> [] \<and> i < fst b + length (snd b))"
proof (induction bs rule: rev_induct)
  case (snoc b bs)
  have "splices z xs (bs @ [b]) = splice_at z (splices z xs bs) (fst b) (snd b)"
    by (simp add: splices_def)
  with snoc show ?case by (cases "snd b = []") (auto simp: length_splice_at less_max_iff_disj)
qed (simp add: splices_def)

text \<open>Neither order nor repetition matters, nor do empty blocks.\<close>

lemma splices_same:
  assumes "\<forall>b \<in> set bs. block_of F b" "\<forall>b \<in> set bs'. block_of F b"
    and "{b \<in> set bs. snd b \<noteq> []} = {b \<in> set bs'. snd b \<noteq> []}"
  shows "splices z xs bs = splices z xs bs'"
proof (rule nth_equalityI)
  have mem: "b \<in> set bs \<and> snd b \<noteq> [] \<longleftrightarrow> b \<in> set bs' \<and> snd b \<noteq> []" for b using assms(3) by auto
  have "i < length (splices z xs bs) \<longleftrightarrow> i < length (splices z xs bs')" for i
    unfolding less_length_splices using mem by blast
  then show len: "length (splices z xs bs) = length (splices z xs bs')"
    by (meson less_irrefl linorder_neqE_nat)
  have eq: "covers cs i \<longleftrightarrow> (\<exists>b. (b \<in> set cs \<and> snd b \<noteq> []) \<and> fst b \<le> i \<and> i < fst b + length (snd b))"
    for cs :: "(nat \<times> 'a list) list" and i
    unfolding covers_def by (metis add.right_neutral leD list.size(3))
  have "covers bs i = covers bs' i" for i unfolding eq mem by (rule refl)
  moreover fix i assume "i < length (splices z xs bs)"
  ultimately show "splices z xs bs ! i = splices z xs bs' ! i"
    using splices_nth [OF assms(1), of z xs] splices_nth [OF assms(2), of z xs] len by simp
qed

section \<open>Folding a fallible step\<close>

fun fold_res :: "('x \<Rightarrow> 's \<Rightarrow> 's res) \<Rightarrow> 'x list \<Rightarrow> 's \<Rightarrow> 's res" where
  "fold_res f [] st = Inr st"
| "fold_res f (x # xs) st = bind_res (f x st) (fold_res f xs)"

section \<open>Steps that use up a measure\<close>

text \<open>
  The contract of a relation whose every step lowers a number: its runs are finite, and from
  every state some run ends in a state without a further step.
\<close>

locale measured_steps =
  fixes moves :: "'s \<Rightarrow> 's \<Rightarrow> bool"
    and work :: "'s \<Rightarrow> nat"
  assumes lowers: "moves s s' \<Longrightarrow> work s' < work s"
begin

lemma finite_runs: "wfp (\<lambda>s' s. moves s s')"
  by (rule wfp_if_convertible_to_nat [of _ work]) (rule lowers)

lemma terminal: "\<exists>s'. moves\<^sup>*\<^sup>* s s' \<and> \<not> (\<exists>s''. moves s' s'')"
proof (induction "work s" arbitrary: s rule: less_induct)
  case less
  show ?case
  proof (cases "\<exists>s1. moves s s1")
    case True
    then obtain s1 where "moves s s1" by blast
    with less [OF lowers] show ?thesis by (meson converse_rtranclp_into_rtranclp)
  qed auto
qed

lemma keeps: "moves\<^sup>*\<^sup>* s s' \<Longrightarrow> (\<And>s s'. moves s s' \<Longrightarrow> I s \<Longrightarrow> I s') \<Longrightarrow> I s \<Longrightarrow> I s'"
  by (induction rule: rtranclp_induct) auto

end

end
