(* ===== verification/Fifo.thy ===== *)
theory Fifo
  imports FM_Prelude
begin

text \<open>
  The contract of a first-in first-out container, as the clients of this program use it:
  the log's ring buffer, the work queue of the server's thread pool and the task queue of
  the client's. \<open>push\<close> answers whether it accepted the element, \<open>pop\<close> answers the element
  or nothing; either may fault, and the laws say that under the invariant neither does. The
  client lemmas are proved once here, over an arbitrary provider.
\<close>

section \<open>The interface\<close>

locale fifo =
  fixes invar :: "'q \<Rightarrow> bool"
    and view :: "'q \<Rightarrow> 'a list"
    and room :: "'q \<Rightarrow> bool"
    and push :: "'a \<Rightarrow> 'q \<Rightarrow> (bool \<times> 'q) res"
    and pop :: "'q \<Rightarrow> ('a \<times> 'q) option res"
  assumes push_accepts:
      "invar q \<Longrightarrow> room q \<Longrightarrow> \<exists>q'. push x q = Inr (True, q') \<and> invar q' \<and> view q' = view q @ [x]"
    and push_rejects: "invar q \<Longrightarrow> \<not> room q \<Longrightarrow> push x q = Inr (False, q)"
    and pop_empty: "invar q \<Longrightarrow> view q = [] \<Longrightarrow> pop q = Inr None"
    and pop_first:
      "invar q \<Longrightarrow> view q = x # xs \<Longrightarrow> \<exists>q'. pop q = Inr (Some (x, q')) \<and> invar q' \<and> view q' = xs"

datatype 'a fifo_op = Push 'a | Pop

context fifo
begin

text \<open>
  A run of a list of operations: the elements accepted, the elements taken, the final queue.
\<close>

fun exec :: "'q \<Rightarrow> 'a fifo_op list \<Rightarrow> ('a list \<times> 'a list \<times> 'q) res" where
  "exec q [] = Inr ([], [], q)"
| "exec q (Push x # ops) =
     bind_res (push x q) (\<lambda>(ok, q').
     bind_res (exec q' ops) (\<lambda>(ins, outs, q'').
       Inr (if ok then x # ins else ins, outs, q'')))"
| "exec q (Pop # ops) =
     bind_res (pop q) (\<lambda>r. case r of
        None \<Rightarrow> exec q ops
      | Some (x, q') \<Rightarrow> bind_res (exec q' ops) (\<lambda>(ins, outs, q''). Inr (ins, x # outs, q'')))"

lemma push_cases:
  assumes "invar q"
  obtains (accepted) q' where "room q" "push x q = Inr (True, q')" "invar q'"
      "view q' = view q @ [x]"
    | (rejected) "\<not> room q" "push x q = Inr (False, q)"
  using assms push_accepts push_rejects by blast

lemma pop_cases:
  assumes "invar q"
  obtains (drained) "view q = []" "pop q = Inr None"
    | (first) x q' where "view q = x # view q'" "pop q = Inr (Some (x, q'))" "invar q'"
proof (cases "view q")
  case Nil
  then show ?thesis using pop_empty [OF assms Nil] by (rule drained)
next
  case (Cons x xs)
  then obtain q' where "pop q = Inr (Some (x, q'))" "invar q'" "view q' = xs"
    using pop_first [OF assms] by metis
  with Cons show ?thesis by (intro first) auto
qed

text \<open>
  Whatever is accepted comes out in the same order: after any sequence of operations, what
  was in the queue followed by what was accepted is what came out followed by what remains.
  No operation faults.
\<close>

lemma exec_fifo:
  "invar q \<Longrightarrow>
     \<exists>ins outs q'. exec q ops = Inr (ins, outs, q') \<and> view q @ ins = outs @ view q' \<and> invar q'"
proof (induction ops arbitrary: q)
  case Nil
  then show ?case by simp
next
  case (Cons oper ops)
  show ?case
  proof (cases oper)
    case (Push x)
    from \<open>invar q\<close> show ?thesis
    proof (cases rule: push_cases [of q x])
      case (accepted q1)
      with Cons.IH [of q1] Push show ?thesis by auto
    next
      case rejected
      with Cons.IH [of q] Cons.prems Push show ?thesis by auto
    qed
  next
    case Pop
    from \<open>invar q\<close> show ?thesis
    proof (cases rule: pop_cases)
      case drained
      with Cons.IH [of q] Cons.prems Pop show ?thesis by auto
    next
      case (first x q1)
      with Cons.IH [of q1] Pop show ?thesis by auto
    qed
  qed
qed

end

section \<open>Bounded providers\<close>

text \<open>A provider with a fixed capacity: there is room exactly below it.\<close>

locale bounded_fifo = fifo invar view room push pop
  for invar :: "'q \<Rightarrow> bool"
    and view :: "'q \<Rightarrow> 'a list"
    and room :: "'q \<Rightarrow> bool"
    and push :: "'a \<Rightarrow> 'q \<Rightarrow> (bool \<times> 'q) res"
    and pop :: "'q \<Rightarrow> ('a \<times> 'q) option res" +
  fixes cap :: "'q \<Rightarrow> nat"
  assumes room_iff: "invar q \<Longrightarrow> room q \<longleftrightarrow> length (view q) < cap q"
    and bounded: "invar q \<Longrightarrow> length (view q) \<le> cap q"
    and cap_push: "invar q \<Longrightarrow> push x q = Inr (ok, q') \<Longrightarrow> cap q' = cap q"
    and cap_pop: "invar q \<Longrightarrow> pop q = Inr (Some (x, q')) \<Longrightarrow> cap q' = cap q"

context bounded_fifo
begin

text \<open>The capacity is constant, so the length bound holds after every run.\<close>

lemma exec_cap: "invar q \<Longrightarrow> exec q ops = Inr (ins, outs, q') \<Longrightarrow> cap q' = cap q"
proof (induction ops arbitrary: q ins outs)
  case Nil
  then show ?case by simp
next
  case (Cons oper ops)
  show ?case
  proof (cases oper)
    case (Push x)
    from \<open>invar q\<close> show ?thesis
    proof (cases rule: push_cases [of q x])
      case (accepted q1)
      with Cons Push cap_push [OF \<open>invar q\<close> accepted(2)] show ?thesis
        by (auto simp: bind_res_eq_Inr)
    next
      case rejected
      with Cons Push show ?thesis by (auto simp: bind_res_eq_Inr)
    qed
  next
    case Pop
    from \<open>invar q\<close> show ?thesis
    proof (cases rule: pop_cases)
      case drained
      with Cons Pop show ?thesis by auto
    next
      case (first x q1)
      with Cons Pop cap_pop [OF \<open>invar q\<close> first(2)] show ?thesis
        by (auto simp: bind_res_eq_Inr)
    qed
  qed
qed

text \<open>With no pop in between, a provider accepts exactly what its capacity has room for.\<close>

lemma exec_pushes:
  "invar q \<Longrightarrow>
     \<exists>q'. exec q (map Push xs) = Inr (take (cap q - length (view q)) xs, [], q') \<and> invar q'"
proof (induction xs arbitrary: q)
  case Nil
  then show ?case by simp
next
  case (Cons x xs)
  from \<open>invar q\<close> show ?case
  proof (cases rule: push_cases [of q x])
    case (accepted q1)
    moreover have "cap q1 = cap q" using cap_push [OF \<open>invar q\<close> accepted(2)] .
    moreover have "length (view q) < cap q" using accepted room_iff [OF \<open>invar q\<close>] by simp
    ultimately show ?thesis using Cons.IH [of q1]
      by (auto simp: take_Cons' Suc_diff_Suc)
  next
    case rejected
    then have "cap q - length (view q) = 0" using room_iff [OF \<open>invar q\<close>] by simp
    with rejected Cons.IH [OF \<open>invar q\<close>] Cons.prems show ?thesis by auto
  qed
qed

end

end
