(* ===== verification/Raii.thy ===== *)
theory Raii
  imports FM_Prelude
begin

text \<open>
  The wrapper classes of \<open>server/RAII/locker.h\<close>: \<open>sem\<close>, \<open>locker\<close> and \<open>cond\<close>. A ledger
  lists the kernel objects and heap blocks that are live; a constructor either builds its
  object or throws, and in both cases says which ledger it leaves behind. The operations of
  a built object act on its value: a counter for a semaphore, an owner for a mutex; an
  operation that blocks its caller returns \<open>None\<close>.
\<close>

section \<open>Resources and constructors\<close>

datatype handle_kind = Mutex | Cond | Sem | Scalar_block | Array_block

type_synonym handle = "handle_kind \<times> nat"
type_synonym ledger = "handle list"

datatype ctor_result = Built ledger | Thrown ledger

definition release :: "handle \<Rightarrow> ledger \<Rightarrow> ledger res" where
  "release h L = (if h \<in> set L then Inr (remove1 h L) else Inl Bad_release)"

lemma release_Cons [simp]: "release h (h # L) = Inr L"
  by (simp add: release_def)

section \<open>Semaphores\<close>

definition sem_ctor :: "int \<Rightarrow> nat \<Rightarrow> ledger \<Rightarrow> ctor_result" where
  "sem_ctor rc a L = (if rc \<noteq> 0 then Thrown L else Built ((Sem, a) # L))"

definition sem_dtor :: "nat \<Rightarrow> ledger \<Rightarrow> ledger res" where
  "sem_dtor a L = release (Sem, a) L"

text \<open>\<open>sem_wait\<close> fails, without taking a count, when a signal handler interrupts it.\<close>

definition sem_wait :: "bool \<Rightarrow> nat \<Rightarrow> (bool \<times> nat) option" where
  "sem_wait interrupted v =
     (if interrupted then Some (False, v) else if v = 0 then None else Some (True, v - 1))"

definition sem_post :: "nat \<Rightarrow> bool \<times> nat" where
  "sem_post v = (True, v + 1)"

section \<open>Mutexes\<close>

type_synonym tid = nat

definition locker_ctor :: "int \<Rightarrow> nat \<Rightarrow> ledger \<Rightarrow> ctor_result" where
  "locker_ctor rc a L = (if rc \<noteq> 0 then Thrown L else Built ((Mutex, a) # L))"

definition locker_dtor :: "nat \<Rightarrow> ledger \<Rightarrow> ledger res" where
  "locker_dtor a L = release (Mutex, a) L"

definition locker_lock :: "tid \<Rightarrow> tid option \<Rightarrow> (bool \<times> tid option) option" where
  "locker_lock t m = (case m of None \<Rightarrow> Some (True, Some t) | Some _ \<Rightarrow> None)"

definition locker_unlock :: "tid option \<Rightarrow> bool \<times> tid option" where
  "locker_unlock m = (True, None)"

lemma locker_lock_eq_Some:
  "locker_lock t m = Some r \<longleftrightarrow> m = None \<and> r = (True, Some t)"
  by (cases m) (auto simp: locker_lock_def)

lemma sem_wait_eq_Some:
  "sem_wait interrupted v = Some (ok, v') \<longleftrightarrow>
     (if interrupted then \<not> ok \<and> v' = v else ok \<and> v = Suc v')"
  by (cases v) (auto simp: sem_wait_def)

section \<open>Condition variables with their own mutex\<close>

definition cond_ctor :: "int \<Rightarrow> int \<Rightarrow> nat \<Rightarrow> nat \<Rightarrow> ledger \<Rightarrow> ctor_result res" where
  "cond_ctor rc_mutex rc_cond a b L =
     (if rc_mutex \<noteq> 0 then Inr (Thrown L)
      else if rc_cond \<noteq> 0
        then bind_res (release (Mutex, a) ((Mutex, a) # L)) (\<lambda>L'. Inr (Thrown L'))
      else Inr (Built ((Cond, b) # (Mutex, a) # L)))"

definition cond_dtor :: "nat \<Rightarrow> nat \<Rightarrow> ledger \<Rightarrow> ledger res" where
  "cond_dtor a b L = bind_res (release (Mutex, a) L) (release (Cond, b))"

text \<open>
  \<open>wait\<close> locks the wrapper's own mutex, sleeps in \<open>pthread_cond_wait\<close> (which gives the
  mutex back while it sleeps, and ends with result \<open>ret\<close>) and unlocks it. \<open>signalled\<close>
  says whether the sleep ends.
\<close>

definition cond_wait :: "tid \<Rightarrow> bool \<Rightarrow> int \<Rightarrow> tid option \<Rightarrow> (bool \<times> tid option) option" where
  "cond_wait t signalled ret m =
     (case locker_lock t m of
        None \<Rightarrow> None
      | Some (_, m1) \<Rightarrow>
          (if signalled then Some (ret = 0, snd (locker_unlock m1)) else None))"

definition cond_signal :: "int \<Rightarrow> bool" where
  "cond_signal rc \<longleftrightarrow> rc = 0"

section \<open>Properties\<close>

text \<open>
  Constructing a condition variable never leaks: whichever of the two initialisations
  fails, the constructor throws and leaves the ledger it found; when both succeed, the
  destructor brings the ledger back to what it was. The source's comment asks for exactly
  this ("release at once what was already allocated").
\<close>

lemma cond_lifecycle:
  "cond_ctor rc_mutex rc_cond a b L =
     (if rc_mutex = 0 \<and> rc_cond = 0 then Inr (Built ((Cond, b) # (Mutex, a) # L))
      else Inr (Thrown L)) \<and>
   cond_dtor a b ((Cond, b) # (Mutex, a) # L) = Inr L"
  by (simp_all add: cond_ctor_def cond_dtor_def release_def)

end
