(* ===== verification/Block_Queue.thy ===== *)
theory Block_Queue
  imports Fifo Raii
begin

text \<open>
  The blocking queue of \<open>server/log/block_queue.h\<close>: a circular array with the indices of
  the last element taken (\<open>m_front\<close>) and of the last element stored (\<open>m_back\<close>), both -1
  at first. Every operation holds the queue's mutex from its first to its last statement,
  so it is one function of the queue's state; a wait on the condition variable gives the
  mutex back, and the waiting operations therefore take what each wake-up finds (the result
  of the wait and the queue's state by then) as an argument.
\<close>

section \<open>State and operations\<close>

record 'a block_queue =
  m_array :: "'a list"
  m_size :: int
  m_max_size :: int
  m_front :: int
  m_back :: int

text \<open>\<open>None\<close> is the constructor's \<open>exit(-1)\<close>; \<open>d\<close> is the default-constructed element.\<close>

definition block_queue_new :: "'a \<Rightarrow> int \<Rightarrow> 'a block_queue option" where
  "block_queue_new d max_size =
     (if max_size \<le> 0 then None
      else Some \<lparr>m_array = replicate (nat max_size) d, m_size = 0, m_max_size = max_size,
                 m_front = -1, m_back = -1\<rparr>)"

definition bq_clear :: "'a block_queue \<Rightarrow> 'a block_queue" where
  "bq_clear q = q\<lparr>m_size := 0, m_front := -1, m_back := -1\<rparr>"

definition bq_full :: "'a block_queue \<Rightarrow> bool" where
  "bq_full q \<longleftrightarrow> m_size q \<ge> m_max_size q"

definition bq_empty :: "'a block_queue \<Rightarrow> bool" where
  "bq_empty q \<longleftrightarrow> 0 = m_size q"

text \<open>\<open>front\<close> and \<open>back\<close> answer false (here \<open>None\<close>) or store the element they read.\<close>

definition bq_front :: "'a block_queue \<Rightarrow> 'a option res" where
  "bq_front q =
     (if 0 = m_size q then Inr None
      else bind_res (arr_get (m_array q) (m_front q)) (\<lambda>v. Inr (Some v)))"

definition bq_back :: "'a block_queue \<Rightarrow> 'a option res" where
  "bq_back q =
     (if 0 = m_size q then Inr None
      else bind_res (arr_get (m_array q) (m_back q)) (\<lambda>v. Inr (Some v)))"

definition bq_size :: "'a block_queue \<Rightarrow> int" where
  "bq_size q = m_size q"

definition bq_max_size :: "'a block_queue \<Rightarrow> int" where
  "bq_max_size q = m_max_size q"

definition bq_push :: "'a \<Rightarrow> 'a block_queue \<Rightarrow> (bool \<times> 'a block_queue) res" where
  "bq_push item q =
     (if m_size q \<ge> m_max_size q then Inr (False, q)
      else
        let b = (m_back q + 1) smod m_max_size q in
        bind_res (arr_set (m_array q) b item)
          (\<lambda>arr. Inr (True, q\<lparr>m_back := b, m_array := arr, m_size := m_size q + 1\<rparr>)))"

text \<open>The tail both \<open>pop\<close>s share: advance \<open>m_front\<close>, read, count down.\<close>

definition bq_take :: "'a block_queue \<Rightarrow> ('a \<times> 'a block_queue) res" where
  "bq_take q =
     (let f = (m_front q + 1) smod m_max_size q in
      bind_res (arr_get (m_array q) f)
        (\<lambda>item. Inr (item, q\<lparr>m_front := f, m_size := m_size q - 1\<rparr>)))"

datatype 'a pop_result =
    Popped 'a "'a block_queue"
  | Pop_failed "'a block_queue"
  | Pop_waiting

text \<open>
  \<open>pop\<close>: each element of the second argument is one return of \<open>pthread_cond_wait\<close>, its
  result and the queue as it is then. With no return left the caller is still waiting.
\<close>

fun bq_pop :: "'a block_queue \<Rightarrow> (int \<times> 'a block_queue) list \<Rightarrow> 'a pop_result res" where
  "bq_pop q wakes =
     (if m_size q \<le> 0
      then (case wakes of
              [] \<Rightarrow> Inr Pop_waiting
            | (rc, q') # wakes' \<Rightarrow> (if 0 \<noteq> rc then Inr (Pop_failed q') else bq_pop q' wakes'))
      else bind_res (bq_take q) (\<lambda>(item, q'). Inr (Popped item q')))"

declare bq_pop.simps [simp del]

text \<open>
  The timed \<open>pop\<close>: the absolute time it waits for, from the time of day
  (seconds, microseconds) and the timeout in milliseconds, then at most one wait.
\<close>

definition pop_deadline :: "int \<times> int \<Rightarrow> int \<Rightarrow> int \<times> int" where
  "pop_deadline now ms_timeout =
     (fst now + ms_timeout sdiv 1000, (ms_timeout smod 1000) * 1000)"

definition bq_pop_timed ::
    "'a block_queue \<Rightarrow> (int \<times> int) \<Rightarrow> int \<Rightarrow> (int \<times> int \<Rightarrow> int \<times> 'a block_queue) \<Rightarrow>
     'a pop_result res" where
  "bq_pop_timed q now ms_timeout timedwait =
     (if m_size q \<le> 0
      then (case timedwait (pop_deadline now ms_timeout) of
              (rc, q') \<Rightarrow>
                (if 0 \<noteq> rc then Inr (Pop_failed q')
                 else if m_size q' \<le> 0 then Inr (Pop_failed q')
                 else bind_res (bq_take q') (\<lambda>(item, q''). Inr (Popped item q''))))
      else bind_res (bq_take q) (\<lambda>(item, q'). Inr (Popped item q')))"

text \<open>
  The destructor, and what it is to give back: the constructor takes a block for the array
  and one for each of the mutex and the condition variable, which it then initialises. The
  array is an \<open>Array_block\<close>, but \<open>delete m_array\<close> releases a single object.
\<close>

definition block_queue_alloc :: "nat \<Rightarrow> nat \<Rightarrow> nat \<Rightarrow> ledger \<Rightarrow> ledger" where
  "block_queue_alloc arr mutex cond L =
     (Cond, cond) # (Mutex, mutex) # (Scalar_block, cond) # (Scalar_block, mutex) # (Array_block, arr) # L"

definition block_queue_dtor :: "nat \<Rightarrow> nat \<Rightarrow> nat \<Rightarrow> ledger \<Rightarrow> ledger res" where
  "block_queue_dtor arr mutex cond L =
     bind_res (release (Scalar_block, arr) L) (\<lambda>L1.
     bind_res (release (Mutex, mutex) L1) (\<lambda>L2.
     bind_res (release (Cond, cond) L2) (\<lambda>L3.
     bind_res (release (Scalar_block, mutex) L3) (release (Scalar_block, cond)))))"

lemma block_queue_dtor_faults:
  assumes "arr \<noteq> mutex" "arr \<noteq> cond" "(Scalar_block, arr) \<notin> set L"
  shows "block_queue_dtor arr mutex cond (block_queue_alloc arr mutex cond L) = Inl Bad_release"
  using assms by (simp add: block_queue_dtor_def block_queue_alloc_def release_def)

section \<open>Invariant and abstract view\<close>

definition bq_inv :: "'a block_queue \<Rightarrow> bool" where
  "bq_inv q \<longleftrightarrow>
     0 < m_max_size q \<and> length (m_array q) = nat (m_max_size q) \<and>
     0 \<le> m_size q \<and> m_size q \<le> m_max_size q \<and>
     - 1 \<le> m_front q \<and> m_front q < m_max_size q \<and>
     - 1 \<le> m_back q \<and> m_back q < m_max_size q \<and>
     (0 < m_size q \<longrightarrow> 0 \<le> m_back q) \<and>
     (m_front q + m_size q) mod m_max_size q = m_back q mod m_max_size q"

definition bq_slot :: "'a block_queue \<Rightarrow> nat \<Rightarrow> nat" where
  "bq_slot q i = nat ((m_front q + 1 + int i) mod m_max_size q)"

definition bq_view :: "'a block_queue \<Rightarrow> 'a list" where
  "bq_view q = map (\<lambda>i. m_array q ! bq_slot q i) [0..<nat (m_size q)]"

definition bq_cap :: "'a block_queue \<Rightarrow> nat" where
  "bq_cap q = nat (m_max_size q)"

definition bq_pop_now :: "'a block_queue \<Rightarrow> ('a \<times> 'a block_queue) option res" where
  "bq_pop_now q =
     bind_res (bq_pop q [])
       (\<lambda>r. case r of Popped x q' \<Rightarrow> Inr (Some (x, q')) | _ \<Rightarrow> Inr None)"


section \<open>Index arithmetic\<close>

lemma smod_nonneg: "0 \<le> (a::int) \<Longrightarrow> 0 < b \<Longrightarrow> a smod b = a mod b"
  by (simp add: signed_modulo_int_def sgn_if)

lemma bq_slot_bound: "bq_inv q \<Longrightarrow> bq_slot q i < length (m_array q)"
  by (auto simp: bq_inv_def bq_slot_def nat_less_eq_zless)

text \<open>The slots of the stored elements and the next free slot are pairwise different.\<close>

lemma mod_shift_inj:
  fixes c :: int
  assumes "(c + int i) mod m = (c + int j) mod m" "\<bar>int i - int j\<bar> < m"
  shows "i = j"
proof -
  from assms(1) have "m dvd int i - int j"
    by (metis add_diff_cancel_left mod_eq_dvd_iff)
  with assms(2) have "int i - int j = 0"
    using dvd_imp_le_int [of "int i - int j" m] by linarith
  then show ?thesis by simp
qed

lemma bq_next_back:
  assumes "bq_inv q"
  shows "(m_back q + 1) smod m_max_size q = (m_front q + 1 + m_size q) mod m_max_size q"
proof -
  have "(m_back q + 1) smod m_max_size q = (m_back q + 1) mod m_max_size q"
    using assms by (intro smod_nonneg) (auto simp: bq_inv_def)
  also have "\<dots> = ((m_front q + m_size q) mod m_max_size q + 1) mod m_max_size q"
    using assms by (simp add: bq_inv_def mod_simps)
  finally show ?thesis by (simp add: mod_simps algebra_simps)
qed

lemma bq_view_length [simp]: "length (bq_view q) = nat (m_size q)"
  by (simp add: bq_view_def)

lemma bq_view_eq_Nil: "bq_inv q \<Longrightarrow> bq_view q = [] \<longleftrightarrow> m_size q = 0"
  by (auto simp: bq_inv_def bq_view_def)

lemma bq_view_Cons:
  assumes "bq_inv q" "bq_view q = x # xs"
  shows "0 < m_size q" "x = m_array q ! bq_slot q 0"
proof -
  show "0 < m_size q" using assms bq_view_eq_Nil [OF assms(1)] by (auto simp: bq_inv_def)
  then have "bq_view q ! 0 = m_array q ! bq_slot q 0" by (simp add: bq_view_def)
  with assms(2) show "x = m_array q ! bq_slot q 0" by simp
qed

section \<open>The operations against the abstract view\<close>

lemma bq_new_inv:
  "block_queue_new d n = Some q \<Longrightarrow> bq_inv q \<and> bq_view q = [] \<and> bq_cap q = nat n"
  by (auto simp: block_queue_new_def bq_inv_def bq_view_def bq_cap_def split: if_splits)

lemma bq_clear_inv [inv_intros]: "bq_inv q \<Longrightarrow> bq_inv (bq_clear q)"
  by (auto simp: bq_inv_def bq_clear_def)

lemma bq_clear_view [view_simps]: "bq_view (bq_clear q) = []"
  by (simp add: bq_view_def bq_clear_def)

lemma bq_push_full: "bq_full q \<Longrightarrow> bq_push x q = Inr (False, q)"
  by (simp add: bq_push_def bq_full_def)

definition bq_pushed :: "'a \<Rightarrow> 'a block_queue \<Rightarrow> 'a block_queue" where
  "bq_pushed x q =
     q\<lparr>m_back := int (bq_slot q (nat (m_size q))),
       m_array := (m_array q)[bq_slot q (nat (m_size q)) := x], m_size := m_size q + 1\<rparr>"

lemma bq_push_room:
  assumes "bq_inv q" "\<not> bq_full q"
  shows "bq_push x q = Inr (True, bq_pushed x q)"
proof -
  have "(m_front q + 1 + m_size q) mod m_max_size q = int (bq_slot q (nat (m_size q)))"
    using assms by (auto simp: bq_slot_def bq_inv_def)
  then show ?thesis
    using assms bq_slot_bound [OF assms(1)]
    by (simp add: bq_push_def bq_full_def bq_pushed_def Let_def bq_next_back)
qed

lemma bq_pushed_inv [inv_intros]:
  assumes "bq_inv q" "\<not> bq_full q"
  shows "bq_inv (bq_pushed x q)"
proof -
  have "bq_slot q (nat (m_size q)) < nat (m_max_size q)"
    using bq_slot_bound [OF assms(1)] assms(1) by (auto simp: bq_inv_def)
  moreover have "int (bq_slot q (nat (m_size q))) = (m_front q + 1 + m_size q) mod m_max_size q"
    using assms by (auto simp: bq_slot_def bq_inv_def)
  ultimately show ?thesis
    using assms by (auto simp: bq_inv_def bq_pushed_def bq_full_def algebra_simps)
qed

lemma bq_pushed_view [view_simps]:
  assumes "bq_inv q" "\<not> bq_full q"
  shows "bq_view (bq_pushed x q) = bq_view q @ [x]"
proof (rule nth_equalityI)
  have sz: "0 \<le> m_size q" using assms by (simp add: bq_inv_def)
  then show "length (bq_view (bq_pushed x q)) = length (bq_view q @ [x])"
    by (simp add: bq_pushed_def nat_add_distrib)
  fix i assume "i < length (bq_view (bq_pushed x q))"
  then have i: "i < Suc (nat (m_size q))" using sz by (simp add: bq_pushed_def nat_add_distrib)
  have bound: "bq_slot q (nat (m_size q)) < length (m_array q)" by (rule bq_slot_bound [OF assms(1)])
  have at: "bq_view (bq_pushed x q) ! i =
      (m_array q)[bq_slot q (nat (m_size q)) := x] ! bq_slot q i"
    using i sz
    by (simp add: bq_view_def bq_pushed_def bq_slot_def nat_add_distrib nth_map_upt
        del: upt_Suc)
  show "bq_view (bq_pushed x q) ! i = (bq_view q @ [x]) ! i"
  proof (cases "i = nat (m_size q)")
    case True
    with at bound show ?thesis by (simp add: nth_append)
  next
    case False
    have "bq_slot q i \<noteq> bq_slot q (nat (m_size q))"
    proof
      assume "bq_slot q i = bq_slot q (nat (m_size q))"
      then have "(m_front q + 1 + int i) mod m_max_size q =
          (m_front q + 1 + int (nat (m_size q))) mod m_max_size q"
        using assms by (auto simp: bq_slot_def bq_inv_def eq_nat_nat_iff)
      moreover have "\<bar>int i - int (nat (m_size q))\<bar> < m_max_size q"
        using i assms by (auto simp: bq_inv_def bq_full_def)
      ultimately show False using False mod_shift_inj by blast
    qed
    with at False i show ?thesis by (simp add: nth_append bq_view_def)
  qed
qed

lemma bq_take_first:
  assumes "bq_inv q" "bq_view q = x # xs"
  obtains q' where "bq_take q = Inr (x, q')" "bq_inv q'" "bq_view q' = xs"
    "m_array q' = m_array q" "m_max_size q' = m_max_size q" "m_front q' = int (bq_slot q 0)"
proof
  let ?q = "q\<lparr>m_front := int (bq_slot q 0), m_size := m_size q - 1\<rparr>"
  note sz = bq_view_Cons(1) [OF assms] and x = bq_view_Cons(2) [OF assms]
  have f: "(m_front q + 1) smod m_max_size q = int (bq_slot q 0)"
    using assms by (auto simp: bq_slot_def bq_inv_def smod_nonneg)
  show "bq_take q = Inr (x, ?q)"
    using bq_slot_bound [OF assms(1), of 0] by (simp add: bq_take_def f x)
  have slot: "int (bq_slot q 0) = (m_front q + 1) mod m_max_size q"
    using assms by (auto simp: bq_slot_def bq_inv_def)
  show "bq_inv ?q"
    using assms sz bq_slot_bound [OF assms(1), of 0]
    by (auto simp: bq_inv_def slot mod_simps intro: order.trans [OF _ pos_mod_sign])
  have "bq_slot ?q i = bq_slot q (Suc i)" for i
  proof -
    have "bq_slot ?q i = nat ((int (bq_slot q 0) + (1 + int i)) mod m_max_size q)"
      by (simp add: bq_slot_def add.assoc)
    then show ?thesis by (simp add: slot mod_add_left_eq) (simp add: bq_slot_def algebra_simps)
  qed
  then have "bq_view ?q = map (\<lambda>i. m_array q ! bq_slot q (Suc i)) [0..<nat (m_size q) - 1]"
    using sz by (simp add: bq_view_def nat_diff_distrib)
  also have "\<dots> = tl (bq_view q)"
    by (intro nth_equalityI) (auto simp: bq_view_def nth_tl)
  finally show "bq_view ?q = xs" using assms(2) by simp
qed simp_all

lemma bq_pop_ready: "0 < m_size q \<Longrightarrow> bq_pop q w = bind_res (bq_take q) (\<lambda>(x, q'). Inr (Popped x q'))"
  by (simp add: bq_pop.simps)

lemma bq_pop_now_empty: "m_size q \<le> 0 \<Longrightarrow> bq_pop_now q = Inr None"
  by (simp add: bq_pop_now_def bq_pop.simps)

lemma bq_pop_now_first:
  assumes "bq_inv q" "bq_view q = x # xs"
  shows "\<exists>q'. bq_pop_now q = Inr (Some (x, q')) \<and> bq_inv q' \<and> bq_view q' = xs"
proof -
  obtain q' where "bq_take q = Inr (x, q')" "bq_inv q'" "bq_view q' = xs"
    by (rule bq_take_first [OF assms])
  with bq_view_Cons(1) [OF assms] show ?thesis by (simp add: bq_pop_now_def bq_pop_ready)
qed

section \<open>The contract\<close>

interpretation bq: bounded_fifo bq_inv bq_view "\<lambda>q. \<not> bq_full q" bq_push bq_pop_now bq_cap
proof unfold_locales
  fix q :: "'a block_queue" and x assume "bq_inv q" "\<not> bq_full q"
  then show "\<exists>q'. bq_push x q = Inr (True, q') \<and> bq_inv q' \<and> bq_view q' = bq_view q @ [x]"
    by (simp add: bq_push_room bq_pushed_inv bq_pushed_view)
next
  fix q :: "'a block_queue" and x assume "\<not> \<not> bq_full q"
  then show "bq_push x q = Inr (False, q)" by (simp add: bq_push_full)
next
  fix q :: "'a block_queue" assume "bq_inv q" "bq_view q = []"
  then show "bq_pop_now q = Inr None" by (simp add: bq_pop_now_empty bq_view_eq_Nil)
next
  fix q :: "'a block_queue" and x xs assume "bq_inv q" "bq_view q = x # xs"
  then show "\<exists>q'. bq_pop_now q = Inr (Some (x, q')) \<and> bq_inv q' \<and> bq_view q' = xs"
    by (rule bq_pop_now_first)
next
  fix q :: "'a block_queue" assume "bq_inv q"
  then show "(\<not> bq_full q) = (length (bq_view q) < bq_cap q)"
    by (auto simp: bq_full_def bq_cap_def bq_inv_def)
next
  fix q :: "'a block_queue" assume "bq_inv q"
  then show "length (bq_view q) \<le> bq_cap q" by (auto simp: bq_cap_def bq_inv_def)
next
  fix q q' :: "'a block_queue" and x ok assume "bq_inv q" "bq_push x q = Inr (ok, q')"
  then show "bq_cap q' = bq_cap q"
    by (cases "bq_full q") (auto simp: bq_push_full bq_push_room bq_pushed_def bq_cap_def)
next
  fix q q' :: "'a block_queue" and x assume "bq_inv q" "bq_pop_now q = Inr (Some (x, q'))"
  then show "bq_cap q' = bq_cap q"
    by (auto simp: bq_pop_now_def bq_pop.simps bq_take_def bq_cap_def bind_res_eq_Inr Let_def
        split: if_splits)
qed


section \<open>What the waiting pop promises\<close>

fun pop_spec :: "'a block_queue \<Rightarrow> (int \<times> 'a block_queue) list \<Rightarrow> 'a pop_result \<Rightarrow> bool" where
  "pop_spec q wakes r =
     (case bq_view q of
        x # xs \<Rightarrow> (case r of Popped y q' \<Rightarrow> y = x \<and> bq_inv q' \<and> bq_view q' = xs | _ \<Rightarrow> False)
      | [] \<Rightarrow>
          (case wakes of
             [] \<Rightarrow> r = Pop_waiting
           | (rc, q') # wakes' \<Rightarrow> (if rc = 0 then pop_spec q' wakes' r else r = Pop_failed q')))"

declare pop_spec.simps [simp del]

lemma pop_spec_ready:
  "bq_view q = x # xs \<Longrightarrow>
     pop_spec q wakes r \<longleftrightarrow> (\<exists>q'. r = Popped x q' \<and> bq_inv q' \<and> bq_view q' = xs)"
  by (auto simp: pop_spec.simps [of q] split: pop_result.splits)

lemma bq_pop_ready_spec:
  assumes "bq_inv q" "bq_view q = x # xs"
  shows "\<exists>r. bq_pop q wakes = Inr r \<and> pop_spec q wakes r"
proof -
  obtain q' where "bq_take q = Inr (x, q')" "bq_inv q'" "bq_view q' = xs"
    by (rule bq_take_first [OF assms])
  with bq_view_Cons(1) [OF assms] assms(2) show ?thesis
    by (simp add: bq_pop_ready pop_spec_ready)
qed

section \<open>Properties\<close>

text \<open>
  C14. First in, first out, without a fault: from a newly constructed queue, any sequence of
  \<open>push\<close> and non-waiting \<open>pop\<close> calls runs to its end, the elements accepted are exactly the
  elements taken followed by the elements still stored (in order), and never more than the
  constructor's \<open>max_size\<close> are stored.
\<close>

theorem block_queue_fifo:
  assumes "block_queue_new d n = Some q"
  shows "\<exists>ins outs q'. bq.exec q ops = Inr (ins, outs, q') \<and> ins = outs @ bq_view q' \<and>
           int (length (bq_view q')) \<le> n"
proof -
  have q: "bq_inv q" "bq_view q = []" "bq_cap q = nat n" and "0 < n"
    using bq_new_inv [OF assms] assms by (auto simp: block_queue_new_def split: if_splits)
  obtain ins outs q' where run: "bq.exec q ops = Inr (ins, outs, q')"
      and fifo: "bq_view q @ ins = outs @ bq_view q'" and "bq_inv q'"
    using bq.exec_fifo [OF q(1), of ops] by blast
  moreover have "length (bq_view q') \<le> nat n"
    using bq.bounded [OF \<open>bq_inv q'\<close>] bq.exec_cap [OF q(1) run] q(3) by simp
  ultimately show ?thesis using q(2) \<open>0 < n\<close> by auto
qed

lemma block_queue_fifo_witness:
  "\<exists>ins outs q'. bq.exec (the (block_queue_new (0::nat) 2)) [Push 5, Push 6, Push 7, Pop] =
       Inr (ins, outs, q') \<and> ins = outs @ bq_view q' \<and> int (length (bq_view q')) \<le> 2"
  by (rule block_queue_fifo [of 0]) (simp add: block_queue_new_def)

text \<open>
  \<open>push\<close> accepts exactly the first elements there is room for: a new queue of capacity
  \<open>n\<close> offered any list keeps its first \<open>n\<close> elements, in order, and refuses the rest; a
  refused push changes nothing.
\<close>

lemma block_queue_capacity:
  assumes "block_queue_new d n = Some q"
  shows "\<exists>q'. bq.exec q (map Push xs) = Inr (take (nat n) xs, [], q') \<and>
           bq_view q' = take (nat n) xs"
proof -
  have q: "bq_inv q" "bq_view q = []" "bq_cap q = nat n" using bq_new_inv [OF assms] by auto
  obtain q' where run: "bq.exec q (map Push xs) = Inr (take (nat n) xs, [], q')"
    using bq.exec_pushes [OF q(1), of xs] q by auto
  moreover have "bq_view q' = take (nat n) xs"
    using bq.exec_fifo [OF q(1), of "map Push xs"] run q(2) by simp
  ultimately show ?thesis by blast
qed

lemma block_queue_capacity_example:
  "\<exists>q'. bq.exec (the (block_queue_new (0::nat) 2)) (map Push [5, 6, 7]) =
     Inr (take (nat 2) [5, 6, 7], [], q') \<and> bq_view q' = take (nat 2) [5, 6, 7]"
  by (rule block_queue_capacity [of 0]) (simp add: block_queue_new_def)

text \<open>
  The waiting \<open>pop\<close>, on every branch: on well-formed queues it never faults; it returns
  the oldest element of the first queue it finds non-empty (at the call or after a
  successful wake-up), it fails as soon as a wait fails while the queue is empty, and as long
  as it finds the queue empty it keeps waiting. It never returns an element from an empty
  queue, however often it is woken for nothing.
\<close>

lemma block_queue_pop_waits:
  assumes "bq_inv q" "list_all (\<lambda>w. bq_inv (snd w)) wakes"
  shows "\<exists>r. bq_pop q wakes = Inr r \<and> pop_spec q wakes r"
  using assms
proof (induction wakes arbitrary: q)
  case Nil
  then show ?case
  proof (cases "bq_view q")
    case Nil
    with bq_view_eq_Nil [OF \<open>bq_inv q\<close>] show ?thesis
      by (simp add: bq_pop.simps pop_spec.simps [of q])
  qed (rule bq_pop_ready_spec)
next
  case (Cons w ws)
  obtain rc q' where w: "w = (rc, q')" by (cases w)
  show ?case
  proof (cases "bq_view q")
    case Nil
    then have "m_size q \<le> 0" using \<open>bq_inv q\<close> by (simp add: bq_view_eq_Nil)
    with Nil Cons w show ?thesis
      by (auto simp: bq_pop.simps [of q] pop_spec.simps [of q])
  qed (rule bq_pop_ready_spec [OF \<open>bq_inv q\<close>])
qed

lemma block_queue_pop_waits_example:
  "\<exists>r. bq_pop (the (block_queue_new (0::nat) 2)) [(0, the (block_queue_new 0 2))] = Inr r \<and>
       pop_spec (the (block_queue_new 0 2)) [(0, the (block_queue_new 0 2))] r"
  by (rule block_queue_pop_waits) (auto simp: block_queue_new_def bq_inv_def)

text \<open>
  The peek operations: on a non-empty well-formed queue \<open>back\<close> reads the newest element,
  but \<open>front\<close> reads the slot before the oldest one, because \<open>m_front\<close> is the index of the
  element taken last. On a queue from which nothing was ever taken that is index -1, outside
  the array; after a \<open>pop\<close> it is the element already popped.
\<close>

lemma block_queue_peek:
  assumes "bq_inv q" "bq_view q \<noteq> []"
  shows "bq_back q = Inr (Some (last (bq_view q))) \<and>
         (m_front q = - 1 \<longrightarrow> bq_front q = Inl Out_of_bounds) \<and>
         (\<forall>x q'. bq_take q = Inr (x, q') \<and> bq_view q' \<noteq> [] \<longrightarrow> bq_front q' = Inr (Some x))"
proof (intro conjI allI impI)
  have sz: "0 < m_size q" using assms bq_view_eq_Nil [OF assms(1)] by (auto simp: bq_inv_def)
  have "m_back q = int (bq_slot q (nat (m_size q) - 1))"
    using assms(1) sz by (auto simp: bq_slot_def bq_inv_def)
  then show "bq_back q = Inr (Some (last (bq_view q)))"
    using sz assms bq_slot_bound [OF assms(1), of "nat (m_size q) - 1"]
    by (simp add: bq_back_def bq_view_def last_conv_nth)
  show "bq_front q = Inl Out_of_bounds" if "m_front q = - 1"
    using that sz by (simp add: bq_front_def)
next
  fix x q' assume taken: "bq_take q = Inr (x, q') \<and> bq_view q' \<noteq> []"
  obtain y ys where view: "bq_view q = y # ys" using assms(2) by (cases "bq_view q") auto
  obtain q1 where q1: "bq_take q = Inr (y, q1)" "bq_inv q1"
      "m_array q1 = m_array q" "m_front q1 = int (bq_slot q 0)"
    by (rule bq_take_first [OF assms(1) view])
  then have "m_size q1 \<noteq> 0" using taken bq_view_eq_Nil by force
  then show "bq_front q' = Inr (Some x)"
    using taken q1 bq_slot_bound [OF assms(1), of 0] bq_view_Cons(2) [OF assms(1) view]
    by (simp add: bq_front_def)
qed

lemma block_queue_peek_example:
  "bq_front (bq_pushed (7::nat) (the (block_queue_new 0 2))) = Inl Out_of_bounds \<and>
   bq_back (bq_pushed (7::nat) (the (block_queue_new 0 2))) = Inr (Some 7)"
proof -
  let ?q = "the (block_queue_new (0::nat) 2)"
  have "bq_inv ?q" "\<not> bq_full ?q" "m_front ?q = - 1" "bq_view ?q = []"
    by (auto simp: block_queue_new_def bq_inv_def bq_full_def bq_view_def)
  then have "bq_inv (bq_pushed 7 ?q)" "bq_view (bq_pushed 7 ?q) = [7]" "m_front (bq_pushed 7 ?q) = - 1"
    by (simp_all add: bq_pushed_inv bq_pushed_view) (simp add: bq_pushed_def)
  then show ?thesis using block_queue_peek [of "bq_pushed 7 ?q"] by simp
qed

text \<open>
  The timed \<open>pop\<close> does not wait for its timeout: for a timeout below one second the
  absolute deadline it computes drops the current microseconds and counts milliseconds as
  microseconds, so at any time of day with at least 1000 microseconds into the second the
  deadline already lies in the past (compared in nanoseconds).
\<close>

lemma timed_pop_deadline_past:
  assumes "0 \<le> ms" "ms < 1000" "1000 \<le> usec"
  shows "fst (pop_deadline (sec, usec) ms) * 1000000000 + snd (pop_deadline (sec, usec) ms)
         < sec * 1000000000 + usec * 1000"
proof -
  have "ms sdiv 1000 = 0" "ms smod 1000 = ms"
    using assms by (simp_all add: signed_divide_int_def signed_modulo_int_def sgn_if)
  then show ?thesis using assms by (simp add: pop_deadline_def)
qed

lemma timed_pop_deadline_past_example:
  "fst (pop_deadline (100, 250000) 500) * 1000000000 + snd (pop_deadline (100, 250000) 500)
   < 100 * 1000000000 + 250000 * (1000::int)"
  by (rule timed_pop_deadline_past) simp_all

end
