(* ===== verification/Server_Pool.thy ===== *)
theory Server_Pool
  imports Fifo Raii "HOL-Library.Multiset"
begin

text \<open>
  The server's thread pool, \<open>server/threadpool/threadpool.h\<close>. \<open>tp\<close> is the object's data;
  \<open>tp_append\<close> and \<open>tp_take\<close> are what \<open>append\<close> and \<open>run\<close> do to it, seen as a whole. The
  interleaving of the producer and of the worker threads is a labelled step relation whose
  steps are the statements between which another thread can run: a worker tests \<open>m_stop\<close>,
  waits for the semaphore, takes the lock, pops under the lock and calls \<open>process\<close>; the
  producer takes the lock, pushes or refuses under the lock and posts the semaphore.
  Requests are pointers, so a request is an option.
\<close>

section \<open>The pool's data\<close>

record 'r tp =
  m_thread_number :: int
  m_max_requests :: int
  m_workqueue :: "'r option list"
  m_queuestat :: nat
  m_stop :: bool

text \<open>
  The constructor: the results of \<open>pthread_create\<close> and \<open>pthread_detach\<close> for each thread are
  arguments. The answer says how many threads run \<open>worker\<close> on the object.
\<close>

datatype 'r tp_ctor_result = Tp_built "'r tp" nat ledger | Tp_thrown nat ledger

fun tp_start_threads :: "(int \<times> int) list \<Rightarrow> nat \<Rightarrow> bool \<times> nat" where
  "tp_start_threads [] started = (True, started)"
| "tp_start_threads ((create_rc, detach_rc) # rcs) started =
     (if create_rc \<noteq> 0 then (False, started)
      else if detach_rc \<noteq> 0 then (False, Suc started)
      else tp_start_threads rcs (Suc started))"

definition tp_ctor ::
    "int \<Rightarrow> int \<Rightarrow> (int \<times> int) list \<Rightarrow> nat \<Rightarrow> ledger \<Rightarrow> 'r tp_ctor_result res" where
  "tp_ctor thread_number max_requests rcs a L =
     (if thread_number \<le> 0 \<or> max_requests \<le> 0 then Inr (Tp_thrown 0 L)
      else
        let L1 = (Array_block, a) # L in
        (case tp_start_threads (take (nat thread_number) rcs) 0 of
           (True, n) \<Rightarrow>
             Inr (Tp_built \<lparr>m_thread_number = thread_number, m_max_requests = max_requests,
                            m_workqueue = [], m_queuestat = 0, m_stop = False\<rparr> n L1)
         | (False, n) \<Rightarrow>
             bind_res (release (Array_block, a) L1) (\<lambda>L2. Inr (Tp_thrown n L2))))"

definition tp_dtor :: "nat \<Rightarrow> ledger \<Rightarrow> 'r tp \<Rightarrow> ('r tp \<times> ledger) res" where
  "tp_dtor a L p =
     bind_res (release (Array_block, a) L) (\<lambda>L'. Inr (p\<lparr>m_stop := True\<rparr>, L'))"

text \<open>
  \<open>append\<close>: the part under the lock, then the post. The size is compared as \<open>size_t\<close>.
\<close>

definition tp_append_locked :: "'r option \<Rightarrow> 'r tp \<Rightarrow> 'r tp option" where
  "tp_append_locked request p =
     (if int (length (m_workqueue p)) > c_ulong (m_max_requests p) then None
      else Some (p\<lparr>m_workqueue := m_workqueue p @ [request]\<rparr>))"

definition tp_append :: "'r option \<Rightarrow> 'r tp \<Rightarrow> bool \<times> 'r tp" where
  "tp_append request p =
     (case tp_append_locked request p of
        None \<Rightarrow> (False, p)
      | Some p' \<Rightarrow> (True, p'\<lparr>m_queuestat := snd (sem_post (m_queuestat p'))\<rparr>))"

text \<open>The part of \<open>run\<close> under the lock: nothing from an empty queue, else the front.\<close>

definition tp_take :: "'r tp \<Rightarrow> ('r option \<times> 'r tp) option" where
  "tp_take p =
     (case m_workqueue p of
        [] \<Rightarrow> None
      | request # rest \<Rightarrow> Some (request, p\<lparr>m_workqueue := rest\<rparr>))"

section \<open>Threads\<close>

datatype 'r wpc = W_loop | W_wait | W_got | W_locked | W_run "'r option" | W_exit

datatype 'r ppc = P_idle | P_locked "'r option" | P_post

text \<open>
  The last fields are history: requests accepted, taken from the queue and finished, calls of
  \<open>process\<close>, and interrupted waits not yet paid for by a worker that found the queue empty.
\<close>

record 'r tp_sys =
  pool :: "'r tp"
  queuelocker :: "tid option"
  producer :: "'r ppc"
  workers :: "'r wpc list"
  accepted :: "'r option list"
  taken :: "'r option list"
  finished :: "'r option list"
  processed :: "'r list"
  spurious :: nat

datatype 'r tp_act =
    Submit "'r option" | Refuse | Enqueue | Post
  | Test nat | Wait nat | Lock nat | Found_empty nat | Take nat | Run nat

abbreviation (input) worker_tid :: "nat \<Rightarrow> tid" where
  "worker_tid i \<equiv> Suc i"

abbreviation set_worker :: "nat \<Rightarrow> 'r wpc \<Rightarrow> 'r tp_sys \<Rightarrow> 'r tp_sys" where
  "set_worker i pc s \<equiv> s\<lparr>workers := (workers s)[i := pc]\<rparr>"

inductive tp_step :: "'r tp_sys \<Rightarrow> 'r tp_act \<Rightarrow> 'r tp_sys \<Rightarrow> bool" where
  submit:
    "producer s = P_idle \<Longrightarrow> locker_lock 0 (queuelocker s) = Some (ok, lk) \<Longrightarrow>
       tp_step s (Submit r) (s\<lparr>queuelocker := lk, producer := P_locked r\<rparr>)"
| refuse:
    "producer s = P_locked r \<Longrightarrow> tp_append_locked r (pool s) = None \<Longrightarrow>
       tp_step s Refuse (s\<lparr>queuelocker := snd (locker_unlock (queuelocker s)), producer := P_idle\<rparr>)"
| enqueue:
    "producer s = P_locked r \<Longrightarrow> tp_append_locked r (pool s) = Some p' \<Longrightarrow>
       tp_step s Enqueue
         (s\<lparr>pool := p', queuelocker := snd (locker_unlock (queuelocker s)), producer := P_post,
            accepted := accepted s @ [r]\<rparr>)"
| post:
    "producer s = P_post \<Longrightarrow>
       tp_step s Post
         (s\<lparr>pool := (pool s)\<lparr>m_queuestat := snd (sem_post (m_queuestat (pool s)))\<rparr>,
            producer := P_idle\<rparr>)"
| test:
    "i < length (workers s) \<Longrightarrow> workers s ! i = W_loop \<Longrightarrow>
       tp_step s (Test i) (set_worker i (if m_stop (pool s) then W_exit else W_wait) s)"
| wait:
    "i < length (workers s) \<Longrightarrow> workers s ! i = W_wait \<Longrightarrow>
     sem_wait interrupted (m_queuestat (pool s)) = Some (ok, v) \<Longrightarrow>
       tp_step s (Wait i)
         (set_worker i W_got
           (s\<lparr>pool := (pool s)\<lparr>m_queuestat := v\<rparr>,
              spurious := spurious s + (if ok then 0 else 1)\<rparr>))"
| lock:
    "i < length (workers s) \<Longrightarrow> workers s ! i = W_got \<Longrightarrow>
     locker_lock (worker_tid i) (queuelocker s) = Some (ok, lk) \<Longrightarrow>
       tp_step s (Lock i) (set_worker i W_locked (s\<lparr>queuelocker := lk\<rparr>))"
| found_empty:
    "i < length (workers s) \<Longrightarrow> workers s ! i = W_locked \<Longrightarrow> tp_take (pool s) = None \<Longrightarrow>
       tp_step s (Found_empty i)
         (set_worker i W_loop (s\<lparr>queuelocker := snd (locker_unlock (queuelocker s)),
                                    spurious := spurious s - 1\<rparr>))"
| take:
    "i < length (workers s) \<Longrightarrow> workers s ! i = W_locked \<Longrightarrow> tp_take (pool s) = Some (r, p') \<Longrightarrow>
       tp_step s (Take i)
         (set_worker i (W_run r)
           (s\<lparr>pool := p', queuelocker := snd (locker_unlock (queuelocker s)),
              taken := taken s @ [r]\<rparr>))"
| run:
    "i < length (workers s) \<Longrightarrow> workers s ! i = W_run r \<Longrightarrow>
       tp_step s (Run i)
         (set_worker i W_loop
           (s\<lparr>finished := finished s @ [r],
              processed := processed s @ (case r of None \<Rightarrow> [] | Some x \<Rightarrow> [x])\<rparr>))"

inductive_simps tp_step_Found_empty: "tp_step s (Found_empty i) s'"

definition tp_start :: "'r tp \<Rightarrow> nat \<Rightarrow> 'r tp_sys" where
  "tp_start p n =
     \<lparr>pool = p, queuelocker = None, producer = P_idle, workers = replicate n W_loop,
      accepted = [], taken = [], finished = [], processed = [], spurious = 0\<rparr>"

inductive tp_reach :: "'r tp \<Rightarrow> nat \<Rightarrow> 'r tp_sys \<Rightarrow> bool" for p n where
  start: "tp_reach p n (tp_start p n)"
| step: "tp_reach p n s \<Longrightarrow> tp_step s a s' \<Longrightarrow> tp_reach p n s'"

section \<open>The queue contract\<close>

definition tp_ok :: "'r tp \<Rightarrow> bool" where
  "tp_ok p \<longleftrightarrow> 0 < m_max_requests p \<and> m_max_requests p < 2 ^ 31 \<and>
              int (length (m_workqueue p)) \<le> m_max_requests p + 1"

definition tp_room :: "'r tp \<Rightarrow> bool" where
  "tp_room p \<longleftrightarrow> int (length (m_workqueue p)) \<le> m_max_requests p"

lemma tp_append_locked_ok:
  "tp_ok p \<Longrightarrow> tp_append_locked r p =
     (if tp_room p then Some (p\<lparr>m_workqueue := m_workqueue p @ [r]\<rparr>) else None)"
  by (auto simp: tp_append_locked_def tp_ok_def tp_room_def c_ulong_id)

lemma tp_take_Some:
  "tp_take p = Some (r, p') \<longleftrightarrow>
     (\<exists>rest. m_workqueue p = r # rest \<and> p' = p\<lparr>m_workqueue := rest\<rparr>)"
  by (auto simp: tp_take_def split: list.splits)

lemma tp_take_None: "tp_take p = None \<longleftrightarrow> m_workqueue p = []"
  by (simp add: tp_take_def split: list.splits)

interpretation tpq: bounded_fifo tp_ok m_workqueue tp_room
  "\<lambda>r p. Inr (tp_append r p)" "\<lambda>p. Inr (tp_take p)" "\<lambda>p. nat (m_max_requests p) + 1"
  by unfold_locales
     (auto simp: tp_append_def tp_append_locked_ok tp_take_def tp_ok_def tp_room_def
       split: list.splits if_splits)

section \<open>Invariant\<close>

text \<open>
  Every request in the queue is announced exactly once: by the semaphore's count, by a
  worker that is past its wait but has not yet popped, or by the producer about to post.
  The only announcements without a request are interrupted waits.
\<close>

definition between :: "'r wpc \<Rightarrow> bool" where
  "between pc \<longleftrightarrow> pc = W_got \<or> pc = W_locked"

definition announced :: "'r tp_sys \<Rightarrow> bool" where
  "announced s \<longleftrightarrow>
     m_queuestat (pool s) + count_if between (workers s) + (if producer s = P_post then 1 else 0) =
     length (m_workqueue (pool s)) + spurious s"

definition lock_owner :: "'r tp_sys \<Rightarrow> bool" where
  "lock_owner s \<longleftrightarrow>
     ((\<exists>r. producer s = P_locked r) \<longleftrightarrow> queuelocker s = Some 0) \<and>
     (\<forall>i < length (workers s). workers s ! i = W_locked \<longleftrightarrow> queuelocker s = Some (worker_tid i)) \<and>
     (\<forall>i \<ge> length (workers s). queuelocker s \<noteq> Some (worker_tid i))"

fun running :: "'r wpc \<Rightarrow> 'r option multiset" where
  "running (W_run r) = {#r#}"
| "running _ = {#}"

definition conserved :: "'r tp_sys \<Rightarrow> bool" where
  "conserved s \<longleftrightarrow>
     accepted s = taken s @ m_workqueue (pool s) \<and>
     mset (taken s) = mset (finished s) + sum_list (map running (workers s)) \<and>
     processed s = List.map_filter id (finished s)"

definition tp_inv :: "'r tp_sys \<Rightarrow> bool" where
  "tp_inv s \<longleftrightarrow> tp_ok (pool s) \<and> announced s \<and> lock_owner s \<and> conserved s \<and>
              (W_exit \<in> set (workers s) \<longrightarrow> m_stop (pool s))"


lemmas tp_inv_defs = tp_inv_def announced_def lock_owner_def conserved_def

lemma tp_start_running: "sum_list (replicate n {#}) = {#}"
  by (induction n) auto

lemma tp_start_inv:
  assumes "tp_ok p" "m_workqueue p = []" "m_queuestat p = 0"
  shows "tp_inv (tp_start p n)"
  using assms by (auto simp: tp_inv_defs tp_start_def between_def tp_start_running)

lemma tp_step_ok: "tp_step s a s' \<Longrightarrow> tp_ok (pool s) \<Longrightarrow> tp_ok (pool s')"
  by (induction rule: tp_step.induct)
     (auto simp: tp_append_locked_def tp_take_Some tp_ok_def c_ulong_id split: if_splits)

lemma tp_step_lock_owner: "tp_step s a s' \<Longrightarrow> lock_owner s \<Longrightarrow> lock_owner s'"
  by (induction rule: tp_step.induct)
     (force simp: lock_owner_def locker_lock_eq_Some locker_unlock_def nth_list_update)+

text \<open>A worker's move changes the number of announcing workers by what its two positions say.\<close>

lemma between_simps [simp]:
  "between W_got" "between W_locked" "\<not> between W_loop" "\<not> between W_wait" "\<not> between W_exit"
  "\<not> between (W_run r)"
  by (simp_all add: between_def)

lemma tp_step_announced:
  assumes "tp_step s a s'" "announced s"
  shows "announced s'"
  using assms(1)
proof (cases rule: tp_step.cases)
  case (test i)
  then show ?thesis using assms(2)
      count_if_update [of i "workers s" between "if m_stop (pool s) then W_exit else W_wait"]
    by (simp add: announced_def split: if_splits)
next
  case (wait i interrupted ok v)
  then show ?thesis using assms(2) count_if_update [of i "workers s" between W_got]
    by (auto simp: announced_def sem_wait_eq_Some split: if_splits)
next
  case (lock i ok lk)
  then show ?thesis using assms(2) count_if_update [of i "workers s" between W_locked]
    by (simp add: announced_def)
next
  case (found_empty i)
  then show ?thesis using assms(2) count_if_update [of i "workers s" between W_loop]
      count_if_pos [of i "workers s" between]
    by (auto simp: announced_def tp_take_None)
next
  case (take i r p')
  then show ?thesis using assms(2) count_if_update [of i "workers s" between "W_run r"]
    by (auto simp: announced_def tp_take_Some)
next
  case (run i r)
  then show ?thesis using assms(2) count_if_update [of i "workers s" between W_loop]
    by (simp add: announced_def)
qed (use assms(2) in
  \<open>auto simp: announced_def tp_append_locked_def sem_post_def split: if_splits\<close>)

lemma tp_step_conserved:
  assumes "tp_step s a s'" "conserved s"
  shows "conserved s'"
  using assms(1)
proof (cases rule: tp_step.cases)
  case (test i)
  then show ?thesis using assms(2)
      sum_map_update [of i "workers s" running "if m_stop (pool s) then W_exit else W_wait"]
    by (simp add: conserved_def split: if_splits)
next
  case (wait i interrupted ok v)
  then show ?thesis using assms(2) sum_map_update [of i "workers s" running W_got]
    by (simp add: conserved_def)
next
  case (lock i ok lk)
  then show ?thesis using assms(2) sum_map_update [of i "workers s" running W_locked]
    by (simp add: conserved_def)
next
  case (found_empty i)
  then show ?thesis using assms(2) sum_map_update [of i "workers s" running W_loop]
    by (simp add: conserved_def)
next
  case (take i r p')
  then show ?thesis using assms(2) sum_map_update [of i "workers s" running "W_run r"]
    by (auto simp: conserved_def tp_take_Some)
next
  case (run i r)
  then show ?thesis using assms(2) sum_map_update [of i "workers s" running W_loop]
    by (auto simp: conserved_def List.map_filter_def ac_simps split: option.splits)
qed (use assms(2) in
  \<open>auto simp: conserved_def tp_append_locked_def sem_post_def split: if_splits\<close>)

lemma tp_step_exit:
  "tp_step s a s' \<Longrightarrow> (W_exit \<in> set (workers s) \<longrightarrow> m_stop (pool s)) \<Longrightarrow>
     (W_exit \<in> set (workers s') \<longrightarrow> m_stop (pool s'))"
  by (induction rule: tp_step.induct)
     (auto simp: tp_append_locked_def tp_take_Some split: if_splits
       dest!: subsetD [OF set_update_subset_insert])

lemma tp_step_inv [inv_intros]: "tp_step s a s' \<Longrightarrow> tp_inv s \<Longrightarrow> tp_inv s'"
  unfolding tp_inv_def
  using tp_step_ok tp_step_announced tp_step_lock_owner tp_step_conserved tp_step_exit by blast

lemma tp_reach_inv:
  assumes "tp_ok p" "m_workqueue p = []" "m_queuestat p = 0" "tp_reach p n s"
  shows "tp_inv s"
  using assms(4) by induction (auto intro: tp_start_inv assms(1-3) tp_step_inv)

section \<open>Progress\<close>

text \<open>
  Internal steps: every step but a new call of \<open>append\<close> and an interrupted wait. Each one
  lowers \<open>tp_work\<close>, so a run of internal steps is finite.
\<close>

fun is_submit :: "'r tp_act \<Rightarrow> bool" where
  "is_submit (Submit r) = True"
| "is_submit _ = False"

definition tp_internal :: "'r tp_sys \<Rightarrow> 'r tp_sys \<Rightarrow> bool" where
  "tp_internal s s' \<longleftrightarrow> (\<exists>a. tp_step s a s' \<and> \<not> is_submit a \<and> spurious s' \<le> spurious s)"

fun wpc_rank :: "'r wpc \<Rightarrow> nat" where
  "wpc_rank W_wait = 0"
| "wpc_rank W_exit = 0"
| "wpc_rank W_loop = 1"
| "wpc_rank (W_run r) = 2"
| "wpc_rank W_locked = 3"
| "wpc_rank W_got = 4"

fun ppc_rank :: "'r ppc \<Rightarrow> nat" where
  "ppc_rank P_idle = 0"
| "ppc_rank P_post = 11"
| "ppc_rank (P_locked r) = 12"

definition tp_work :: "'r tp_sys \<Rightarrow> nat" where
  "tp_work s =
     10 * m_queuestat (pool s) + sum_list (map wpc_rank (workers s)) + ppc_rank (producer s)"

lemma tp_step_work:
  assumes "tp_step s a s'" "\<not> is_submit a" "spurious s' \<le> spurious s"
  shows "tp_work s' < tp_work s"
  using assms(1)
proof (cases rule: tp_step.cases)
  case (test i)
  then show ?thesis
    using sum_map_update [of i "workers s" wpc_rank "if m_stop (pool s) then W_exit else W_wait"]
    by (simp add: tp_work_def split: if_splits)
next
  case (wait i interrupted ok v)
  then show ?thesis using assms(3) sum_map_update [of i "workers s" wpc_rank W_got]
    by (auto simp: tp_work_def sem_wait_eq_Some split: if_splits)
next
  case (lock i ok lk)
  then show ?thesis using sum_map_update [of i "workers s" wpc_rank W_locked]
    by (simp add: tp_work_def)
next
  case (found_empty i)
  then show ?thesis using sum_map_update [of i "workers s" wpc_rank W_loop]
    by (simp add: tp_work_def)
next
  case (take i r p')
  then show ?thesis using sum_map_update [of i "workers s" wpc_rank "W_run r"]
    by (auto simp: tp_work_def tp_take_Some)
next
  case (run i r)
  then show ?thesis using sum_map_update [of i "workers s" wpc_rank W_loop]
    by (simp add: tp_work_def)
qed (use assms(2) in
  \<open>auto simp: tp_work_def tp_append_locked_def sem_post_def split: if_splits\<close>)

lemma tp_internal_work: "tp_internal s s' \<Longrightarrow> tp_work s' < tp_work s"
  unfolding tp_internal_def using tp_step_work by blast

interpretation tp_progress: measured_steps tp_internal tp_work
  by unfold_locales (rule tp_internal_work)

lemma tp_internal_inv: "tp_internal\<^sup>*\<^sup>* s s' \<Longrightarrow> tp_inv s \<Longrightarrow> tp_inv s'"
  by (induction rule: rtranclp_induct) (auto simp: tp_internal_def intro: tp_step_inv)

lemma tp_internal_keeps:
  "tp_internal\<^sup>*\<^sup>* s s' \<Longrightarrow> m_stop (pool s') = m_stop (pool s) \<and> length (workers s') = length (workers s)"
proof (induction rule: rtranclp_induct)
  case (step s1 s2)
  from step(2) obtain a where "tp_step s1 a s2" by (auto simp: tp_internal_def)
  then have "m_stop (pool s2) = m_stop (pool s1) \<and> length (workers s2) = length (workers s1)"
    by cases (auto simp: tp_append_locked_def tp_take_Some split: if_splits)
  with step(3) show ?case by simp
qed simp

text \<open>Each thread that is not waiting can move, unless the lock it needs is held.\<close>

lemma producer_stuck:
  assumes "tp_inv s" "\<nexists>s'. tp_internal s s'"
  shows "producer s = P_idle"
proof (rule ccontr)
  assume "producer s \<noteq> P_idle"
  then consider r where "producer s = P_locked r" | "producer s = P_post" by (cases "producer s") auto
  then obtain a s' where "tp_step s a s'" "\<not> is_submit a" "spurious s' = spurious s"
  proof cases
    case 1
    then show ?thesis using that
      by (cases "tp_append_locked r (pool s)") (force intro: tp_step.refuse tp_step.enqueue)+
  next
    case 2
    then show ?thesis using that by (force intro: tp_step.post)
  qed
  with assms(2) show False by (force simp: tp_internal_def)
qed

lemma worker_stuck:
  assumes "tp_inv s" "\<nexists>s'. tp_internal s s'" "i < length (workers s)"
  shows "workers s ! i = W_exit \<or> (workers s ! i = W_wait \<and> m_queuestat (pool s) = 0)"
proof -
  have stuck: "\<not> (tp_step s a s' \<and> \<not> is_submit a \<and> spurious s' \<le> spurious s)" for a s'
    using assms(2) by (auto simp: tp_internal_def)
  have locked: "workers s ! j \<noteq> W_locked" if "j < length (workers s)" for j
  proof
    assume at: "workers s ! j = W_locked"
    show False
    proof (cases "tp_take (pool s)")
      case None
      with stuck [of "Found_empty j"] tp_step.found_empty [OF that at] show False by force
    next
      case (Some rp)
      obtain r p' where rp: "rp = (r, p')" by (cases rp)
      with stuck [of "Take j"] tp_step.take [OF that at] Some show False by force
    qed
  qed
  have free: "queuelocker s = None"
  proof (cases "queuelocker s")
    case (Some t)
    have own: "lock_owner s" using assms(1) by (simp add: tp_inv_def)
    show ?thesis
    proof (cases t)
      case 0
      with Some own producer_stuck [OF assms(1,2)] show ?thesis by (auto simp: lock_owner_def)
    next
      case (Suc j)
      with Some own have "j < length (workers s)" by (auto simp: lock_owner_def not_le [symmetric])
      with Some Suc own locked show ?thesis by (auto simp: lock_owner_def)
    qed
  qed simp
  show ?thesis
  proof (cases "workers s ! i")
    case W_loop
    with stuck [of "Test i"] tp_step.test [OF assms(3)] show ?thesis by force
  next
    case W_wait
    have "m_queuestat (pool s) = 0"
    proof (rule ccontr)
      assume "m_queuestat (pool s) \<noteq> 0"
      then have "sem_wait False (m_queuestat (pool s)) = Some (True, m_queuestat (pool s) - 1)"
        by (simp add: sem_wait_def)
      from tp_step.wait [OF assms(3) W_wait this] stuck [of "Wait i"] show False by force
    qed
    with W_wait show ?thesis by simp
  next
    case W_got
    have "locker_lock (worker_tid i) (queuelocker s) = Some (True, Some (worker_tid i))"
      by (simp add: free locker_lock_def)
    from tp_step.lock [OF assms(3) W_got this] stuck [of "Lock i"] show ?thesis by force
  next
    case W_locked
    with locked [OF assms(3)] show ?thesis by simp
  next
    case (W_run r)
    with stuck [of "Run i"] tp_step.run [OF assms(3)] show ?thesis by force
  qed simp
qed

lemma idle_workers:
  "\<forall>pc \<in> set pcs. pc = W_wait \<Longrightarrow>
     count_if between pcs = 0 \<and> sum_list (map running pcs) = {#}"
  by (induction pcs) auto

text \<open>When no internal step is left and the pool is not stopped, nothing is left to do.\<close>

lemma tp_quiescent:
  assumes "tp_inv s" "\<nexists>s'. tp_internal s s'" "\<not> m_stop (pool s)" "workers s \<noteq> []"
  shows "m_workqueue (pool s) = [] \<and> mset (finished s) = mset (accepted s)"
proof -
  have idle: "\<forall>pc \<in> set (workers s). pc = W_wait"
  proof
    fix pc assume "pc \<in> set (workers s)"
    then obtain i where "i < length (workers s)" "pc = workers s ! i" by (auto simp: in_set_conv_nth)
    moreover have "W_exit \<notin> set (workers s)" using assms(1,3) by (simp add: tp_inv_def)
    ultimately show "pc = W_wait" using worker_stuck [OF assms(1,2)] by (metis nth_mem)
  qed
  have "workers s ! 0 = W_wait" using idle assms(4) by auto
  with worker_stuck [OF assms(1,2), of 0] assms(4) have none: "m_queuestat (pool s) = 0" by auto
  with idle_workers [OF idle] producer_stuck [OF assms(1,2)] assms(1) show ?thesis
    by (auto simp: tp_inv_defs)
qed

section \<open>Properties\<close>

text \<open>
  C10. Conservation and order, in every reachable state of any number of workers: the requests
  accepted are the requests taken, in the order of their acceptance, followed by the queue;
  every request taken is finished or being processed by exactly one worker, so none is lost
  or processed twice; \<open>process\<close> is called on exactly the finished requests that are not null.
\<close>

theorem tp_conservation:
  assumes "tp_ok p" "m_workqueue p = []" "m_queuestat p = 0" "tp_reach p n s"
  shows "accepted s = taken s @ m_workqueue (pool s) \<and>
         mset (accepted s) = mset (finished s) + sum_list (map running (workers s)) +
           mset (m_workqueue (pool s)) \<and>
         processed s = List.map_filter id (finished s)"
proof -
  have "conserved s" using tp_reach_inv [OF assms] by (simp add: tp_inv_def)
  then show ?thesis by (simp add: conserved_def)
qed

definition tp_default :: "nat tp" where
  "tp_default = \<lparr>m_thread_number = 20, m_max_requests = 10000, m_workqueue = [],
                 m_queuestat = 0, m_stop = False\<rparr>"

lemma tp_default_ok:
  "tp_ok tp_default" "m_workqueue tp_default = []" "m_queuestat tp_default = 0"
  by (simp_all add: tp_ok_def tp_default_def)

text \<open>A sample run: a request is submitted, accepted and announced.\<close>

definition tp_after_submit :: "nat tp_sys" where
  "tp_after_submit = (tp_start tp_default 20)\<lparr>queuelocker := Some 0, producer := P_locked (Some 7)\<rparr>"

definition tp_after_enqueue :: "nat tp_sys" where
  "tp_after_enqueue =
     tp_after_submit\<lparr>pool := tp_default\<lparr>m_workqueue := [Some 7]\<rparr>, queuelocker := None,
       producer := P_post, accepted := [Some 7]\<rparr>"

lemma tp_sample_reach: "tp_reach tp_default 20 tp_after_enqueue"
proof -
  have "tp_step (tp_start tp_default 20) (Submit (Some 7)) tp_after_submit"
    unfolding tp_after_submit_def
    by (rule tp_step.submit [of _ True]) (simp_all add: tp_start_def locker_lock_def)
  moreover have "tp_step tp_after_submit Enqueue tp_after_enqueue"
    using tp_step.enqueue [of tp_after_submit "Some 7" "tp_default\<lparr>m_workqueue := [Some 7]\<rparr>"]
    by (simp add: tp_after_submit_def tp_after_enqueue_def tp_start_def tp_append_locked_def
        tp_default_def locker_unlock_def c_ulong_id)
  ultimately show ?thesis by (blast intro: tp_reach.intros)
qed

lemma tp_conservation_witness:
  "accepted tp_after_enqueue = taken tp_after_enqueue @ m_workqueue (pool tp_after_enqueue)"
  using tp_conservation [OF tp_default_ok tp_sample_reach] by simp

text \<open>
  C11. Nothing is stranded: from every reachable state of a pool that has workers and is not
  stopped, any run of internal steps (no further \<open>append\<close>, no interrupted wait) is finite,
  and a state in which no internal step is left has an empty queue and has finished every
  request it accepted.
\<close>

theorem tp_drains:
  assumes "tp_ok p" "m_workqueue p = []" "m_queuestat p = 0" "tp_reach p n s"
    and "workers s \<noteq> []" "\<not> m_stop (pool s)"
  shows "wfp (\<lambda>s2 s1. tp_internal s1 (s2 :: 'r tp_sys)) \<and>
         (\<forall>s'. tp_internal\<^sup>*\<^sup>* s s' \<and> \<not> (\<exists>s''. tp_internal s' s'') \<longrightarrow>
           m_workqueue (pool s') = [] \<and> mset (finished s') = mset (accepted s'))"
proof (intro conjI allI impI tp_progress.finite_runs)
  fix s' assume "tp_internal\<^sup>*\<^sup>* s s' \<and> \<not> (\<exists>s''. tp_internal s' s'')"
  then have run: "tp_internal\<^sup>*\<^sup>* s s'" and stuck: "\<nexists>s''. tp_internal s' s''" by auto
  have "tp_inv s'" using tp_internal_inv [OF run] tp_reach_inv [OF assms(1-4)] by simp
  then have "m_workqueue (pool s') = [] \<and> mset (finished s') = mset (accepted s')"
    using tp_quiescent [OF _ stuck] tp_internal_keeps [OF run] assms(5,6) by fastforce
  then show "m_workqueue (pool s') = []" "mset (finished s') = mset (accepted s')" by auto
qed

lemma tp_drains_witness:
  "\<exists>s'. tp_internal\<^sup>*\<^sup>* tp_after_enqueue s' \<and> m_workqueue (pool s') = [] \<and>
        mset (finished s') = mset (accepted s')"
proof -
  have "workers tp_after_enqueue \<noteq> []" "\<not> m_stop (pool tp_after_enqueue)"
    by (simp_all add: tp_after_enqueue_def tp_after_submit_def tp_start_def tp_default_def)
  from tp_drains [OF tp_default_ok tp_sample_reach this] tp_progress.terminal [of tp_after_enqueue]
  show ?thesis by blast
qed

text \<open>A sample run: the only worker's wait is interrupted and it finds the queue empty.\<close>

definition tp_interrupted :: "nat \<Rightarrow> nat wpc \<Rightarrow> tid option \<Rightarrow> nat tp_sys" where
  "tp_interrupted k pc lk =
     (tp_start tp_default 1)\<lparr>workers := [pc], queuelocker := lk, spurious := k\<rparr>"

lemma tp_interrupted_reach: "tp_reach tp_default 1 (tp_interrupted 1 W_locked (Some 1))"
proof -
  have "tp_step (tp_start tp_default 1) (Test 0) (tp_interrupted 0 W_wait None)"
    using tp_step.test [of 0 "tp_start tp_default 1"]
    by (simp add: tp_interrupted_def tp_start_def tp_default_def)
  moreover have "tp_step (tp_interrupted 0 W_wait None) (Wait 0) (tp_interrupted 1 W_got None)"
    using tp_step.wait [of 0 "tp_interrupted 0 W_wait None" True False 0]
    by (simp add: tp_interrupted_def tp_start_def tp_default_def sem_wait_def)
  moreover have "tp_step (tp_interrupted 1 W_got None) (Lock 0) (tp_interrupted 1 W_locked (Some 1))"
    using tp_step.lock [of 0 "tp_interrupted 1 W_got None" True "Some 1"]
    by (simp add: tp_interrupted_def tp_start_def locker_lock_def)
  ultimately show ?thesis by (blast intro: tp_reach.intros)
qed

text \<open>
  The branch of \<open>run\<close> for an empty queue is dead unless a wait was interrupted: the
  semaphore counts the requests exactly, so a worker that took a count always finds one.
\<close>

lemma tp_empty_only_after_interrupt:
  assumes "tp_ok p" "m_workqueue p = []" "m_queuestat p = 0" "tp_reach p n s"
    and "tp_step s (Found_empty i) s'"
  shows "0 < spurious s"
proof -
  from assms(5) have "i < length (workers s)" "workers s ! i = W_locked" "m_workqueue (pool s) = []"
    by (simp_all add: tp_step_Found_empty tp_take_None)
  moreover from this have "0 < count_if between (workers s)" by (intro count_if_pos) auto
  moreover have "announced s" using tp_reach_inv [OF assms(1-4)] by (simp add: tp_inv_def)
  ultimately show ?thesis by (simp add: announced_def)
qed

lemma tp_empty_only_after_interrupt_example:
  "\<exists>s'. tp_step (tp_interrupted 1 W_locked (Some 1)) (Found_empty 0) s' \<and>
     0 < spurious (tp_interrupted 1 W_locked (Some 1))"
proof -
  have "\<exists>s'. tp_step (tp_interrupted 1 W_locked (Some 1)) (Found_empty 0) s'"
    by (simp add: tp_step_Found_empty tp_interrupted_def tp_start_def tp_take_def tp_default_def)
  then show ?thesis
    using tp_empty_only_after_interrupt [OF tp_default_ok tp_interrupted_reach] by blast
qed

text \<open>
  The bound on waiting requests: an empty pool offered a list of requests accepts its
  first \<open>max_requests + 1\<close> elements, one more than the limit the constructor documents, and
  refuses the others; in every reachable state at most that many wait.
\<close>

lemma tp_capacity:
  assumes "tp_ok p" "m_workqueue p = []" "m_queuestat p = 0"
  shows "(\<exists>p'. tpq.exec p (map Push rs) = Inr (take (nat (m_max_requests p) + 1) rs, [], p')) \<and>
         (\<forall>n s. tp_reach p n s \<longrightarrow>
            int (length (m_workqueue (pool s))) \<le> m_max_requests (pool s) + 1)"
  using tpq.exec_pushes [OF assms(1), of rs] tp_reach_inv [OF assms] assms(2)
  by (auto simp: tp_inv_def tp_ok_def)

lemma tp_capacity_example:
  "\<exists>p'. tpq.exec (tp_default\<lparr>m_max_requests := 2\<rparr>) (map Push [Some 1, Some 2, Some 3, Some 4]) =
     Inr ([Some 1, Some 2, Some 3], [], p')"
  using tp_capacity [of "tp_default\<lparr>m_max_requests := 2\<rparr>" "[Some 1, Some 2, Some 3, Some 4]"]
  by (simp add: tp_ok_def tp_default_def numeral_eq_Suc)

lemma tp_start_threads_all:
  "list_all (\<lambda>rc. rc = (0, 0)) rcs \<Longrightarrow> tp_start_threads rcs k = (True, k + length rcs)"
  by (induction rcs arbitrary: k) auto

lemma tp_start_threads_fail:
  "list_all (\<lambda>rc. rc = (0, 0)) rcs \<Longrightarrow> rc \<noteq> (0, 0) \<Longrightarrow>
     tp_start_threads (rcs @ rc # rest) k =
       (False, k + length rcs + (if fst rc = 0 then 1 else 0))"
  by (induction rcs arbitrary: k) (cases rc; auto)+

text \<open>
  The constructor: with every thread created and detached it owns the thread array and
  runs exactly \<open>thread_number\<close> workers; a non-positive argument throws at once. When thread
  \<open>i\<close> cannot be created or detached it releases the array and throws, but the workers
  already started keep running on the object whose construction failed.
\<close>

lemma tp_ctor_outcomes:
  assumes "0 < n" "0 < m" "list_all (\<lambda>rc. rc = (0, 0)) oks" "rc \<noteq> (0, 0)"
    and "length oks < nat n" "length every = nat n" "list_all (\<lambda>rc. rc = (0, 0)) every"
  shows "(\<exists>p :: 'r tp. tp_ctor n m every a L = Inr (Tp_built p (nat n) ((Array_block, a) # L)) \<and>
              m_workqueue p = [] \<and> m_queuestat p = 0 \<and> m_max_requests p = m) \<and>
         tp_ctor n m (oks @ rc # rest) a L =
           Inr (Tp_thrown (length oks + (if fst rc = 0 then 1 else 0)) L :: 'r tp_ctor_result) \<and>
         tp_ctor 0 m every a L = Inr (Tp_thrown 0 L :: 'r tp_ctor_result)"
proof -
  obtain k where k: "nat n - length oks = Suc k" using assms(5) by (metis Suc_diff_Suc)
  then have "take (nat n) (oks @ rc # rest) = oks @ rc # take k rest" using assms(5) by simp
  then show ?thesis
    using assms(1-4,6,7) tp_start_threads_fail [OF assms(3,4), of "take k rest" 0]
      tp_start_threads_all [OF assms(7), of 0]
    by (simp add: tp_ctor_def Let_def)
qed

lemma tp_ctor_outcomes_example:
  "tp_ctor 2 5 [(0, 0), (11, 0)] 3 [] = Inr (Tp_thrown 1 [] :: nat tp_ctor_result)"
  using tp_ctor_outcomes [where 'r = nat, of 2 5 "[(0, 0)]" "(11, 0)" "[(0, 0), (0, 0)]" 3 "[]" "[]"] by simp

end
