(* ===== verification/C_String.thy ===== *)
theory C_String
  imports FM_Prelude "HOL-Library.Char_ord"
begin

text \<open>
  The routines of the C library the sources use on character arrays. A buffer is the list of
  its bytes, at its full size; the string it holds (\<open>cstr\<close>) ends at the first NUL. A routine
  that reads past a buffer with no NUL, or writes past the end of its destination, faults.
  Formatting covers the conversions that occur in the sources: \<open>%d\<close>, \<open>%ld\<close>, \<open>%lld\<close>, \<open>%x\<close>
  and \<open>%s\<close>, with zero padding and a width.
\<close>

section \<open>Buffers and strings\<close>

abbreviation NUL :: char where
  "NUL \<equiv> CHR 0x00"

abbreviation (input) newline :: char where
  "newline \<equiv> CHR 0x0A"

definition cstr :: "string \<Rightarrow> string" where
  "cstr buf = takeWhile (\<lambda>c. c \<noteq> NUL) buf"

definition terminated :: "string \<Rightarrow> bool" where
  "terminated buf \<longleftrightarrow> NUL \<in> set buf"

definition no_nul :: "string \<Rightarrow> bool" where
  "no_nul s \<longleftrightarrow> NUL \<notin> set s"

definition c_read :: "string \<Rightarrow> string res" where
  "c_read buf = (if terminated buf then Inr (cstr buf) else Inl Not_terminated)"

text \<open>A string constant of the source, with its terminator.\<close>

definition lit :: "string \<Rightarrow> string" where
  "lit s = s @ [NUL]"

definition store_at :: "string \<Rightarrow> nat \<Rightarrow> string \<Rightarrow> string res" where
  "store_at dst off s =
     (if off + length s < length dst
      then Inr (take off dst @ s @ NUL # drop (Suc (off + length s)) dst)
      else Inl Out_of_bounds)"

definition c_strcpy :: "string \<Rightarrow> string \<Rightarrow> string res" where
  "c_strcpy dst src = bind_res (c_read src) (\<lambda>s. store_at dst 0 s)"

definition c_strcat :: "string \<Rightarrow> string \<Rightarrow> string res" where
  "c_strcat dst src =
     bind_res (c_read dst) (\<lambda>d. bind_res (c_read src) (\<lambda>s. store_at dst (length d) s))"

definition c_memcpy :: "string \<Rightarrow> string \<Rightarrow> nat \<Rightarrow> string res" where
  "c_memcpy dst src n =
     (if n \<le> length dst \<and> n \<le> length src then Inr (take n src @ drop n dst)
      else Inl Out_of_bounds)"

text \<open>\<open>strncpy\<close> writes exactly \<open>n\<close> bytes: the string, filled up with NULs, or cut short.\<close>

definition c_strncpy :: "string \<Rightarrow> string \<Rightarrow> nat \<Rightarrow> string res" where
  "c_strncpy dst s n =
     (if n \<le> length dst then Inr (take n (s @ replicate n NUL) @ drop n dst)
      else Inl Out_of_bounds)"

definition c_memset :: "nat \<Rightarrow> string" where
  "c_memset n = replicate n NUL"

text \<open>\<open>strncmp(a, b, n) == 0\<close> and \<open>strcmp(a, b) == 0\<close>, on the strings two buffers hold.\<close>

definition strncmp_eq :: "string \<Rightarrow> string \<Rightarrow> nat \<Rightarrow> bool" where
  "strncmp_eq a b n \<longleftrightarrow> take n a = take n b"

definition strrchr :: "string \<Rightarrow> char \<Rightarrow> nat option" where
  "strrchr s c =
     (if c \<in> set s then Some (length s - 1 - length (takeWhile (\<lambda>x. x \<noteq> c) (rev s))) else None)"

lemma cstr_no_nul [simp]: "no_nul (cstr buf)"
  by (auto simp: no_nul_def cstr_def dest: set_takeWhileD)

lemma cstr_append_NUL [simp]: "no_nul s \<Longrightarrow> cstr (s @ NUL # t) = s"
  by (simp add: no_nul_def cstr_def)

lemma terminated_append_NUL [simp]: "terminated (s @ NUL # t)"
  by (simp add: terminated_def)

lemma terminated_cstr: "terminated buf \<Longrightarrow> \<exists>rest. buf = cstr buf @ NUL # rest"
proof -
  assume "terminated buf"
  then obtain us vs where "buf = us @ NUL # vs" "NUL \<notin> set us"
    by (auto simp: terminated_def dest: split_list_first)
  then show ?thesis by (simp add: cstr_def)
qed

lemma cstr_length_less: "terminated buf \<Longrightarrow> length (cstr buf) < length buf"
  by (drule terminated_cstr) (metis length_append length_Cons less_add_Suc1 add_Suc_right)

lemma cstr_idem [simp]: "no_nul s \<Longrightarrow> cstr s = s"
  by (simp add: no_nul_def cstr_def)

lemma c_read_lit [simp]: "no_nul s \<Longrightarrow> c_read (lit s) = Inr s"
  by (simp add: c_read_def lit_def)

lemma c_read_terminated [simp]: "terminated buf \<Longrightarrow> c_read buf = Inr (cstr buf)"
  by (simp add: c_read_def)

lemma c_read_append_NUL [simp]: "no_nul s \<Longrightarrow> c_read (s @ NUL # t) = Inr s"
  by (simp add: c_read_def)

lemma no_nul_append [simp]: "no_nul (s @ t) \<longleftrightarrow> no_nul s \<and> no_nul t"
  by (simp add: no_nul_def)

lemma no_nul_Nil [simp]: "no_nul []"
  by (simp add: no_nul_def)

lemma no_nul_Cons [simp]: "no_nul (c # s) \<longleftrightarrow> c \<noteq> NUL \<and> no_nul s"
  by (auto simp: no_nul_def)

lemma no_nul_take [simp]: "no_nul s \<Longrightarrow> no_nul (take n s)"
  by (auto simp: no_nul_def dest: in_set_takeD)

lemma no_nul_drop [simp]: "no_nul s \<Longrightarrow> no_nul (drop n s)"
  by (auto simp: no_nul_def dest: in_set_dropD)

lemma cstr_Cons: "cstr (c # s) = (if c = NUL then [] else c # cstr s)"
  by (simp add: cstr_def)

lemma cstr_replicate_NUL [simp]: "cstr (replicate n NUL) = []"
  by (cases n) (simp_all add: cstr_def)

lemma terminated_replicate_NUL [simp]: "terminated (replicate n NUL) \<longleftrightarrow> 0 < n"
  by (auto simp: terminated_def)

lemma store_at_room:
  "off + length s < length dst \<Longrightarrow>
     store_at dst off s = Inr (take off dst @ s @ NUL # drop (Suc (off + length s)) dst)"
  by (simp add: store_at_def)

lemma store_at_length: "store_at dst off s = Inr b \<Longrightarrow> length b = length dst"
  by (auto simp: store_at_def split: if_splits)

lemma c_strcpy_room:
  "terminated src \<Longrightarrow> length (cstr src) < length dst \<Longrightarrow>
     c_strcpy dst src = Inr (cstr src @ NUL # drop (Suc (length (cstr src))) dst)"
  by (simp add: c_strcpy_def store_at_room)

lemma c_strcpy_length: "c_strcpy dst src = Inr b \<Longrightarrow> length b = length dst"
  by (auto simp: c_strcpy_def bind_res_eq_Inr dest: store_at_length)

lemma c_strcpy_string: "c_strcpy dst src = Inr b \<Longrightarrow> terminated b \<and> cstr b = cstr src"
  by (auto simp: c_strcpy_def bind_res_eq_Inr store_at_def c_read_def split: if_splits)

lemma c_strcat_room:
  assumes "terminated dst" "terminated src"
    "length (cstr dst) + length (cstr src) < length dst"
  shows "\<exists>rest. c_strcat dst src = Inr (cstr dst @ cstr src @ NUL # rest) \<and>
           length rest = length dst - Suc (length (cstr dst) + length (cstr src))"
proof -
  obtain rest where "dst = cstr dst @ NUL # rest" using terminated_cstr [OF assms(1)] by blast
  then have "take (length (cstr dst)) dst = cstr dst" by (metis append_eq_conv_conj)
  then show ?thesis using assms by (simp add: c_strcat_def store_at_room)
qed

lemma cstr_append_NUL2 [simp]: "no_nul s \<Longrightarrow> no_nul t \<Longrightarrow> cstr (s @ t @ NUL # u) = s @ t"
  using cstr_append_NUL [of "s @ t" u] by simp

lemma terminated_append_NUL2 [simp]: "terminated (s @ t @ NUL # u)"
  by (simp add: terminated_def)

lemma c_strcat_string:
  assumes "c_strcat dst src = Inr b"
  shows "terminated b \<and> cstr b = cstr dst @ cstr src \<and> length b = length dst"
proof -
  from assms have "terminated dst" "terminated src"
      "length (cstr dst) + length (cstr src) < length dst"
    by (auto simp: c_strcat_def bind_res_eq_Inr c_read_def store_at_def split: if_splits)
  then show ?thesis using c_strcat_room [of dst src] assms by auto
qed

lemma c_memcpy_length: "c_memcpy dst src n = Inr b \<Longrightarrow> length b = length dst"
  by (auto simp: c_memcpy_def split: if_splits)

lemma strrchr_split:
  assumes "strrchr s c = Some i"
  shows "i < length s \<and> s ! i = c \<and> c \<notin> set (drop (Suc i) s)"
proof -
  have "c \<in> set (rev s)" using assms by (simp add: strrchr_def split: if_splits)
  then obtain us vs where rev: "rev s = us @ c # vs" and us: "c \<notin> set us"
    by (metis split_list_first)
  then have "takeWhile (\<lambda>x. x \<noteq> c) (rev s) = us" by simp
  moreover have s: "s = rev vs @ c # rev us" using rev by (metis append.assoc append_Cons append_Nil rev.simps(2) rev_append rev_rev_ident)
  ultimately have "i = length vs" using assms by (auto simp: strrchr_def split: if_splits)
  then show ?thesis using s us by (simp add: nth_append)
qed

lemma cstr_append: "terminated a \<Longrightarrow> cstr (a @ b) = cstr a"
  by (auto simp: terminated_def cstr_def)

lemma cstr_no_nul_append: "no_nul a \<Longrightarrow> cstr (a @ b) = a @ cstr b"
  by (induction a) (auto simp: cstr_def no_nul_def)

lemma terminated_append [simp]: "terminated (a @ b) \<longleftrightarrow> terminated a \<or> terminated b"
  by (auto simp: terminated_def)

lemma terminated_Cons [simp]: "terminated (c # s) \<longleftrightarrow> c = NUL \<or> terminated s"
  by (auto simp: terminated_def)

lemma cstr_map: "(\<And>c. f c = NUL \<longleftrightarrow> c = NUL) \<Longrightarrow> cstr (map f s) = map f (cstr s)"
  unfolding cstr_def takeWhile_map comp_def by simp

lemma terminated_map: "(\<And>c. f c = NUL \<longleftrightarrow> c = NUL) \<Longrightarrow> terminated (map f s) \<longleftrightarrow> terminated s"
  unfolding terminated_def by (metis (no_types, lifting) imageE imageI list.set_map)

lemma terminated_lit [simp]: "terminated (lit s)"
  by (simp add: lit_def terminated_def)

lemma cstr_lit [simp]: "no_nul s \<Longrightarrow> cstr (lit s) = s"
  by (simp add: lit_def)

lemma strrchr_last: "c \<notin> set b \<Longrightarrow> strrchr (a @ c # b) c = Some (length a)"
  by (simp add: strrchr_def)

lemma c_memcpy_all: "length src = n \<Longrightarrow> n \<le> length dst \<Longrightarrow> c_memcpy dst src n = Inr (src @ drop n dst)"
  by (simp add: c_memcpy_def)

end
