(* ===== verification/C_Format.thy ===== *)
theory C_Format
  imports C_String
begin

text \<open>
  Formatted output and number parsing of the C library, as far as the sources use them.
  \<open>c_format\<close> reads a format string: characters are copied, a conversion is \<open>%\<close>, an optional
  zero-padding flag, an optional width, optional \<open>l\<close> modifiers and one of \<open>d\<close>, \<open>x\<close>, \<open>s\<close> or
  \<open>%\<close>; a conversion with no argument, or with one of the wrong kind, is undefined behaviour
  (\<open>Bad_format\<close>), arguments left over are ignored. \<open>c_atoi\<close> is \<open>atoi\<close>.
\<close>

section \<open>Numbers in positional notation\<close>

definition digit_char :: "nat \<Rightarrow> char" where
  "digit_char d = (if d < 10 then char_of (48 + d) else char_of (87 + d))"

fun digits_of :: "nat \<Rightarrow> nat \<Rightarrow> string" where
  "digits_of b n =
     (if b < 2 \<or> n < b then [digit_char n] else digits_of b (n div b) @ [digit_char (n mod b)])"

declare digits_of.simps [simp del]

definition is_digit :: "char \<Rightarrow> bool" where
  "is_digit c \<longleftrightarrow> 48 \<le> (of_char c :: nat) \<and> (of_char c :: nat) \<le> 57"

definition digit_val :: "char \<Rightarrow> nat" where
  "digit_val c = of_char c - 48"

definition digits_val :: "string \<Rightarrow> nat" where
  "digits_val s = foldl (\<lambda>n c. 10 * n + digit_val c) 0 s"

lemma is_digit_digit_char [simp]: "d < 10 \<Longrightarrow> is_digit (digit_char d)"
  by (simp add: is_digit_def digit_char_def)

lemma digit_val_digit_char [simp]: "d < 10 \<Longrightarrow> digit_val (digit_char d) = d"
  by (simp add: digit_val_def digit_char_def)

lemma digits_of_all: "list_all is_digit (digits_of 10 n)"
proof (induction n rule: less_induct)
  case (less n)
  then show ?case
    by (subst digits_of.simps) auto
qed

lemma digits_of_nonempty [simp]: "digits_of b n \<noteq> []"
  by (subst digits_of.simps) auto

lemma digits_val_append: "digits_val (s @ [c]) = 10 * digits_val s + digit_val c"
  by (simp add: digits_val_def)

lemma digits_val_digits_of [simp]: "digits_val (digits_of 10 n) = n"
proof (induction n rule: less_induct)
  case (less n)
  show ?case
  proof (cases "n < 10")
    case True
    then show ?thesis by (subst digits_of.simps) (simp add: digits_val_def)
  next
    case False
    then have "digits_val (digits_of 10 (n div 10)) = n div 10" by (intro less) simp
    with False show ?thesis by (subst digits_of.simps) (simp add: digits_val_append)
  qed
qed

lemma digits_of_no_nul [simp]: "no_nul (digits_of 10 n)"
proof -
  have "\<not> is_digit NUL" by (simp add: is_digit_def)
  with digits_of_all [of n] show ?thesis by (auto simp: no_nul_def list_all_iff)
qed

lemma digit_char_not_NUL: "d < 100 \<Longrightarrow> digit_char d \<noteq> NUL"
proof
  assume "d < 100" "digit_char d = NUL"
  then have "of_char (digit_char d) = (0 :: nat)" by simp
  with \<open>d < 100\<close> show False by (simp add: digit_char_def split: if_splits)
qed

lemma hex_digits_no_nul [simp]: "no_nul (digits_of 16 n)"
proof (induction n rule: less_induct)
  case (less n)
  then show ?case by (subst digits_of.simps) (auto simp: digit_char_not_NUL)
qed

section \<open>Formatting\<close>

datatype parg = PInt int | PStr string

definition zero_pad :: "nat \<Rightarrow> string \<Rightarrow> string" where
  "zero_pad w s = replicate (w - length s) CHR ''0'' @ s"

definition space_pad :: "nat \<Rightarrow> string \<Rightarrow> string" where
  "space_pad w s = replicate (w - length s) CHR '' '' @ s"

definition show_int :: "bool \<Rightarrow> nat \<Rightarrow> int \<Rightarrow> string" where
  "show_int zero w x =
     (let ds = digits_of 10 (nat \<bar>x\<bar>) in
      if x < 0
      then (if zero then ''-'' @ zero_pad (w - 1) ds else space_pad w (''-'' @ ds))
      else (if zero then zero_pad w ds else space_pad w ds))"

definition show_hex :: "bool \<Rightarrow> nat \<Rightarrow> int \<Rightarrow> string" where
  "show_hex zero w x =
     (let ds = digits_of 16 (nat (take_bit 32 x)) in if zero then zero_pad w ds else space_pad w ds)"

definition c_convert :: "char \<Rightarrow> bool \<Rightarrow> nat \<Rightarrow> parg \<Rightarrow> string res" where
  "c_convert k zero w arg =
     (case arg of
        PInt x \<Rightarrow>
          (if k = CHR ''d'' then Inr (show_int zero w x)
           else if k = CHR ''x'' then Inr (show_hex zero w x)
           else Inl Bad_format)
      | PStr s \<Rightarrow> (if k = CHR ''s'' then Inr (space_pad w s) else Inl Bad_format))"

definition parse_spec :: "string \<Rightarrow> bool \<times> nat \<times> string" where
  "parse_spec cs =
     (let ds = takeWhile is_digit cs in
      (case ds of [] \<Rightarrow> False | d # _ \<Rightarrow> d = CHR ''0'', digits_val ds,
       dropWhile (\<lambda>c. c = CHR ''l'') (dropWhile is_digit cs)))"

lemma parse_spec_shorter: "length (snd (snd (parse_spec cs))) \<le> length cs"
  unfolding parse_spec_def Let_def
  by simp (meson dual_order.trans length_dropWhile_le)

lemma parse_spec_less:
  "Suc (length rest) = length (snd (snd (parse_spec cs))) \<Longrightarrow> length rest < Suc (length cs)"
  using parse_spec_shorter [of cs] by simp

function c_format :: "string \<Rightarrow> parg list \<Rightarrow> string res" where
  "c_format [] args = Inr []"
| "c_format (c # cs) args =
     (if c \<noteq> CHR ''%'' then bind_res (c_format cs args) (\<lambda>s. Inr (c # s))
      else
        (case parse_spec cs of
           (zero, w, rest) \<Rightarrow>
             (case rest of
                [] \<Rightarrow> Inl Bad_format
              | k # rest' \<Rightarrow>
                  (if k = CHR ''%'' then bind_res (c_format rest' args) (\<lambda>s. Inr (k # s))
                   else
                     (case args of
                        [] \<Rightarrow> Inl Bad_format
                      | a # args' \<Rightarrow>
                          bind_res (c_convert k zero w a)
                            (\<lambda>t. bind_res (c_format rest' args') (\<lambda>s. Inr (t @ s))))))))"
  by pat_completeness auto
termination
  by (relation "measure (\<lambda>(f, args). length f)")
     (auto dest!: arg_cong [of _ _ "\<lambda>r. length (snd (snd r))"] dest: parse_spec_less)

text \<open>
  \<open>snprintf(dst, sz, fmt, args)\<close> writes at most \<open>sz - 1\<close> bytes and a terminator, and
  answers the length the whole text has.
\<close>

definition c_snprintf :: "string \<Rightarrow> nat \<Rightarrow> string \<Rightarrow> parg list \<Rightarrow> (nat \<times> string) res" where
  "c_snprintf dst sz fmt args =
     bind_res (c_format fmt args) (\<lambda>s.
       if sz = 0 then Inr (length s, dst)
       else bind_res (store_at dst 0 (take (sz - 1) s)) (\<lambda>dst'. Inr (length s, dst')))"

definition c_sprintf :: "string \<Rightarrow> string \<Rightarrow> parg list \<Rightarrow> (nat \<times> string) res" where
  "c_sprintf dst fmt args =
     bind_res (c_format fmt args) (\<lambda>s.
       bind_res (store_at dst 0 s) (\<lambda>dst'. Inr (length s, dst')))"

section \<open>atoi\<close>

definition is_space :: "char \<Rightarrow> bool" where
  "is_space c \<longleftrightarrow> c = CHR '' '' \<or> (9 \<le> (of_char c :: nat) \<and> (of_char c :: nat) \<le> 13)"

definition c_atoi :: "string \<Rightarrow> int" where
  "c_atoi s =
     (let t = dropWhile is_space s;
          neg = (case t of [] \<Rightarrow> False | c # _ \<Rightarrow> c = CHR ''-'');
          u = (case t of [] \<Rightarrow> [] | c # cs \<Rightarrow> if c = CHR ''-'' \<or> c = CHR ''+'' then cs else t);
          v = int (digits_val (takeWhile is_digit u))
      in c_int (if neg then - v else v))"

lemma digit_facts:
  "is_digit c \<Longrightarrow> \<not> is_space c \<and> c \<noteq> CHR ''-'' \<and> c \<noteq> CHR ''+'' \<and> c \<noteq> CHR ''%''"
  by (auto simp: is_digit_def is_space_def)

text \<open>Parsing what formatting printed gives the number back, whatever follows it.\<close>

lemma atoi_digits:
  assumes "int n < 2 ^ 31" "rest = [] \<or> \<not> is_digit (hd rest)"
  shows "c_atoi (digits_of 10 n @ rest) = int n"
proof -
  obtain d ds where ds: "digits_of 10 n = d # ds" by (cases "digits_of 10 n") auto
  have d: "is_digit d" and all: "\<forall>c \<in> set (digits_of 10 n). is_digit c"
    using digits_of_all [of n] ds by (auto simp: list_all_iff)
  have "takeWhile is_digit (digits_of 10 n @ rest) = digits_of 10 n"
    using all assms(2) by (cases rest) (auto simp: takeWhile_append2 takeWhile_append1)
  moreover have "dropWhile is_space (digits_of 10 n @ rest) = digits_of 10 n @ rest"
    using ds digit_facts [OF d] by simp
  moreover have "int (digits_val (d # ds)) = int n" using ds digits_val_digits_of [of n] by simp
  ultimately show ?thesis
    using ds d digit_facts [OF d] assms(1)
    by (simp add: c_atoi_def Let_def c_int_id del: digits_val_digits_of)
qed

lemma atoi_show_int: "0 \<le> x \<Longrightarrow> x < 2 ^ 31 \<Longrightarrow> c_atoi (show_int False 0 x) = x"
  using atoi_digits [of "nat x" "[]"] by (simp add: show_int_def Let_def space_pad_def)

text \<open>A format string without conversions is copied.\<close>

lemma c_format_plain:
  "CHR ''%'' \<notin> set f \<Longrightarrow> c_format (f @ g) args = bind_res (c_format g args) (\<lambda>s. Inr (f @ s))"
  by (induction f) (auto simp: bind_res_assoc bind_res_def split: sum.splits)

section \<open>Evaluating a fixed format, and the lengths it produces\<close>

lemmas format_eval =
  parse_spec_def is_digit_def digits_val_def digit_val_def c_convert_def

lemma space_pad_0 [simp]: "space_pad 0 s = s"
  by (simp add: space_pad_def)

lemma length_zero_pad [simp]: "length (zero_pad w s) = max w (length s)"
  by (simp add: zero_pad_def)

lemma digits_of_length: "10 ^ k \<le> n \<Longrightarrow> n < 10 ^ Suc k \<Longrightarrow> length (digits_of 10 n) = Suc k"
proof (induction k arbitrary: n)
  case 0
  then show ?case by (subst digits_of.simps) simp
next
  case (Suc k)
  have "10 * 10 ^ k \<le> n" using Suc.prems(1) by simp
  moreover have "(1::nat) \<le> 10 ^ k" by simp
  ultimately have "\<not> n < 10" by linarith
  moreover from Suc.prems have "10 ^ k \<le> n div 10" "n div 10 < 10 ^ Suc k"
    by (simp_all add: div_less_iff_less_mult less_eq_div_iff_mult_less_eq ac_simps)
  ultimately show ?case using Suc.IH by (subst digits_of.simps) simp
qed

lemma digits_of_length_le: "n < 10 ^ Suc k \<Longrightarrow> length (digits_of 10 n) \<le> Suc k"
proof (induction k arbitrary: n)
  case 0
  then show ?case by (subst digits_of.simps) simp
next
  case (Suc k)
  then have "n div 10 < 10 ^ Suc k" by (simp add: div_less_iff_less_mult ac_simps)
  with Suc.IH [of "n div 10"] show ?case by (subst digits_of.simps) simp
qed

lemma show_int_pad_length:
  "0 \<le> x \<Longrightarrow> x < 10 ^ Suc k \<Longrightarrow> length (show_int True (Suc k) x) = Suc k"
  using digits_of_length_le [of "nat x" k]
  by (simp add: show_int_def Let_def max_absorb1 nat_less_iff)

lemma show_int_length:
  "10 ^ k \<le> x \<Longrightarrow> x < 10 ^ Suc k \<Longrightarrow> length (show_int False 0 x) = Suc k"
  using digits_of_length [of k "nat x"] order.trans [of 0 "10 ^ k" x]
  by (simp add: show_int_def Let_def nat_less_iff le_nat_iff)

lemma show_int_pad2: "0 \<le> x \<Longrightarrow> x < 100 \<Longrightarrow> length (show_int True 2 x) = 2"
  using show_int_pad_length [of x 1] by (simp add: eval_nat_numeral)

lemma show_int_pad6: "0 \<le> x \<Longrightarrow> x < 1000000 \<Longrightarrow> length (show_int True 6 x) = 6"
  using show_int_pad_length [of x 5] by (simp add: eval_nat_numeral)

lemma show_int_year: "1000 \<le> x \<Longrightarrow> x < 10000 \<Longrightarrow> length (show_int False 0 x) = 4"
  using show_int_length [of 3 x] by simp

lemma show_int_no_nul [simp]: "no_nul (show_int z w x)"
proof -
  have "no_nul (replicate n c)" if "c \<noteq> NUL" for n c
    using that by (auto simp: no_nul_def)
  then show ?thesis by (simp add: show_int_def Let_def zero_pad_def space_pad_def)
qed

end
