(* ===== verification/Log_Model.thy ===== *)
theory Log_Model
  imports Block_Queue C_Format
begin

text \<open>
  The logger of \<open>server/log\<close>: the singleton's fields, the files it writes and the stream it
  has open. A stream keeps what was written to it until it is flushed or closed; the C
  library may write it out earlier, so this is the latest moment the text reaches the file.
  The time of day and the outcome of \<open>fopen\<close> are arguments. Asynchronous logging pushes the
  line into the ring buffer of \<open>Block_Queue\<close>, from which the flush thread writes it.
\<close>

section \<open>State\<close>

record tm =
  tm_year :: int
  tm_mon :: int
  tm_mday :: int
  tm_hour :: int
  tm_min :: int
  tm_sec :: int

record stream =
  s_name :: string
  s_pending :: string

record log =
  dir_name :: string
  log_name :: string
  m_split_lines :: int
  m_log_buf_size :: int
  m_count :: int
  m_today :: int
  m_fp :: "stream option"
  m_buf :: string
  m_log_queue :: "string block_queue option"
  m_is_async :: bool
  files :: "string \<Rightarrow> string option"

text \<open>The static object before and after its constructor: static storage is zeroed.\<close>

definition log_new :: "(string \<Rightarrow> string option) \<Rightarrow> log" where
  "log_new fs =
     \<lparr>dir_name = c_memset 128, log_name = c_memset 128, m_split_lines = 0, m_log_buf_size = 0,
      m_count = 0, m_today = 0, m_fp = None, m_buf = [], m_log_queue = None,
      m_is_async = False, files = fs\<rparr>"

section \<open>Streams\<close>

definition file_text :: "log \<Rightarrow> string \<Rightarrow> string" where
  "file_text s name = (case files s name of None \<Rightarrow> [] | Some t \<Rightarrow> t)"

definition fopen_append :: "bool \<Rightarrow> string \<Rightarrow> log \<Rightarrow> log" where
  "fopen_append ok name s =
     (if ok then s\<lparr>m_fp := Some \<lparr>s_name = name, s_pending = []\<rparr>,
                   files := (files s)(name \<mapsto> file_text s name)\<rparr>
      else s\<lparr>m_fp := None\<rparr>)"

definition fflush_log :: "log \<Rightarrow> log" where
  "fflush_log s =
     (case m_fp s of
        None \<Rightarrow> s
      | Some st \<Rightarrow>
          s\<lparr>m_fp := Some (st\<lparr>s_pending := []\<rparr>),
            files := (files s)(s_name st \<mapsto> file_text s (s_name st) @ s_pending st)\<rparr>)"

definition fclose_log :: "log \<Rightarrow> log res" where
  "fclose_log s =
     (case m_fp s of None \<Rightarrow> Inl Null_pointer | Some _ \<Rightarrow> Inr ((fflush_log s)\<lparr>m_fp := None\<rparr>))"

definition fputs_log :: "string \<Rightarrow> log \<Rightarrow> log res" where
  "fputs_log t s =
     (case m_fp s of
        None \<Rightarrow> Inl Null_pointer
      | Some st \<Rightarrow> Inr (s\<lparr>m_fp := Some (st\<lparr>s_pending := s_pending st @ t\<rparr>)\<rparr>))"

section \<open>init\<close>

definition date_args :: "tm \<Rightarrow> parg list" where
  "date_args t = [PInt (tm_year t + 1900), PInt (tm_mon t + 1), PInt (tm_mday t)]"

text \<open>
  The directory and base name \<open>init\<close> stores and the name of the file it opens.
\<close>

definition init_names :: "string \<Rightarrow> tm \<Rightarrow> log \<Rightarrow> (string \<times> log) res" where
  "init_names file_name t s =
     (case strrchr file_name CHR ''/'' of
        None \<Rightarrow>
          bind_res (c_snprintf (c_memset 256) 255 ''%d_%02d_%02d_%s'' (date_args t @ [PStr file_name]))
            (\<lambda>(_, full). Inr (cstr full, s))
      | Some p \<Rightarrow>
          bind_res (c_strcpy (log_name s) (lit (drop (p + 1) file_name))) (\<lambda>ln.
          bind_res (c_strncpy (dir_name s) file_name (p + 1)) (\<lambda>dn.
          bind_res (c_read dn) (\<lambda>d.
          bind_res (c_snprintf (c_memset 256) 255 ''%s%d_%02d_%02d_%s''
                      (PStr d # date_args t @ [PStr (cstr ln)]))
            (\<lambda>(_, full). Inr (cstr full, s\<lparr>log_name := ln, dir_name := dn\<rparr>))))))"

text \<open>
  \<open>memset(m_buf, 0, sizeof(m_buf))\<close> clears the 8 bytes of a pointer; the rest of the new
  buffer is whatever the allocator left there (\<open>garbage\<close>).
\<close>

definition log_init ::
    "string \<Rightarrow> int \<Rightarrow> int \<Rightarrow> int \<Rightarrow> tm \<Rightarrow> bool \<Rightarrow> (nat \<Rightarrow> char) \<Rightarrow> log \<Rightarrow> (bool \<times> log) res" where
  "log_init file_name log_buf_size split_lines max_queue_size t fopen_ok garbage s0 =
     (let s1 = (if max_queue_size \<ge> 1
                then s0\<lparr>m_is_async := True, m_log_queue := block_queue_new [] max_queue_size\<rparr>
                else s0);
          n = nat log_buf_size in
      if log_buf_size < 8 then Inl Out_of_bounds
      else
        let s2 = s1\<lparr>m_log_buf_size := log_buf_size,
                    m_buf := replicate 8 NUL @ map garbage [8..<n],
                    m_split_lines := split_lines\<rparr> in
        bind_res (init_names file_name t s2) (\<lambda>(full, s3).
          let s4 = fopen_append fopen_ok full (s3\<lparr>m_today := tm_mday t\<rparr>)
          in Inr (m_fp s4 \<noteq> None, s4)))"

text \<open>
  The destructor, on the ledger of \<open>Raii\<close>: the constructor has taken the block of the mutex at
  \<open>mutex\<close> and initialised it. Neither the buffer nor the queue that \<open>init\<close> allocates is released.
\<close>

definition log_dtor :: "nat \<Rightarrow> log \<Rightarrow> ledger \<Rightarrow> (log \<times> ledger) res" where
  "log_dtor mutex s L =
     bind_res (if m_fp s \<noteq> None then fclose_log s else Inr s) (\<lambda>s1.
     bind_res (release (Mutex, mutex) L) (\<lambda>L1.
     bind_res (release (Scalar_block, mutex) L1) (\<lambda>L2. Inr (s1, L2))))"

text \<open>What was written reaches its file; what \<open>init\<close> took in between (\<open>taken\<close>) is never given back.\<close>

lemma log_dtor_result:
  assumes "(Mutex, mutex) \<notin> set taken" "(Scalar_block, mutex) \<notin> set taken"
    and "m_fp s = Some st"
  shows "\<exists>s'. log_dtor mutex s (taken @ (Mutex, mutex) # (Scalar_block, mutex) # L) = Inr (s', taken @ L) \<and>
     m_fp s' = None \<and> files s' = (files s)(s_name st \<mapsto> file_text s (s_name st) @ s_pending st)"
  using assms by (simp add: log_dtor_def fclose_log_def fflush_log_def release_def remove1_append)

section \<open>write_log\<close>

definition level_tag :: "int \<Rightarrow> string" where
  "level_tag level =
     (if level = 0 then ''[debug]:'' else if level = 1 then ''[info]:''
      else if level = 2 then ''[warn]:'' else if level = 3 then ''[erro]:''
      else ''[info]:'')"

definition needs_rotation :: "tm \<Rightarrow> log \<Rightarrow> bool res" where
  "needs_rotation t s =
     (if m_today s \<noteq> tm_mday t then Inr True
      else if m_split_lines s = 0 then Inl Division_by_zero
      else Inr (m_count s smod m_split_lines s = 0))"

text \<open>A new file each day, and within a day a numbered one each \<open>m_split_lines\<close> lines.\<close>

definition log_rotate :: "tm \<Rightarrow> bool \<Rightarrow> log \<Rightarrow> log res" where
  "log_rotate t fopen_ok s =
     bind_res (fclose_log (fflush_log s)) (\<lambda>s1.
     bind_res (c_snprintf (c_memset 16) 16 ''%d_%02d_%02d_'' (date_args t)) (\<lambda>(_, tail).
     bind_res (c_read (dir_name s1)) (\<lambda>d.
     bind_res (c_read (log_name s1)) (\<lambda>l.
       if m_today s1 \<noteq> tm_mday t
       then bind_res (c_snprintf (c_memset 256) 255 ''%s%s%s'' [PStr d, PStr (cstr tail), PStr l])
              (\<lambda>(_, new_log).
                 Inr (fopen_append fopen_ok (cstr new_log)
                        (s1\<lparr>m_today := tm_mday t, m_count := 0\<rparr>)))
       else bind_res (c_snprintf (c_memset 256) 255 ''%s%s%s.%lld''
                        [PStr d, PStr (cstr tail), PStr l, PInt (m_count s1 sdiv m_split_lines s1)])
              (\<lambda>(_, new_log). Inr (fopen_append fopen_ok (cstr new_log) s1))))))"

definition count_line :: "tm \<Rightarrow> bool \<Rightarrow> log \<Rightarrow> log res" where
  "count_line t fopen_ok s =
     (let s1 = s\<lparr>m_count := m_count s + 1\<rparr> in
      bind_res (needs_rotation t s1) (\<lambda>r. if r then log_rotate t fopen_ok s1 else Inr s1))"

definition stamp_args :: "tm \<Rightarrow> int \<Rightarrow> string \<Rightarrow> parg list" where
  "stamp_args t usec tag =
     date_args t @ [PInt (tm_hour t), PInt (tm_min t), PInt (tm_sec t), PInt usec, PStr tag]"

text \<open>
  The line is composed in \<open>m_buf\<close>: the stamp (at most 47 bytes), at its reported length the
  text (bounded by \<open>m_log_buf_size - 1\<close>, whatever the offset), then newline and terminator
  at the reported lengths.
\<close>

definition compose_line ::
    "int \<Rightarrow> string \<Rightarrow> parg list \<Rightarrow> tm \<Rightarrow> int \<Rightarrow> log \<Rightarrow> (string \<times> log) res" where
  "compose_line level fmt args t usec s =
     bind_res (c_snprintf (m_buf s) 48 ''%d-%02d-%02d %02d:%02d:%02d.%06ld %s ''
                 (stamp_args t usec (level_tag level))) (\<lambda>(n, b1).
     bind_res (c_format fmt args) (\<lambda>msg.
     bind_res (store_at b1 n (take (nat (m_log_buf_size s) - 2) msg)) (\<lambda>b2.
     bind_res (arr_set b2 (int n + int (length msg)) newline) (\<lambda>b3.
     bind_res (arr_set b3 (int n + int (length msg) + 1) NUL) (\<lambda>b4.
       Inr (cstr b4, s\<lparr>m_buf := b4\<rparr>))))))"

definition emit_line :: "string \<Rightarrow> log \<Rightarrow> log res" where
  "emit_line log_str s =
     (if m_is_async s
      then (case m_log_queue s of
              None \<Rightarrow> Inl Null_pointer
            | Some q \<Rightarrow>
                (if \<not> bq_full q
                 then bind_res (bq_push log_str q) (\<lambda>(_, q'). Inr (s\<lparr>m_log_queue := Some q'\<rparr>))
                 else fputs_log log_str s))
      else fputs_log log_str s)"

definition write_log ::
    "int \<Rightarrow> string \<Rightarrow> parg list \<Rightarrow> tm \<Rightarrow> int \<Rightarrow> bool \<Rightarrow> log \<Rightarrow> log res" where
  "write_log level fmt args t usec fopen_ok s =
     bind_res (count_line t fopen_ok s) (\<lambda>s1.
     bind_res (compose_line level fmt args t usec s1) (\<lambda>(log_str, s2). emit_line log_str s2))"

definition log_flush :: "log \<Rightarrow> log" where
  "log_flush s = fflush_log s"

text \<open>
  The flush thread's loop, for as many turns as it finds lines without waiting: \<open>k\<close> bounds
  the turns.
\<close>

fun async_write_log :: "nat \<Rightarrow> log \<Rightarrow> log res" where
  "async_write_log 0 s = Inr s"
| "async_write_log (Suc k) s =
     (case m_log_queue s of
        None \<Rightarrow> Inl Null_pointer
      | Some q \<Rightarrow>
          bind_res (bq_pop_now q) (\<lambda>r. case r of
             None \<Rightarrow> Inr s
           | Some (single_log, q') \<Rightarrow>
               bind_res (fputs_log single_log (s\<lparr>m_log_queue := Some q'\<rparr>)) (async_write_log k)))"

section \<open>The line a call writes\<close>

definition wf_tm :: "tm \<Rightarrow> bool" where
  "wf_tm t \<longleftrightarrow>
     0 \<le> tm_year t \<and> tm_year t < 8100 \<and> 0 \<le> tm_mon t \<and> tm_mon t < 12 \<and>
     1 \<le> tm_mday t \<and> tm_mday t \<le> 31 \<and> 0 \<le> tm_hour t \<and> tm_hour t < 24 \<and>
     0 \<le> tm_min t \<and> tm_min t < 60 \<and> 0 \<le> tm_sec t \<and> tm_sec t \<le> 60"

definition date_text :: "tm \<Rightarrow> string \<Rightarrow> string" where
  "date_text t sep =
     show_int False 0 (tm_year t + 1900) @ sep @ show_int True 2 (tm_mon t + 1) @ sep @
     show_int True 2 (tm_mday t)"

definition stamp :: "tm \<Rightarrow> int \<Rightarrow> int \<Rightarrow> string" where
  "stamp t usec level =
     date_text t ''-'' @ '' '' @ show_int True 2 (tm_hour t) @ '':'' @ show_int True 2 (tm_min t) @
     '':'' @ show_int True 2 (tm_sec t) @ ''.'' @ show_int True 6 usec @ '' '' @ level_tag level @ '' ''"

definition log_line :: "int \<Rightarrow> tm \<Rightarrow> int \<Rightarrow> string \<Rightarrow> string" where
  "log_line level t usec msg = stamp t usec level @ msg @ [newline]"

lemma stamp_format:
  "c_format ''%d-%02d-%02d %02d:%02d:%02d.%06ld %s '' (stamp_args t usec (level_tag level)) =
     Inr (stamp t usec level)"
  by (simp add: format_eval stamp_args_def date_args_def stamp_def date_text_def)

lemma date_text_length: "wf_tm t \<Longrightarrow> length (date_text t sep) = 8 + 2 * length sep"
  by (simp add: wf_tm_def date_text_def show_int_year show_int_pad2)

lemma date_text_no_nul [simp]: "no_nul sep \<Longrightarrow> no_nul (date_text t sep)"
  by (simp add: date_text_def)

lemma stamp_length:
  assumes "wf_tm t" "0 \<le> usec" "usec < 1000000"
  shows "length (stamp t usec level) = 28 + length (level_tag level)"
  using assms date_text_length [OF assms(1), of "''-''"]
  by (simp add: wf_tm_def stamp_def show_int_pad2 show_int_pad6)

lemma level_tag_length: "length (level_tag level) \<le> 8"
  by (simp add: level_tag_def)

lemma stamp_no_nul [simp]: "no_nul (stamp t usec level)"
  by (simp add: stamp_def level_tag_def)

text \<open>
  The buffer's size is what \<open>init\<close> allocated; a message fits when stamp, message, newline
  and terminator do.
\<close>

definition log_buf_ok :: "log \<Rightarrow> bool" where
  "log_buf_ok s \<longleftrightarrow> 48 \<le> m_log_buf_size s \<and> length (m_buf s) = nat (m_log_buf_size s)"

lemma compose_line_result:
  assumes "wf_tm t" "0 \<le> usec" "usec < 1000000" "log_buf_ok s" "c_format fmt args = Inr msg"
    and "no_nul msg"
    and fits: "length (stamp t usec level) + length msg + 1 < length (m_buf s)"
  shows "\<exists>b. compose_line level fmt args t usec s = Inr (log_line level t usec msg, s\<lparr>m_buf := b\<rparr>) \<and>
             length b = length (m_buf s)"
proof -
  let ?st = "stamp t usec level" and ?size = "length (m_buf s)"
  have n: "length ?st \<le> 36" using stamp_length [OF assms(1-3), of level] level_tag_length [of level] by simp
  have size: "48 \<le> ?size" "nat (m_log_buf_size s) = ?size" using assms(4) by (auto simp: log_buf_ok_def)
  have b1: "c_snprintf (m_buf s) 48 ''%d-%02d-%02d %02d:%02d:%02d.%06ld %s ''
      (stamp_args t usec (level_tag level)) =
      Inr (length ?st, ?st @ NUL # drop (Suc (length ?st)) (m_buf s))"
    using n size by (simp only: c_snprintf_def stamp_format) (simp add: store_at_room)
  have cut: "take (?size - 2) msg = msg" using fits by simp
  obtain c rest where rest: "drop (Suc (length ?st + length msg)) (m_buf s) = c # rest"
    using fits by (cases "drop (Suc (length ?st + length msg)) (m_buf s)") auto
  have len: "length rest = ?size - Suc (Suc (length ?st + length msg))"
    using arg_cong [OF rest, of length] by simp
  have b2: "store_at (?st @ NUL # drop (Suc (length ?st)) (m_buf s)) (length ?st) msg =
      Inr ((?st @ msg) @ NUL # c # rest)"
    using fits rest by (simp add: store_at_room add.commute)
  have "compose_line level fmt args t usec s =
      Inr (log_line level t usec msg, s\<lparr>m_buf := (?st @ msg) @ newline # NUL # rest\<rparr>)"
    using fits len \<open>no_nul msg\<close> cstr_append_NUL [of "log_line level t usec msg" rest]
    by (simp add: compose_line_def b1 assms(5) size(2) cut b2 log_line_def list_update_append
        nat_add_distrib arr_set_def)
  then show ?thesis using len fits by auto
qed

lemma compose_line_overflow:
  assumes "wf_tm t" "0 \<le> usec" "usec < 1000000" "log_buf_ok s" "c_format fmt args = Inr msg"
    and over: "length (m_buf s) \<le> length (stamp t usec level) + length msg + 1"
  shows "compose_line level fmt args t usec s = Inl Out_of_bounds"
proof -
  let ?st = "stamp t usec level" and ?size = "length (m_buf s)"
  have n: "length ?st \<le> 36" using stamp_length [OF assms(1-3), of level] level_tag_length [of level] by simp
  have size: "48 \<le> ?size" "nat (m_log_buf_size s) = ?size" using assms(4) by (auto simp: log_buf_ok_def)
  define b1 where "b1 = ?st @ NUL # drop (Suc (length ?st)) (m_buf s)"
  have b1: "c_snprintf (m_buf s) 48 ''%d-%02d-%02d %02d:%02d:%02d.%06ld %s ''
      (stamp_args t usec (level_tag level)) = Inr (length ?st, b1)" and len1: "length b1 = ?size"
    using n size by (simp_all only: c_snprintf_def stamp_format) (simp_all add: store_at_room b1_def)
  show ?thesis
  proof (cases "store_at b1 (length ?st) (take (?size - 2) msg)")
    case (Inl e)
    then show ?thesis
      by (simp add: compose_line_def b1 assms(5) size(2) store_at_def split: if_splits)
  next
    case (Inr b2)
    then have "length b2 = ?size" using len1 by (auto dest: store_at_length)
    then show ?thesis using over Inr
      by (auto simp: compose_line_def b1 assms(5) size(2) arr_set_def bind_res_def)
  qed
qed

section \<open>Rotation\<close>

definition rotated_name :: "tm \<Rightarrow> log \<Rightarrow> string" where
  "rotated_name t s =
     take 254 (cstr (dir_name s) @ date_text t ''_'' @ ''_'' @ cstr (log_name s) @
       (if m_today s \<noteq> tm_mday t then []
        else ''.'' @ show_int False 0 (m_count s sdiv m_split_lines s)))"

lemma tail_format:
  "c_format ''%d_%02d_%02d_'' (date_args t) = Inr (date_text t ''_'' @ ''_'')"
  by (simp add: format_eval date_args_def date_text_def)

lemma tail_snprintf:
  assumes "wf_tm t"
  shows "\<exists>rest. c_snprintf (c_memset 16) 16 ''%d_%02d_%02d_'' (date_args t) =
    Inr (11, (date_text t ''_'' @ ''_'') @ NUL # rest)"
proof -
  have "length (date_text t ''_'') = 10" using date_text_length [OF assms, of "''_''"] by simp
  then show ?thesis
    by (simp only: c_snprintf_def tail_format) (simp add: store_at_room c_memset_def)
qed

lemma snprintf_full_name:
  "c_format f args = Inr text \<Longrightarrow> no_nul text \<Longrightarrow>
     \<exists>b. c_snprintf (c_memset 256) 255 f args = Inr (length text, b) \<and> cstr b = take 254 text"
  by (simp add: c_snprintf_def store_at_room c_memset_def)

lemma rotate_result:
  assumes "wf_tm t" "m_fp s = Some st" "terminated (dir_name s)" "terminated (log_name s)"
  shows "log_rotate t ok s = Inr (fopen_append ok (rotated_name t s)
     ((fflush_log s)\<lparr>m_fp := None, m_today := tm_mday t,
        m_count := (if m_today s \<noteq> tm_mday t then 0 else m_count s)\<rparr>))"
proof -
  let ?s1 = "(fflush_log s)\<lparr>m_fp := None\<rparr>"
  let ?d = "cstr (dir_name s)" and ?l = "cstr (log_name s)" and ?tail = "date_text t ''_'' @ ''_''"
  have keep: "dir_name ?s1 = dir_name s" "log_name ?s1 = log_name s" "m_today ?s1 = m_today s"
      "m_count ?s1 = m_count s" "m_split_lines ?s1 = m_split_lines s"
    using assms(2) by (simp_all add: fflush_log_def)
  have closed: "fclose_log (fflush_log s) = Inr ?s1"
    using assms(2) by (simp add: fclose_log_def fflush_log_def file_text_def)
  obtain rest where tail: "c_snprintf (c_memset 16) 16 ''%d_%02d_%02d_'' (date_args t) =
      Inr (11, ?tail @ NUL # rest)" using tail_snprintf [OF assms(1)] by blast
  have "no_nul ?tail" by simp
  then have ctail: "cstr (?tail @ NUL # rest) = ?tail" by (rule cstr_append_NUL)
  show ?thesis
  proof (cases "m_today s = tm_mday t")
    case True
    let ?k = "m_count s sdiv m_split_lines s"
    have same: "?s1\<lparr>m_today := tm_mday t, m_count := m_count s\<rparr> = ?s1"
      using True keep by (cases "fflush_log s") simp
    have "c_format ''%s%s%s.%lld'' [PStr ?d, PStr ?tail, PStr ?l, PInt ?k] =
        Inr (?d @ ?tail @ ?l @ ''.'' @ show_int False 0 ?k)"
      by (simp add: format_eval)
    from snprintf_full_name [OF this] obtain b where
      "c_snprintf (c_memset 256) 255 ''%s%s%s.%lld'' [PStr ?d, PStr ?tail, PStr ?l, PInt ?k] =
         Inr (length (?d @ ?tail @ ?l @ ''.'' @ show_int False 0 ?k), b)"
      "cstr b = rotated_name t s"
      using True by (auto simp: rotated_name_def)
    with True same show ?thesis
      unfolding log_rotate_def closed bind_res_Inr tail prod.case keep
        c_read_terminated [OF assms(3)] c_read_terminated [OF assms(4)] ctail
      by simp
  next
    case False
    have "c_format ''%s%s%s'' [PStr ?d, PStr ?tail, PStr ?l] = Inr (?d @ ?tail @ ?l)"
      by (simp add: format_eval)
    from snprintf_full_name [OF this] obtain b where
      "c_snprintf (c_memset 256) 255 ''%s%s%s'' [PStr ?d, PStr ?tail, PStr ?l] =
         Inr (length (?d @ ?tail @ ?l), b)" "cstr b = rotated_name t s"
      using False by (auto simp: rotated_name_def)
    with False show ?thesis
      unfolding log_rotate_def closed bind_res_Inr tail prod.case keep
        c_read_terminated [OF assms(3)] c_read_terminated [OF assms(4)] ctail
      by simp
  qed
qed

text \<open>The start of the logger as the server starts it.\<close>

lemma log_init_server:
  "8 \<le> size1 \<Longrightarrow> \<exists>lg. log_init ''var/log/mylog.log'' size1 split 0 t fopen_ok garbage (log_new fs) =
          Inr (fopen_ok, lg) \<and> \<not> m_is_async lg \<and>
        m_fp lg = (if fopen_ok
          then Some \<lparr>s_name = take 254 (''var/log/'' @ date_text t ''_'' @ ''_mylog.log''), s_pending = []\<rparr>
          else None) \<and>
        m_log_buf_size lg = size1 \<and> length (m_buf lg) = nat size1 \<and> m_split_lines lg = split \<and>
        m_count lg = 0 \<and> m_today lg = tm_mday t \<and> terminated (dir_name lg) \<and> terminated (log_name lg) \<and>
        file_text lg = file_text (log_new fs)"
proof -
  assume size: "8 \<le> size1"
  let ?file = "''var/log/mylog.log''" and ?text = "''var/log/'' @ date_text t ''_'' @ ''_mylog.log''"
  let ?ln = "''mylog.log'' @ replicate 119 NUL" and ?dn = "''var/log/'' @ replicate 120 NUL"
  have p: "strrchr ?file CHR ''/'' = Some 7" by code_simp
  have ln: "c_strcpy (replicate 128 NUL) (lit (drop (7 + 1) ?file)) = Inr ?ln"
    by (simp add: c_strcpy_room numeral_eq_Suc)
  have dn: "c_strncpy (replicate 128 NUL) ?file (7 + 1) = Inr ?dn"
    by (simp add: c_strncpy_def)
  have strs: "c_read ?dn = Inr ''var/log/''" "cstr ?ln = ''mylog.log''"
    by (simp_all add: c_read_def cstr_def)
  have f: "c_format ''%s%d_%02d_%02d_%s'' (PStr ''var/log/'' # date_args t @ [PStr ''mylog.log'']) =
      Inr ?text"
    by (simp add: format_eval date_args_def date_text_def)
  have "no_nul ?text" by simp
  from snprintf_full_name [OF f this] obtain b where
    "c_snprintf (c_memset 256) 255 ''%s%d_%02d_%02d_%s''
       (PStr ''var/log/'' # date_args t @ [PStr ''mylog.log'']) = Inr (length ?text, b)"
    "cstr b = take 254 ?text"
    by blast
  then have names: "init_names ?file t s = Inr (take 254 ?text, s\<lparr>log_name := ?ln, dir_name := ?dn\<rparr>)"
    if "log_name s = replicate 128 NUL" "dir_name s = replicate 128 NUL" for s
    unfolding init_names_def p option.case that ln dn bind_res_Inr strs by simp
  show ?thesis
    using size unfolding log_init_def Let_def
    by (auto simp: names log_new_def c_memset_def fopen_append_def terminated_def file_text_def fun_eq_iff)
qed

text \<open>A logger with no open stream cannot write a line.\<close>

lemma write_log_no_stream:
  assumes "m_fp s = None" "\<not> m_is_async s"
  shows "\<exists>e. write_log level fmt args t usec False s = Inl e"
proof -
  have keep: "m_fp s' = None \<and> \<not> m_is_async s'" if "count_line t False s = Inr s'" for s'
    using that assms
    by (auto simp: count_line_def Let_def bind_res_eq_Inr log_rotate_def fclose_log_def fflush_log_def split: if_splits)
  have "emit_line line s2 = Inl Null_pointer"
    if "count_line t False s = Inr s1" "compose_line level fmt args t usec s1 = Inr (line, s2)"
    for s1 s2 line
    using keep [OF that(1)] that(2)
    by (auto simp: compose_line_def bind_res_eq_Inr emit_line_def fputs_log_def)
  then show ?thesis
    by (cases "count_line t False s"; cases "compose_line level fmt args t usec (projr (count_line t False s))")
      (auto simp: write_log_def)
qed

section \<open>Properties\<close>

text \<open>
  C36. The exact bound of a log line: with a well-formed time, \<open>write_log\<close> composes its line
  without a fault if and only if stamp, message, newline and terminator fit the buffer
  (\<open>vsnprintf\<close> is given the size of the whole buffer, not of what the stamp leaves, so it
  bounds nothing); when they fit, the line is the stamp followed by the whole message.
\<close>

theorem log_line_bound:
  assumes "wf_tm t" "0 \<le> usec" "usec < 1000000" "log_buf_ok s"
    and "c_format fmt args = Inr msg" "no_nul msg"
  shows "(if length (stamp t usec level) + length msg + 1 < length (m_buf s)
          then \<exists>b. compose_line level fmt args t usec s =
                     Inr (stamp t usec level @ msg @ [newline], s\<lparr>m_buf := b\<rparr>)
          else compose_line level fmt args t usec s = Inl Out_of_bounds)"
  using compose_line_result [OF assms, of level] compose_line_overflow [OF assms(1-5), of level]
  by (auto simp: log_line_def)

definition log_sample :: log where
  "log_sample = (log_new (\<lambda>_. None))
     \<lparr>m_log_buf_size := 50, m_buf := c_memset 50, m_split_lines := 3, m_today := 7,
      dir_name := ''var/'' @ c_memset 124, log_name := ''l.log'' @ c_memset 123,
      m_fp := Some \<lparr>s_name = ''var/2024_03_07_l.log'', s_pending = []\<rparr>\<rparr>"

definition tm_sample :: tm where
  "tm_sample = \<lparr>tm_year = 124, tm_mon = 2, tm_mday = 7, tm_hour = 1, tm_min = 2, tm_sec = 3\<rparr>"

lemma log_sample_ok:
  "wf_tm tm_sample" "log_buf_ok log_sample"
  "m_fp log_sample = Some \<lparr>s_name = ''var/2024_03_07_l.log'', s_pending = []\<rparr>"
  "m_today log_sample = 7" "m_split_lines log_sample = 3" "m_count log_sample = 0"
  "\<not> m_is_async log_sample" "length (m_buf log_sample) = 50"
  "terminated (dir_name log_sample)" "terminated (log_name log_sample)" "tm_mday tm_sample = 7"
  by (simp_all add: wf_tm_def tm_sample_def log_buf_ok_def log_sample_def log_new_def c_memset_def
      terminated_def)

lemma log_line_bound_witness:
  "compose_line 1 ''deal with the client(%d)'' [PInt 9] tm_sample 5 log_sample = Inl Out_of_bounds"
proof -
  have f: "c_format ''deal with the client(%d)'' [PInt 9] = Inr ''deal with the client(9)''"
    by code_simp
  have "length (stamp tm_sample 5 1) = 35"
    using stamp_length [OF log_sample_ok(1), of 5 1] by (simp add: level_tag_def)
  with log_line_bound [OF log_sample_ok(1) _ _ log_sample_ok(2) f, of 5 1] show ?thesis
    by (simp add: log_sample_ok)
qed

text \<open>
  A synchronous line: with a stream open, no new day and no split due, \<open>write_log\<close>
  appends exactly the stamped message to the stream, counts the line and touches no other
  file.
\<close>

lemma log_sync_line:
  assumes "wf_tm t" "0 \<le> usec" "usec < 1000000" "log_buf_ok s"
    and "c_format fmt args = Inr msg" "no_nul msg"
    and "length (stamp t usec level) + length msg + 1 < length (m_buf s)"
    and "m_fp s = Some st" "\<not> m_is_async s" "m_today s = tm_mday t"
    and "m_split_lines s \<noteq> 0" "(m_count s + 1) smod m_split_lines s \<noteq> 0"
  shows "\<exists>s'. write_log level fmt args t usec ok s = Inr s' \<and>
           m_fp s' = Some (st\<lparr>s_pending := s_pending st @ log_line level t usec msg\<rparr>) \<and>
           m_count s' = m_count s + 1 \<and> files s' = files s \<and> log_buf_ok s'"
proof -
  let ?s1 = "s\<lparr>m_count := m_count s + 1\<rparr>"
  have "count_line t ok s = Inr ?s1" using assms by (simp add: count_line_def needs_rotation_def)
  moreover have s1: "log_buf_ok ?s1" using assms(4) by (simp add: log_buf_ok_def)
  moreover obtain b where "compose_line level fmt args t usec ?s1 =
      Inr (log_line level t usec msg, ?s1\<lparr>m_buf := b\<rparr>)" "length b = length (m_buf s)"
    using compose_line_result [OF assms(1-3) s1 assms(5,6), of level] assms(7) by auto
  ultimately show ?thesis using assms
    by (simp add: write_log_def emit_line_def fputs_log_def log_buf_ok_def)
qed

lemma log_sync_line_example:
  "\<exists>s'. write_log 3 ''epoll'' [PInt 0] tm_sample 5 True log_sample = Inr s' \<and>
     m_fp s' = Some \<lparr>s_name = ''var/2024_03_07_l.log'', s_pending = log_line 3 tm_sample 5 ''epoll''\<rparr>"
proof -
  have f: "c_format ''epoll'' [PInt 0] = Inr ''epoll''" by code_simp
  have "length (stamp tm_sample 5 3) = 35"
    using stamp_length [OF log_sample_ok(1), of 5 3] by (simp add: level_tag_def)
  with log_sync_line [OF log_sample_ok(1) _ _ log_sample_ok(2) f _ _ log_sample_ok(3,7), of 5 3 True]
  show ?thesis by (auto simp: log_sample_ok signed_modulo_int_def)
qed

text \<open>
  C20. Rotation: on a new day, or when the line count reaches a multiple of the split, the old
  stream's text is written out completely, the new stream is named after directory, date and
  base name (with the number of the split within a day), starts with this line, and the count
  restarts on a new day only.
\<close>

theorem log_rotation:
  assumes "wf_tm t" "0 \<le> usec" "usec < 1000000" "log_buf_ok s"
    and "c_format fmt args = Inr msg" "no_nul msg"
    and "length (stamp t usec level) + length msg + 1 < length (m_buf s)"
    and "m_fp s = Some st" "\<not> m_is_async s" "m_split_lines s \<noteq> 0"
    and "m_today s \<noteq> tm_mday t \<or> (m_count s + 1) smod m_split_lines s = 0"
    and "terminated (dir_name s)" "terminated (log_name s)"
    and "new = rotated_name t (s\<lparr>m_count := m_count s + 1\<rparr>)" "new \<noteq> s_name st"
  shows "\<exists>s'. write_log level fmt args t usec True s = Inr s' \<and>
           m_fp s' = Some \<lparr>s_name = new, s_pending = log_line level t usec msg\<rparr> \<and>
           file_text s' (s_name st) = file_text s (s_name st) @ s_pending st \<and>
           file_text s' new = file_text s new \<and>
           m_today s' = tm_mday t \<and>
           m_count s' = (if m_today s = tm_mday t then m_count s + 1 else 0)"
proof -
  let ?s1 = "s\<lparr>m_count := m_count s + 1\<rparr>"
  define s2 where "s2 = fopen_append True new ((fflush_log ?s1)\<lparr>m_fp := None,
      m_today := tm_mday t, m_count := (if m_today s \<noteq> tm_mday t then 0 else m_count s + 1)\<rparr>)"
  have "needs_rotation t ?s1 = Inr True" using assms(10,11) by (auto simp: needs_rotation_def)
  then have "count_line t True s = Inr s2"
    using rotate_result [OF assms(1), of ?s1 st True] assms(8,12-14)
    by (simp add: count_line_def s2_def Let_def)
  moreover have s2: "m_fp s2 = Some \<lparr>s_name = new, s_pending = []\<rparr>" "m_today s2 = tm_mday t"
      "m_count s2 = (if m_today s = tm_mday t then m_count s + 1 else 0)" "\<not> m_is_async s2"
      "file_text s2 (s_name st) = file_text s (s_name st) @ s_pending st"
      "file_text s2 new = file_text s new" "log_buf_ok s2" "m_buf s2 = m_buf s"
    using assms(4,8,9,15)
    by (simp_all add: s2_def fopen_append_def fflush_log_def file_text_def log_buf_ok_def)
  moreover obtain b where "compose_line level fmt args t usec s2 =
      Inr (log_line level t usec msg, s2\<lparr>m_buf := b\<rparr>)"
    using compose_line_result [OF assms(1-3) s2(7) assms(5,6), of level] assms(7) s2(8) by auto
  ultimately show ?thesis
    by (simp add: write_log_def emit_line_def fputs_log_def file_text_def)
qed

lemma log_rotation_witness:
  "\<exists>s'. write_log 3 ''epoll'' [PInt 0] tm_sample 5 True (log_sample\<lparr>m_count := 5\<rparr>) = Inr s' \<and>
     m_fp s' = Some \<lparr>s_name = ''var/2024_03_07_l.log.2'',
                    s_pending = log_line 3 tm_sample 5 ''epoll''\<rparr> \<and> m_count s' = 6"
proof -
  let ?s = "log_sample\<lparr>m_count := 5\<rparr>"
  have f: "c_format ''epoll'' [PInt 0] = Inr ''epoll''" by code_simp
  have new: "rotated_name tm_sample (?s\<lparr>m_count := m_count ?s + 1\<rparr>) = ''var/2024_03_07_l.log.2''"
    by code_simp
  have ok: "log_buf_ok ?s" using log_sample_ok(2) by (simp add: log_buf_ok_def)
  have "length (stamp tm_sample 5 3) = 35"
    using stamp_length [OF log_sample_ok(1), of 5 3] by (simp add: level_tag_def)
  with log_rotation [OF log_sample_ok(1) _ _ ok f, of 5 3 _ "''var/2024_03_07_l.log.2''"] new
  show ?thesis
    by (simp add: log_sample_ok signed_modulo_int_def) blast
qed

section \<open>Asynchronous logging\<close>

fun emit_all :: "string list \<Rightarrow> log \<Rightarrow> log res" where
  "emit_all [] s = Inr s"
| "emit_all (x # xs) s = bind_res (emit_line x s) (emit_all xs)"

definition async_ok :: "log \<Rightarrow> string block_queue \<Rightarrow> stream \<Rightarrow> bool" where
  "async_ok s q st \<longleftrightarrow> m_is_async s \<and> m_log_queue s = Some q \<and> bq_inv q \<and> m_fp s = Some st"

lemma async_drain:
  assumes "async_ok s q st" "length (bq_view q) < k"
  shows "\<exists>q'. async_write_log k s = Inr (s\<lparr>m_log_queue := Some q',
      m_fp := Some (st\<lparr>s_pending := s_pending st @ concat (bq_view q)\<rparr>)\<rparr>) \<and>
      bq_inv q' \<and> bq_view q' = []"
  using assms
proof (induction k arbitrary: s q st)
  case 0
  then show ?case by simp
next
  case (Suc k)
  then have q: "bq_inv q" "m_log_queue s = Some q" "m_fp s = Some st" by (auto simp: async_ok_def)
  from q(1) show ?case
  proof (cases rule: bq.pop_cases)
    case drained
    with q show ?thesis by (cases s) (auto simp: async_write_log.simps)
  next
    case (first x q1)
    let ?st = "st\<lparr>s_pending := s_pending st @ x\<rparr>"
    let ?s = "s\<lparr>m_log_queue := Some q1, m_fp := Some ?st\<rparr>"
    have "async_ok ?s q1 ?st" "length (bq_view q1) < k"
      using Suc.prems first by (auto simp: async_ok_def)
    from Suc.IH [OF this] obtain q' where "async_write_log k ?s = Inr (?s\<lparr>m_log_queue := Some q',
        m_fp := Some (?st\<lparr>s_pending := s_pending ?st @ concat (bq_view q1)\<rparr>)\<rparr>)"
      "bq_inv q'" "bq_view q' = []" by blast
    with q first show ?thesis by (intro exI [of _ q']) (simp add: fputs_log_def)
  qed
qed

lemma emit_all_queues:
  assumes "async_ok s q st" "length (bq_view q) + length ls \<le> bq_cap q"
  shows "\<exists>q'. emit_all ls s = Inr (s\<lparr>m_log_queue := Some q'\<rparr>) \<and>
      async_ok (s\<lparr>m_log_queue := Some q'\<rparr>) q' st \<and> bq_view q' = bq_view q @ ls"
  using assms
proof (induction ls arbitrary: s q)
  case Nil
  then have "s\<lparr>m_log_queue := Some q\<rparr> = s" by (simp add: async_ok_def)
  with Nil show ?case by (intro exI [of _ q]) simp
next
  case (Cons x ls)
  then have q: "bq_inv q" "m_is_async s" "m_log_queue s = Some q" by (auto simp: async_ok_def)
  from q(1) show ?case
  proof (cases rule: bq.push_cases [of q x])
    case (accepted q1)
    let ?s = "s\<lparr>m_log_queue := Some q1\<rparr>"
    have "async_ok ?s q1 st" using Cons.prems accepted by (simp add: async_ok_def)
    moreover have "length (bq_view q1) + length ls \<le> bq_cap q1"
      using Cons.prems accepted bq.cap_push [OF q(1) accepted(2)] by simp
    ultimately obtain q' where "emit_all ls ?s = Inr (?s\<lparr>m_log_queue := Some q'\<rparr>)"
      "async_ok (?s\<lparr>m_log_queue := Some q'\<rparr>) q' st" "bq_view q' = bq_view q1 @ ls"
      using Cons.IH by blast
    with q accepted show ?thesis by (intro exI [of _ q']) (simp add: emit_line_def)
  next
    case rejected
    then show ?thesis using bq.room_iff [OF q(1)] Cons.prems by simp
  qed
qed


definition async_sample :: log where
  "async_sample = log_sample\<lparr>m_is_async := True, m_log_queue := block_queue_new [] 2\<rparr>"

lemma async_sample_ok:
  "async_ok async_sample (the (block_queue_new [] 2)) \<lparr>s_name = ''var/2024_03_07_l.log'', s_pending = []\<rparr>"
  "bq_view (the (block_queue_new [] 2)) = ([] :: string list)"
  "bq_cap (the (block_queue_new [] 2) :: string block_queue) = 2"
  using bq_new_inv [of "[] :: string" 2 "the (block_queue_new [] 2)"]
  by (simp_all add: async_ok_def async_sample_def log_sample_ok block_queue_new_def)


text \<open>
  When the ring buffer is full, order is lost: the line that finds no room goes straight
  to the stream, ahead of every line still queued before it.
\<close>

lemma log_full_queue_overtakes:
  assumes "async_ok s q st" "bq_full q" "length (bq_view q) < k"
  shows "\<exists>s'. bind_res (emit_line x s) (async_write_log k) = Inr s' \<and>
           m_fp s' = Some (st\<lparr>s_pending := s_pending st @ x @ concat (bq_view q)\<rparr>)"
proof -
  let ?st = "st\<lparr>s_pending := s_pending st @ x\<rparr>"
  let ?s = "s\<lparr>m_fp := Some ?st\<rparr>"
  have "emit_line x s = Inr ?s"
    using assms by (simp add: emit_line_def async_ok_def fputs_log_def)
  moreover have "async_ok ?s q ?st" using assms(1) by (simp add: async_ok_def)
  ultimately show ?thesis using async_drain [of ?s q ?st k] assms(3) by auto
qed

lemma log_full_queue_overtakes_example:
  "\<exists>q st. async_ok (async_sample\<lparr>m_log_queue := Some q\<rparr>) q st \<and> bq_view q = [''a'', ''b''] \<and>
     (\<exists>s'. bind_res (emit_line ''c'' (async_sample\<lparr>m_log_queue := Some q\<rparr>)) (async_write_log 3) = Inr s' \<and>
        m_fp s' = Some (st\<lparr>s_pending := s_pending st @ ''c'' @ ''ab''\<rparr>))"
proof -
  obtain q st where q: "async_ok (async_sample\<lparr>m_log_queue := Some q\<rparr>) q st"
      "bq_view q = [''a'', ''b'']" "st = \<lparr>s_name = ''var/2024_03_07_l.log'', s_pending = []\<rparr>"
    using emit_all_queues [OF async_sample_ok(1), of "[''a'', ''b'']"]
    by (auto simp: async_sample_ok(2,3))
  let ?q = "bq_pushed ''b'' (bq_pushed ''a'' (the (block_queue_new [] 2)))"
  have "bq_full ?q" "bq_inv ?q" "bq_view ?q = [''a'', ''b'']"
    by code_simp+
  then have "async_ok (async_sample\<lparr>m_log_queue := Some ?q\<rparr>) ?q st"
    using q(1) by (simp add: async_ok_def)
  from log_full_queue_overtakes [OF this \<open>bq_full ?q\<close>, of 3 "''c''"] this \<open>bq_view ?q = _\<close>
  show ?thesis by auto
qed

text \<open>
  A log file named without a directory loses its name: \<open>init\<close> then stores neither
  directory nor base name, so the first file is named after date and file, but every file
  opened by a rotation on a new day is named by the date alone.
\<close>

lemma log_name_lost:
  assumes "wf_tm t" "wf_tm t'" "CHR ''/'' \<notin> set file_name" "no_nul file_name"
    and "8 \<le> size1" "tm_mday t \<noteq> tm_mday t'"
  shows "\<exists>s. log_init file_name size1 split 0 t True garbage (log_new fs) = Inr (True, s) \<and>
           m_fp s = Some \<lparr>s_name = take 254 (date_text t ''_'' @ ''_'' @ file_name), s_pending = []\<rparr> \<and>
           rotated_name t' s = date_text t' ''_'' @ ''_''"
proof -
  have f: "c_format ''%d_%02d_%02d_%s'' (date_args t @ [PStr file_name]) =
      Inr (date_text t ''_'' @ ''_'' @ file_name)"
    by (simp add: format_eval date_args_def date_text_def)
  obtain b where b: "c_snprintf (c_memset 256) 255 ''%d_%02d_%02d_%s'' (date_args t @ [PStr file_name]) =
      Inr (length (date_text t ''_'' @ ''_'' @ file_name), b)"
      "cstr b = take 254 (date_text t ''_'' @ ''_'' @ file_name)"
    using snprintf_full_name [OF f] assms(4) by auto
  have len: "length (date_text t' ''_'') = 10" using date_text_length [OF assms(2), of "''_''"] by simp
  show ?thesis
    unfolding log_init_def init_names_def strrchr_def
    using assms(3,5,6) b len
    by (simp add: Let_def log_new_def fopen_append_def rotated_name_def c_memset_def file_text_def)
qed

lemma log_name_lost_example:
  "\<exists>s. log_init ''my.log'' 8192 2000000 0 tm_sample True (\<lambda>_. NUL) (log_new (\<lambda>_. None)) = Inr (True, s) \<and>
     m_fp s = Some \<lparr>s_name = ''2024_03_07_my.log'', s_pending = []\<rparr> \<and>
     rotated_name (tm_sample\<lparr>tm_mday := 8\<rparr>) s = ''2024_03_08_''"
proof -
  have "take 254 (date_text tm_sample ''_'' @ ''_'' @ ''my.log'') = ''2024_03_07_my.log''"
    "date_text (tm_sample\<lparr>tm_mday := 8\<rparr>) ''_'' @ ''_'' = ''2024_03_08_''"
    by code_simp+
  with log_name_lost [OF log_sample_ok(1), of "tm_sample\<lparr>tm_mday := 8\<rparr>" "''my.log''" 8192] show ?thesis
    by (simp add: wf_tm_def tm_sample_def)
qed

end
