(* ===== verification/Readn.thy ===== *)
theory Readn
  imports C_String
begin

text \<open>
  The \<open>readn\<close> loop, of which the sources have four copies (\<open>hook.c\<close>, \<open>client/main.hpp\<close>,
  \<open>client/get_message.h\<close> as \<open>reads\<close>, \<open>server/monitor/monitor.cpp\<close>). What a descriptor
  delivers is a list of outcomes of \<open>read\<close>; a call that asks for fewer bytes than the next
  outcome holds leaves the rest for the next call. An empty list is the end of the file.
\<close>

section \<open>The loop\<close>

datatype read_event = Rd_data string | Rd_eof | Rd_eintr | Rd_error

text \<open>The answer of the call, the bytes it stored, and what the descriptor delivers next.\<close>

function readn_loop :: "nat \<Rightarrow> string \<Rightarrow> read_event list \<Rightarrow> int \<times> string \<times> read_event list" where
  "readn_loop nleft buf evs =
     (if nleft = 0 then (int (length buf), buf, evs)
      else (case evs of
              [] \<Rightarrow> (int (length buf), buf, [])
            | Rd_eof # evs' \<Rightarrow> (int (length buf), buf, evs')
            | Rd_error # evs' \<Rightarrow> (- 1, buf, evs')
            | Rd_eintr # evs' \<Rightarrow> readn_loop nleft buf evs'
            | Rd_data d # evs' \<Rightarrow>
                (if d = [] then (int (length buf), buf, evs')
                 else if length d \<le> nleft then readn_loop (nleft - length d) (buf @ d) evs'
                 else readn_loop 0 (buf @ take nleft d) (Rd_data (drop nleft d) # evs'))))"
  by pat_completeness auto
termination
  by (relation "measures [\<lambda>(nleft, _, _). nleft, \<lambda>(_, _, evs). length evs]") auto

declare readn_loop.simps [simp del]

definition readn :: "nat \<Rightarrow> read_event list \<Rightarrow> int \<times> string \<times> read_event list" where
  "readn n evs = readn_loop n [] evs"

definition client_readn :: "nat \<Rightarrow> read_event list \<Rightarrow> int \<times> string \<times> read_event list" where
  "client_readn n evs = readn_loop n [] evs"

definition client_reads :: "nat \<Rightarrow> read_event list \<Rightarrow> int \<times> string \<times> read_event list" where
  "client_reads n evs = readn_loop n [] evs"

definition server_readn :: "nat \<Rightarrow> read_event list \<Rightarrow> int \<times> string \<times> read_event list" where
  "server_readn n evs = readn_loop n [] evs"

section \<open>What the loop delivers\<close>

text \<open>The bytes a descriptor delivers before its first end-of-file or error.\<close>

fun delivered :: "read_event list \<Rightarrow> string" where
  "delivered (Rd_data d # evs) = (if d = [] then [] else d @ delivered evs)"
| "delivered (Rd_eintr # evs) = delivered evs"
| "delivered _ = []"

text \<open>Whether an error ends the delivery.\<close>

fun fails :: "read_event list \<Rightarrow> bool" where
  "fails (Rd_data d # evs) = (d \<noteq> [] \<and> fails evs)"
| "fails (Rd_eintr # evs) = fails evs"
| "fails (Rd_error # evs) = True"
| "fails _ = False"

lemma readn_loop_simps:
  "readn_loop 0 buf evs = (int (length buf), buf, evs)"
  "n \<noteq> 0 \<Longrightarrow> readn_loop n buf [] = (int (length buf), buf, [])"
  "n \<noteq> 0 \<Longrightarrow> readn_loop n buf (Rd_eof # es) = (int (length buf), buf, es)"
  "n \<noteq> 0 \<Longrightarrow> readn_loop n buf (Rd_error # es) = (- 1, buf, es)"
  "n \<noteq> 0 \<Longrightarrow> readn_loop n buf (Rd_eintr # es) = readn_loop n buf es"
  "n \<noteq> 0 \<Longrightarrow> readn_loop n buf (Rd_data [] # es) = (int (length buf), buf, es)"
  "n \<noteq> 0 \<Longrightarrow> d \<noteq> [] \<Longrightarrow> length d \<le> n \<Longrightarrow>
     readn_loop n buf (Rd_data d # es) = readn_loop (n - length d) (buf @ d) es"
  "n \<noteq> 0 \<Longrightarrow> d \<noteq> [] \<Longrightarrow> \<not> length d \<le> n \<Longrightarrow>
     readn_loop n buf (Rd_data d # es) =
       (int (length (buf @ take n d)), buf @ take n d, Rd_data (drop n d) # es)"
  by (subst readn_loop.simps, simp add: readn_loop.simps [of 0])+

lemma readn_loop_result:
  "(case readn_loop n buf evs of
      (r, out, _) \<Rightarrow>
        out = buf @ take n (delivered evs) \<and>
        r = (if length (delivered evs) < n \<and> fails evs then - 1 else int (length out)))"
proof (induction n buf evs rule: readn_loop.induct)
  case (1 n buf evs)
  consider "n = 0" | "n \<noteq> 0" "evs = []"
    | (eintr) es where "n \<noteq> 0" "evs = Rd_eintr # es"
    | es where "n \<noteq> 0" "evs = Rd_eof # es"
    | es where "n \<noteq> 0" "evs = Rd_error # es"
    | es where "n \<noteq> 0" "evs = Rd_data [] # es"
    | (fits) d es where "n \<noteq> 0" "evs = Rd_data d # es" "d \<noteq> []" "length d \<le> n"
    | d es where "n \<noteq> 0" "evs = Rd_data d # es" "d \<noteq> []" "\<not> length d \<le> n"
    by (metis list.exhaust read_event.exhaust)
  then show ?case
  proof cases
    case eintr
    have "n \<noteq> 0" "evs = Rd_eintr # es" by fact+
    with "1.IH" show ?thesis by (simp add: readn_loop_simps)
  next
    case fits
    with "1.IH" show ?thesis
      by (auto simp: readn_loop_simps split: prod.splits if_splits)
  qed (auto simp: readn_loop_simps)
qed

lemma readn_result:
  "readn n evs =
     (if length (delivered evs) < n \<and> fails evs then - 1 else int (length (take n (delivered evs))),
      take n (delivered evs), snd (snd (readn n evs)))"
  using readn_loop_result [where n = n and buf = "[]" and evs = evs] by (auto simp: readn_def split: prod.splits)

text \<open>On a regular file, whose reads fill what they are asked for, successive calls cut it in
  pieces.\<close>

lemma readn_file:
  "readn n [Rd_data d] =
     (int (length (take n d)), take n d,
      if n = 0 \<or> n < length d then [Rd_data (drop n d)] else [])"
proof -
  consider "n = 0" | "n \<noteq> 0" "d = []" | "n \<noteq> 0" "d \<noteq> []" "length d \<le> n"
    | "n \<noteq> 0" "d \<noteq> []" "\<not> length d \<le> n"
    by blast
  then show ?thesis
  proof cases
    case 3
    then show ?thesis
      by (cases "n = length d") (simp_all add: readn_def readn_loop_simps)
  qed (auto simp: readn_def readn_loop_simps)
qed

text \<open>
  C22. \<open>readn\<close> masks short reads and interruptions: it stores exactly the first \<open>n\<close> bytes the
  descriptor delivers before its end, in however many pieces they come, and answers their
  number; it answers -1 exactly when an error comes before \<open>n\<close> bytes did. The four copies
  in the sources behave alike.
\<close>

theorem readn_spec:
  "(case readn n evs of
      (r, buf, _) \<Rightarrow>
        buf = take n (delivered evs) \<and>
        r = (if length (delivered evs) < n \<and> fails evs then - 1 else int (length buf))) \<and>
   client_readn n evs = readn n evs \<and> client_reads n evs = readn n evs \<and>
   server_readn n evs = readn n evs"
  using readn_loop_result [where n = n and buf = "[]" and evs = evs]
  by (auto simp: readn_def client_readn_def client_reads_def server_readn_def split: prod.splits)

lemma readn_bytes: "fst (snd (readn n evs)) = take n (delivered evs)"
  by (subst readn_result) simp

end
