(* ===== verification/Wire.thy ===== *)
theory Wire
  imports C_String
begin

text \<open>
  The messages on the socket. Client and server each declare the two message structs
  themselves (\<open>struct data\<close> and \<open>struct recv_data\<close> in \<open>client/main.hpp\<close>, \<open>TAG\<close> and \<open>RECOVER\<close> in
  \<open>server/monitor/monitor.h\<close>) and send their memory as it is, so what is sent is fixed by the
  platform's layout: little endian, \<open>long\<close> of 8 bytes and \<open>int\<close> of 4, each aligned to its
  size. A message is a record; its image is the list of the bytes the struct occupies.
\<close>

section \<open>Integers in memory\<close>

fun le_bytes :: "nat \<Rightarrow> int \<Rightarrow> string" where
  "le_bytes 0 x = []"
| "le_bytes (Suc n) x = char_of (x mod 256) # le_bytes n (x div 256)"

fun le_val :: "string \<Rightarrow> int" where
  "le_val [] = 0"
| "le_val (c # cs) = of_char c + 256 * le_val cs"

text \<open>The \<open>long\<close> and the \<open>int\<close> that eight and four bytes hold.\<close>

definition get_long :: "string \<Rightarrow> int" where
  "get_long bs = signed_take_bit 63 (le_val bs)"

definition get_int :: "string \<Rightarrow> int" where
  "get_int bs = signed_take_bit 31 (le_val bs)"

definition is_long :: "int \<Rightarrow> bool" where
  "is_long x \<longleftrightarrow> - (2 ^ 63) \<le> x \<and> x < 2 ^ 63"

definition is_int :: "int \<Rightarrow> bool" where
  "is_int x \<longleftrightarrow> - (2 ^ 31) \<le> x \<and> x < 2 ^ 31"

lemma length_le_bytes [simp]: "length (le_bytes n x) = n"
  by (induction n arbitrary: x) auto

lemma le_val_le_bytes: "le_val (le_bytes n x) = x mod 256 ^ n"
proof (induction n arbitrary: x)
  case (Suc n)
  have "x mod 256 ^ Suc n = 256 * (x div 256 mod 256 ^ n) + x mod 256"
    using mod_mult2_eq' [of x 256 "256 ^ n"] zmod_zmult2_eq [of "256 ^ n" x 256] by simp
  then show ?case by (simp add: Suc.IH)
qed simp

lemma le_val_range: "0 \<le> le_val bs \<and> le_val bs < 256 ^ length bs"
proof (induction bs)
  case (Cons c bs)
  have "(of_char c :: int) = of_char c mod 256" by (metis of_char_mod_256)
  then have "(of_char c :: int) < 256 \<and> 0 \<le> (of_char c :: int)"
    by (metis pos_mod_bound pos_mod_sign zero_less_numeral)
  with Cons show ?case by simp
qed simp

lemma get_long_le_bytes [simp]: "is_long x \<Longrightarrow> get_long (le_bytes 8 x) = x"
proof -
  assume "is_long x"
  moreover have "get_long (le_bytes 8 x) = signed_take_bit 63 (take_bit (Suc 63) x)"
    by (simp add: get_long_def le_val_le_bytes take_bit_eq_mod)
  ultimately show ?thesis
    by (simp only: signed_take_bit_take_bit) (simp add: signed_take_bit_int_eq_self is_long_def)
qed

lemma get_int_le_bytes [simp]: "is_int x \<Longrightarrow> get_int (le_bytes 4 x) = x"
proof -
  assume "is_int x"
  moreover have "get_int (le_bytes 4 x) = signed_take_bit 31 (take_bit (Suc 31) x)"
    by (simp add: get_int_def le_val_le_bytes take_bit_eq_mod)
  ultimately show ?thesis
    by (simp only: signed_take_bit_take_bit) (simp add: signed_take_bit_int_eq_self is_int_def)
qed

lemma is_long_get_long: "is_long (get_long bs)"
  unfolding is_long_def get_long_def
  using signed_take_bit_int_greater_eq_minus_exp [of 63 "le_val bs"]
    signed_take_bit_int_less_exp [of 63 "le_val bs"] by blast

lemma is_int_get_int: "is_int (get_int bs)"
  unfolding is_int_def get_int_def
  using signed_take_bit_int_greater_eq_minus_exp [of 31 "le_val bs"]
    signed_take_bit_int_less_exp [of 31 "le_val bs"] by blast

text \<open>The \<open>n\<close> bytes at offset \<open>off\<close>.\<close>

definition field_at :: "nat \<Rightarrow> nat \<Rightarrow> string \<Rightarrow> string" where
  "field_at off n bs = take n (drop off bs)"

lemma field_at_skip: "length a \<le> off \<Longrightarrow> field_at off n (a @ bs) = field_at (off - length a) n bs"
  by (simp add: field_at_def)

lemma field_at_here: "n = length a \<Longrightarrow> field_at 0 n (a @ bs) = a"
  by (simp add: field_at_def)

lemma field_at_last: "n = length a \<Longrightarrow> field_at 0 n a = a"
  by (simp add: field_at_def)

lemmas field_at_simps = field_at_skip field_at_here field_at_last

lemma length_field_at [simp]: "length (field_at off n bs) = min n (length bs - off)"
  by (simp add: field_at_def)

section \<open>The message structs\<close>

text \<open>\<open>struct data\<close> of the client and \<open>TAG\<close> of the server.\<close>

record data =
  d_left :: int
  d_right :: int
  d_count :: int
  d_sign :: int
  d_mac :: string
  d_file_name :: string
  d_length :: int
  d_file_contents :: string
  d_events :: string

record TAG =
  t_left :: int
  t_right :: int
  t_count :: int
  t_sign :: int
  t_mac_addr :: string
  t_file_name :: string
  t_lenth :: int
  t_data :: string
  t_event :: string

text \<open>\<open>struct recv_data\<close> of the client and \<open>RECOVER\<close> of the server.\<close>

record recv_data =
  h_count :: char
  h_sign :: char
  h_mac :: string
  h_file_name :: string
  h_file_contents :: string
  h_events :: string
  h_length :: string

record RECOVER =
  r_count :: char
  r_sign :: char
  r_mac_addr :: string
  r_file_name :: string
  r_data :: string
  r_event :: string
  r_leth :: string

definition sizeof_data :: nat where
  "sizeof_data = 4656"

definition sizeof_recv_data :: nat where
  "sizeof_recv_data = 4884"

definition wf_data :: "data \<Rightarrow> bool" where
  "wf_data d \<longleftrightarrow>
     is_long (d_left d) \<and> is_long (d_right d) \<and> is_int (d_count d) \<and> is_int (d_sign d) \<and>
     length (d_mac d) = 18 \<and> length (d_file_name d) = 256 \<and> is_int (d_length d) \<and>
     length (d_file_contents d) = 4096 \<and> length (d_events d) = 256"

definition wf_TAG :: "TAG \<Rightarrow> bool" where
  "wf_TAG m \<longleftrightarrow>
     is_long (t_left m) \<and> is_long (t_right m) \<and> is_int (t_count m) \<and> is_int (t_sign m) \<and>
     length (t_mac_addr m) = 18 \<and> length (t_file_name m) = 256 \<and> is_int (t_lenth m) \<and>
     length (t_data m) = 4096 \<and> length (t_event m) = 256"

definition wf_recv_data :: "recv_data \<Rightarrow> bool" where
  "wf_recv_data h \<longleftrightarrow>
     length (h_mac h) = 18 \<and> length (h_file_name h) = 256 \<and> length (h_file_contents h) = 4096 \<and>
     length (h_events h) = 256 \<and> length (h_length h) = 256"

definition wf_RECOVER :: "RECOVER \<Rightarrow> bool" where
  "wf_RECOVER r \<longleftrightarrow>
     length (r_mac_addr r) = 18 \<and> length (r_file_name r) = 256 \<and> length (r_data r) = 4096 \<and>
     length (r_event r) = 256 \<and> length (r_leth r) = 256"

section \<open>Images\<close>

text \<open>
  Two bytes of padding precede \<open>length\<close> / \<open>lenth\<close>; the sources never set them, so they are
  an argument.
\<close>

definition data_image :: "string \<Rightarrow> data \<Rightarrow> string" where
  "data_image pad d =
     le_bytes 8 (d_left d) @ le_bytes 8 (d_right d) @ le_bytes 4 (d_count d) @
     le_bytes 4 (d_sign d) @ d_mac d @ d_file_name d @ pad @ le_bytes 4 (d_length d) @
     d_file_contents d @ d_events d"

definition TAG_image :: "string \<Rightarrow> TAG \<Rightarrow> string" where
  "TAG_image pad m =
     le_bytes 8 (t_left m) @ le_bytes 8 (t_right m) @ le_bytes 4 (t_count m) @
     le_bytes 4 (t_sign m) @ t_mac_addr m @ t_file_name m @ pad @ le_bytes 4 (t_lenth m) @
     t_data m @ t_event m"

definition TAG_of :: "string \<Rightarrow> TAG" where
  "TAG_of bs =
     \<lparr>t_left = get_long (field_at 0 8 bs), t_right = get_long (field_at 8 8 bs),
      t_count = get_int (field_at 16 4 bs), t_sign = get_int (field_at 20 4 bs),
      t_mac_addr = field_at 24 18 bs, t_file_name = field_at 42 256 bs,
      t_lenth = get_int (field_at 300 4 bs), t_data = field_at 304 4096 bs,
      t_event = field_at 4400 256 bs\<rparr>"

definition RECOVER_image :: "RECOVER \<Rightarrow> string" where
  "RECOVER_image r =
     [r_count r] @ [r_sign r] @ r_mac_addr r @ r_file_name r @ r_data r @ r_event r @ r_leth r"

definition recv_data_image :: "recv_data \<Rightarrow> string" where
  "recv_data_image h =
     [h_count h] @ [h_sign h] @ h_mac h @ h_file_name h @ h_file_contents h @ h_events h @ h_length h"

definition recv_data_of :: "string \<Rightarrow> recv_data" where
  "recv_data_of bs =
     \<lparr>h_count = bs ! 0, h_sign = bs ! 1, h_mac = field_at 2 18 bs,
      h_file_name = field_at 20 256 bs, h_file_contents = field_at 276 4096 bs,
      h_events = field_at 4372 256 bs, h_length = field_at 4628 256 bs\<rparr>"

text \<open>What one side sends as its struct the other side reads as its own.\<close>

definition TAG_of_data :: "data \<Rightarrow> TAG" where
  "TAG_of_data d =
     \<lparr>t_left = d_left d, t_right = d_right d, t_count = d_count d, t_sign = d_sign d,
      t_mac_addr = d_mac d, t_file_name = d_file_name d, t_lenth = d_length d,
      t_data = d_file_contents d, t_event = d_events d\<rparr>"

definition recv_data_of_RECOVER :: "RECOVER \<Rightarrow> recv_data" where
  "recv_data_of_RECOVER r =
     \<lparr>h_count = r_count r, h_sign = r_sign r, h_mac = r_mac_addr r, h_file_name = r_file_name r,
      h_file_contents = r_data r, h_events = r_event r, h_length = r_leth r\<rparr>"

lemma length_TAG_image: "wf_TAG m \<Longrightarrow> length pad = 2 \<Longrightarrow> length (TAG_image pad m) = sizeof_data"
  by (simp add: TAG_image_def wf_TAG_def sizeof_data_def)

lemma TAG_of_image: "wf_TAG m \<Longrightarrow> length pad = 2 \<Longrightarrow> TAG_of (TAG_image pad m) = m"
  by (simp add: TAG_of_def TAG_image_def wf_TAG_def field_at_simps)

lemma wf_TAG_of: "length bs = sizeof_data \<Longrightarrow> wf_TAG (TAG_of bs)"
  by (simp add: wf_TAG_def TAG_of_def sizeof_data_def is_long_get_long is_int_get_int)

lemma data_image_TAG: "data_image pad d = TAG_image pad (TAG_of_data d)"
  by (simp add: data_image_def TAG_image_def TAG_of_data_def)

lemma wf_TAG_of_data [simp]: "wf_TAG (TAG_of_data d) = wf_data d"
  by (simp add: wf_data_def wf_TAG_def TAG_of_data_def)

lemma recv_data_image_RECOVER: "recv_data_image (recv_data_of_RECOVER r) = RECOVER_image r"
  by (simp add: recv_data_image_def RECOVER_image_def recv_data_of_RECOVER_def)

lemma wf_recv_data_of_RECOVER [simp]: "wf_recv_data (recv_data_of_RECOVER r) = wf_RECOVER r"
  by (simp add: wf_recv_data_def wf_RECOVER_def recv_data_of_RECOVER_def)

lemma length_recv_data_image: "wf_recv_data h \<Longrightarrow> length (recv_data_image h) = sizeof_recv_data"
  by (simp add: recv_data_image_def wf_recv_data_def sizeof_recv_data_def)

lemma recv_data_of_image: "wf_recv_data h \<Longrightarrow> recv_data_of (recv_data_image h) = h"
  by (simp add: recv_data_of_def recv_data_image_def wf_recv_data_def field_at_simps
      field_at_skip [of "[_]", simplified])

section \<open>Framing\<close>

text \<open>
  \<open>recv\<close> with \<open>MSG_WAITALL\<close> cuts the stream of a connection that the peer has closed into
  pieces of the size asked for, the last one possibly shorter.
\<close>

function frames :: "nat \<Rightarrow> string \<Rightarrow> string list" where
  "frames n bs = (if n = 0 \<or> bs = [] then [] else take n bs # frames n (drop n bs))"
  by pat_completeness auto
termination
  by (relation "measure (\<lambda>(n, bs). length bs)") auto

declare frames.simps [simp del]

lemma frames_Nil [simp]: "frames n [] = []"
  by (simp add: frames.simps)

lemma frames_step: "0 < n \<Longrightarrow> bs \<noteq> [] \<Longrightarrow> frames n bs = take n bs # frames n (drop n bs)"
  by (simp add: frames.simps)

lemma frames_exact: "0 < n \<Longrightarrow> length m = n \<Longrightarrow> frames n (m @ bs) = m # frames n bs"
  by (subst frames_step) auto

lemma frames_length: "c \<in> set (frames n bs) \<Longrightarrow> c \<noteq> [] \<and> length c \<le> n"
proof (induction n bs rule: frames.induct)
  case (1 n bs)
  then show ?case by (subst (asm) frames.simps) (auto split: if_splits)
qed

lemma concat_frames: "0 < n \<Longrightarrow> concat (frames n bs) = bs"
proof (induction n bs rule: frames.induct)
  case (1 n bs)
  then show ?case by (subst frames.simps) auto
qed

text \<open>A message format: what a sender's message looks like on the wire and how it is read.\<close>

locale wire_format =
  fixes wf :: "'m \<Rightarrow> bool"
    and image :: "'m \<Rightarrow> string"
    and decode :: "string \<Rightarrow> 'v"
    and meaning :: "'m \<Rightarrow> 'v"
    and width :: nat
  assumes width_pos: "0 < width"
    and image_width: "wf m \<Longrightarrow> length (image m) = width"
    and decode_image: "wf m \<Longrightarrow> decode (image m) = meaning m"

context wire_format
begin

lemma frames_stream:
  "\<forall>m \<in> set ms. wf m \<Longrightarrow>
     frames width (concat (map image ms) @ rest) = map image ms @ frames width rest"
  by (induction ms) (simp_all add: frames_exact width_pos image_width)

lemma decode_stream:
  "\<forall>m \<in> set ms. wf m \<Longrightarrow>
     map decode (frames width (concat (map image ms))) = map meaning ms"
  using frames_stream [of ms "[]"] by (simp add: decode_image)

text \<open>Bytes between two messages shift the reading of every later one.\<close>

lemma frames_shifted:
  assumes "wf m" "extra \<noteq> []" "length extra < width" "wf m'"
  shows "frames width (image m @ extra @ image m' @ rest) =
           image m # (extra @ take (width - length extra) (image m')) #
           frames width (drop (width - length extra) (image m') @ rest)"
proof -
  have "frames width (image m @ extra @ image m' @ rest) =
      image m # frames width (extra @ image m' @ rest)"
    using frames_exact [OF width_pos image_width [OF assms(1)]] by simp
  also have "frames width (extra @ image m' @ rest) =
      (extra @ take (width - length extra) (image m')) #
      frames width (drop (width - length extra) (image m') @ rest)"
    using assms(2,3) image_width [OF assms(4)] by (subst frames_step) (simp_all add: width_pos)
  finally show ?thesis by simp
qed

end

interpretation to_server: wire_format
  "\<lambda>(pad, d). length pad = 2 \<and> wf_data d" "\<lambda>(pad, d). data_image pad d" TAG_of
  "\<lambda>(pad, d). TAG_of_data d" sizeof_data
  by unfold_locales
     (auto simp: sizeof_data_def data_image_TAG TAG_of_image length_TAG_image [unfolded sizeof_data_def])

interpretation to_client: wire_format
  wf_RECOVER RECOVER_image recv_data_of recv_data_of_RECOVER sizeof_recv_data
  using length_recv_data_image [of "recv_data_of_RECOVER _"]
  by unfold_locales
     (simp_all add: sizeof_recv_data_def recv_data_of_image flip: recv_data_image_RECOVER)

section \<open>Properties\<close>

text \<open>
  C15. Client and server agree on the layout of both messages although each declares them
  itself: a stream of \<open>struct data\<close> images, read in pieces of \<open>sizeof(TAG)\<close>, gives the
  server field by field the messages sent, whatever the padding bytes, and a stream of
  \<open>RECOVER\<close> images read in pieces of \<open>sizeof(struct recv_data)\<close> gives the client the
  messages the server sent.
\<close>

theorem wire_agreement:
  assumes "\<forall>(pad, d) \<in> set ms. length pad = 2 \<and> wf_data d" "\<forall>r \<in> set rs. wf_RECOVER r"
  shows "map TAG_of (frames sizeof_data (concat (map (\<lambda>(pad, d). data_image pad d) ms))) =
           map (\<lambda>(pad, d). TAG_of_data d) ms \<and>
         map recv_data_of (frames sizeof_recv_data (concat (map RECOVER_image rs))) =
           map recv_data_of_RECOVER rs"
  using to_server.decode_stream [of ms] to_client.decode_stream [of rs] assms by simp

lemma wire_agreement_witness:
  "\<exists>d r. map TAG_of (frames sizeof_data (data_image ''ab'' d @ data_image ''cd'' d)) =
           [TAG_of_data d, TAG_of_data d] \<and> d_sign d = 1 \<and>
         map recv_data_of (frames sizeof_recv_data (RECOVER_image r)) = [recv_data_of_RECOVER r] \<and>
         r_sign r = CHR ''4''"
proof -
  let ?d = "\<lparr>d_left = - 4, d_right = 2, d_count = 0, d_sign = 1, d_mac = c_memset 18,
    d_file_name = c_memset 256, d_length = 6, d_file_contents = c_memset 4096,
    d_events = c_memset 256\<rparr>"
  let ?r = "\<lparr>r_count = CHR ''0'', r_sign = CHR ''4'', r_mac_addr = c_memset 18,
    r_file_name = c_memset 256, r_data = c_memset 4096, r_event = c_memset 256,
    r_leth = c_memset 256\<rparr>"
  have "wf_data ?d" "wf_RECOVER ?r"
    by (simp_all add: wf_data_def wf_RECOVER_def is_long_def is_int_def c_memset_def)
  with wire_agreement [of "[(''ab'', ?d), (''cd'', ?d)]" "[?r]"] show ?thesis
    by (intro exI [of _ ?d] exI [of _ ?r]) simp
qed

end
