(* ===== verification/Server_Env.thy ===== *)
theory Server_Env
  imports Wire C_Format
begin

text \<open>
  What the server process shares with the kernel, as far as the monitors and the main loop
  touch it: the files and directories below its working directory, the epoll instance, the
  open descriptors, the bytes sent on each socket and the calls made to the logger. Paths
  are compared as strings (no \<open>..\<close>, links or repeated slashes are resolved).
\<close>

section \<open>State\<close>

type_synonym mask = "32 word"

definition EPOLLIN :: mask where "EPOLLIN = 0x1"
definition EPOLLOUT :: mask where "EPOLLOUT = 0x4"
definition EPOLLERR :: mask where "EPOLLERR = 0x8"
definition EPOLLHUP :: mask where "EPOLLHUP = 0x10"
definition EPOLLRDHUP :: mask where "EPOLLRDHUP = 0x2000"
definition EPOLLONESHOT :: mask where "EPOLLONESHOT = 0x40000000"
definition EPOLLET :: mask where "EPOLLET = 0x80000000"

lemmas epoll_flags = EPOLLIN_def EPOLLOUT_def EPOLLERR_def EPOLLHUP_def EPOLLRDHUP_def
  EPOLLONESHOT_def EPOLLET_def

text \<open>
  A registration is the mask asked for and whether it is armed: after it has reported an
  event, a one-shot registration reports no other until it is modified. \<open>hearts\<close> lists the
  heartbeat threads, each with the descriptor its object was initialised for.
\<close>

datatype log_event = Logged int string "parg list" | Flushed

record server =
  fs :: "string \<Rightarrow> string option"
  dirs :: "string set"
  denied :: "string \<Rightarrow> bool"
  epoll :: "int \<Rightarrow> (mask \<times> bool) option"
  open_fds :: "int set"
  nonblocking :: "int set"
  sent :: "(int \<times> string) list"
  logs :: "log_event list"
  hearts :: "(nat \<times> int) list"

definition log_call :: "int \<Rightarrow> string \<Rightarrow> parg list \<Rightarrow> server \<Rightarrow> server" where
  "log_call level fmt args w = w\<lparr>logs := logs w @ [Logged level fmt args]\<rparr>"

definition flush_call :: "server \<Rightarrow> server" where
  "flush_call w = w\<lparr>logs := logs w @ [Flushed]\<rparr>"

definition send_to :: "int \<Rightarrow> string \<Rightarrow> server \<Rightarrow> server" where
  "send_to sockfd bs w = w\<lparr>sent := sent w @ [(sockfd, bs)]\<rparr>"

section \<open>Files\<close>

definition parent_dir :: "string \<Rightarrow> string" where
  "parent_dir path =
     (case strrchr path CHR ''/'' of None \<Rightarrow> ''.'' | Some i \<Rightarrow> take i path)"

definition is_dir :: "string \<Rightarrow> server \<Rightarrow> bool" where
  "is_dir path w \<longleftrightarrow>
     path \<in> dirs w \<or> (path \<noteq> [] \<and> last path = CHR ''/'' \<and> butlast path \<in> dirs w)"

definition sys_mkdir :: "string \<Rightarrow> server \<Rightarrow> server" where
  "sys_mkdir path w =
     (if path = [] \<or> path \<in> dirs w \<or> fs w path \<noteq> None \<or> denied w path \<or>
         parent_dir path \<notin> dirs w
      then w else w\<lparr>dirs := insert path (dirs w)\<rparr>)"

text \<open>\<open>open(path, O_CREAT|O_WRONLY)\<close>: the file written, or \<open>None\<close> for -1.\<close>

definition open_creat :: "string \<Rightarrow> server \<Rightarrow> string option \<times> server" where
  "open_creat path w =
     (if denied w path \<or> is_dir path w then (None, w)
      else (case fs w path of
              Some _ \<Rightarrow> (Some path, w)
            | None \<Rightarrow>
                (if parent_dir path \<in> dirs w
                 then (Some path, w\<lparr>fs := (fs w)(path \<mapsto> [])\<rparr>)
                 else (None, w))))"

text \<open>\<open>open(path, O_RDONLY)\<close>: it fails, or opens a directory (no \<open>read\<close> succeeds), or a file.\<close>

datatype opened = Op_fail | Op_dir | Op_file string

definition open_rdonly :: "string \<Rightarrow> server \<Rightarrow> opened" where
  "open_rdonly path w =
     (if denied w path then Op_fail
      else if is_dir path w then Op_dir
      else (case fs w path of None \<Rightarrow> Op_fail | Some content \<Rightarrow> Op_file content))"

text \<open>\<open>write\<close> at an offset, which fills a gap before it with NULs.\<close>

definition pwrite_file :: "string \<Rightarrow> nat \<Rightarrow> string \<Rightarrow> server \<Rightarrow> server" where
  "pwrite_file path off bs w =
     (case fs w path of
        None \<Rightarrow> w
      | Some old \<Rightarrow> w\<lparr>fs := (fs w)(path \<mapsto> splice_at NUL old off bs)\<rparr>)"

section \<open>Descriptors and epoll\<close>

definition sys_close :: "int \<Rightarrow> server \<Rightarrow> server" where
  "sys_close fd w =
     (if fd \<in> open_fds w
      then w\<lparr>open_fds := open_fds w - {fd}, epoll := (epoll w)(fd := None),
             nonblocking := nonblocking w - {fd}\<rparr>
      else w)"

text \<open>\<open>setnonblocking\<close> answers the old flag.\<close>

definition setnonblocking :: "int \<Rightarrow> server \<Rightarrow> bool \<times> server" where
  "setnonblocking fd w = (fd \<in> nonblocking w,
     if fd \<in> open_fds w then w\<lparr>nonblocking := insert fd (nonblocking w)\<rparr> else w)"

unbundle bit_operations_syntax

definition addfd :: "int \<Rightarrow> bool \<Rightarrow> server \<Rightarrow> server" where
  "addfd fd one_shot w =
     (let events = EPOLLIN OR EPOLLRDHUP;
          events' = (if one_shot then events OR EPOLLONESHOT else events) in
      if fd \<in> open_fds w \<and> epoll w fd = None
      then w\<lparr>epoll := (epoll w)(fd \<mapsto> (events', True))\<rparr> else w)"

definition modfd :: "int \<Rightarrow> mask \<Rightarrow> server \<Rightarrow> server" where
  "modfd fd ev w =
     (if fd \<in> open_fds w \<and> epoll w fd \<noteq> None
      then w\<lparr>epoll := (epoll w)(fd \<mapsto> (ev OR EPOLLET OR EPOLLONESHOT OR EPOLLRDHUP, True))\<rparr> else w)"

text \<open>What an event reports: the ready flags asked for, and always error and hang-up.\<close>

definition reportable :: "mask \<Rightarrow> mask \<Rightarrow> mask" where
  "reportable wanted ready = ready AND (wanted OR EPOLLERR OR EPOLLHUP)"

text \<open>\<open>epoll_wait\<close> on one ready descriptor: the events it reports, if any, and the disarming.\<close>

definition epoll_report :: "int \<Rightarrow> mask \<Rightarrow> server \<Rightarrow> (mask \<times> server) option" where
  "epoll_report fd ready w =
     (case epoll w fd of
        None \<Rightarrow> None
      | Some (wanted, armed) \<Rightarrow>
          (if armed \<and> reportable wanted ready \<noteq> 0
           then Some (reportable wanted ready,
                  if wanted AND EPOLLONESHOT \<noteq> 0
                  then w\<lparr>epoll := (epoll w)(fd \<mapsto> (wanted, False))\<rparr> else w)
           else None))"

definition removefd :: "int \<Rightarrow> server \<Rightarrow> server" where
  "removefd fd w = sys_close fd (w\<lparr>epoll := (epoll w)(fd := None)\<rparr>)"

end
