(* ===== verification/Server_Monitor.thy ===== *)
theory Server_Monitor
  imports Server_Env
begin

text \<open>
  The per-connection object of the server, \<open>server/monitor\<close>: \<open>monitor\<close> is the class's data,
  one definition per member function in the order of \<open>monitor.cpp\<close>. The three messages it
  allocates are options, \<open>None\<close> once deleted. A path a descriptor was opened on stands for
  the member \<open>fd\<close>. What \<open>recv\<close> answers is a list of outcomes; \<open>None\<close> as the result of an
  operation says that its loop never ends.
\<close>

section \<open>State\<close>

record monitor =
  m_sockfd :: int
  m_address :: string
  masg :: "TAG option"
  rebag :: "RECOVER option"
  heart :: "RECOVER option"
  backup_f_name :: string
  mon_id :: "nat option"

definition FILE_NAME_LEN :: nat where "FILE_NAME_LEN = 256"
definition BACKUP_F_NAME :: nat where "BACKUP_F_NAME = 512"
definition BUFF_SIZE :: nat where "BUFF_SIZE = 4096"

definition deref :: "'a option \<Rightarrow> 'a res" where
  "deref p = (case p of None \<Rightarrow> Inl Use_after_free | Some x \<Rightarrow> Inr x)"

lemma deref_simps [simp]: "deref (Some x) = Inr x" "deref None = Inl Use_after_free"
  by (simp_all add: deref_def)

section \<open>Life of the object\<close>

text \<open>\<open>close_mon\<close>: the three messages are deleted, the pointers stay behind dangling.\<close>

definition close_mon :: "bool \<Rightarrow> monitor \<Rightarrow> server \<Rightarrow> (monitor \<times> server) res" where
  "close_mon real_close mon w =
     (if real_close \<and> m_sockfd mon \<noteq> - 1
      then bind_res (deref (masg mon)) (\<lambda>_. bind_res (deref (rebag mon)) (\<lambda>_.
           bind_res (deref (heart mon)) (\<lambda>_.
             Inr (mon\<lparr>m_sockfd := - 1, masg := None, rebag := None, heart := None\<rparr>,
                  removefd (m_sockfd mon) w))))
      else Inr (mon, w))"

text \<open>
  \<open>init()\<close>: \<open>tid\<close> is the outcome of \<open>pthread_create\<close>. The thread's id goes to a local
  variable that hides the member \<open>id\<close>, which stays as it was. \<open>None\<close> is \<open>exit(1)\<close>.
\<close>

definition mon_init_private ::
    "nat option \<Rightarrow> monitor \<Rightarrow> server \<Rightarrow> (monitor \<times> server) option res" where
  "mon_init_private tid mon w =
     bind_res (deref (masg mon)) (\<lambda>m.
       let mon' = mon\<lparr>masg := Some (m\<lparr>t_left := 0, t_right := 0, t_sign := 0, t_lenth := 0,
                                     t_mac_addr := c_memset 18,
                                     t_file_name := c_memset FILE_NAME_LEN,
                                     t_data := c_memset BUFF_SIZE, t_event := c_memset 256\<rparr>),
                      backup_f_name := c_memset BACKUP_F_NAME\<rparr> in
       (case tid of
          None \<Rightarrow> Inr None
        | Some t \<Rightarrow> Inr (Some (mon', w\<lparr>hearts := hearts w @ [(t, m_sockfd mon)]\<rparr>))))"

definition mon_init ::
    "int \<Rightarrow> string \<Rightarrow> nat option \<Rightarrow> monitor \<Rightarrow> server \<Rightarrow> (monitor \<times> server) option res" where
  "mon_init sockfd addr tid mon w =
     mon_init_private tid (mon\<lparr>m_sockfd := sockfd, m_address := addr\<rparr>) (addfd sockfd True w)"

section \<open>File names\<close>

definition slash_to_at :: "char \<Rightarrow> char" where
  "slash_to_at c = (if c = CHR ''/'' then CHR ''@'' else c)"

definition at_to_slash :: "char \<Rightarrow> char" where
  "at_to_slash c = (if c = CHR ''@'' then CHR ''/'' else c)"

definition transf_file_name :: "TAG \<Rightarrow> TAG" where
  "transf_file_name m = m\<lparr>t_file_name := map slash_to_at (t_file_name m)\<rparr>"

definition recover_file_name :: "RECOVER \<Rightarrow> RECOVER" where
  "recover_file_name r = r\<lparr>r_file_name := map at_to_slash (r_file_name r)\<rparr>"

text \<open>The path both \<open>backup\<close> and \<open>recover\<close> build in \<open>backup_f_name\<close>.\<close>

definition build_path :: "TAG \<Rightarrow> string \<Rightarrow> string res" where
  "build_path m buf =
     bind_res (c_memcpy buf (t_mac_addr m) 18) (\<lambda>b1.
     bind_res (c_strcat b1 (lit ''/'')) (\<lambda>b2.
       c_strcat b2 (t_file_name m)))"

section \<open>backup\<close>

text \<open>
  The writing: a negative offset makes \<open>lseek\<close> fail and the file position stays 0; the
  length is converted to \<open>size_t\<close>, and more than the 4096 bytes of \<open>data\<close> would be read past
  the member. On descriptor -1 both calls only fail.
\<close>

definition write_block :: "string option \<Rightarrow> TAG \<Rightarrow> server \<Rightarrow> server res" where
  "write_block fd m w =
     (case fd of
        None \<Rightarrow> Inr w
      | Some path \<Rightarrow>
          (let n = c_ulong (t_right m - t_left m);
               off = (if t_left m < 0 then 0 else nat (t_left m)) in
           if n > int (length (t_data m)) then Inl Out_of_bounds
           else Inr (pwrite_file path off (take (nat n) (t_data m)) w)))"

definition mon_backup :: "nat \<Rightarrow> monitor \<Rightarrow> server \<Rightarrow> (monitor \<times> server) res" where
  "mon_backup pth mon w =
     bind_res (deref (masg mon)) (\<lambda>m0.
     let w1 = log_call 0 (''##[back up]>>PTHREAD ID = %d'' @ [newline]) [PInt (c_int (int pth))] w;
         w2 = log_call 0 (''##[back up]>>IN backup() before memecpy'' @ [newline]) [PInt 0] w1;
         m = transf_file_name m0 in
     bind_res (c_read (t_mac_addr m)) (\<lambda>mac.
     let w3 = sys_mkdir mac w2 in
     bind_res (build_path m (backup_f_name mon)) (\<lambda>name.
     bind_res (c_read name) (\<lambda>path.
     let (fd, w4) = open_creat path w3;
         w5 = (case fd of
                 None \<Rightarrow> log_call 3 ''[backup]open errno!open return -1 |file_name:%s|'' [PStr path] w4
               | Some _ \<Rightarrow> log_call 0 ''[backup]open success!|file_name:%s|'' [PStr path] w4) in
     bind_res (write_block fd m w5) (\<lambda>w6.
       Inr (mon\<lparr>masg := Some m, backup_f_name := name\<rparr>, w6))))))"

section \<open>recover\<close>

text \<open>
  The loop sends one message per 4095 bytes read, until a read answers 0. The argument is
  what remains to be read; \<open>None\<close> is a descriptor on which every read answers -1.
\<close>

partial_function (option) recover_loop ::
    "int \<Rightarrow> string option \<Rightarrow> RECOVER \<Rightarrow> server \<Rightarrow> (RECOVER \<times> server) option" where
  "recover_loop sockfd rest r w =
     (let r0 = r\<lparr>r_data := c_memset BUFF_SIZE\<rparr> in
      case rest of
        None \<Rightarrow>
          (let r1 = recover_file_name r0 in
           recover_loop sockfd None r1 (send_to sockfd (RECOVER_image r1) w))
      | Some bs \<Rightarrow>
          (if bs = [] then Some (r0, w)
           else
             let chunk = take (BUFF_SIZE - 1) bs;
                 r1 = recover_file_name
                        (r0\<lparr>r_data := chunk @ drop (length chunk) (r_data r0)\<rparr>) in
             recover_loop sockfd (Some (drop (BUFF_SIZE - 1) bs)) r1
               (send_to sockfd (RECOVER_image r1) w)))"

definition mon_recover :: "monitor \<Rightarrow> server \<Rightarrow> (monitor \<times> server) run" where
  "mon_recover mon w =
     bind_run (Some (deref (masg mon))) (\<lambda>m0.
     bind_run (Some (build_path (transf_file_name m0) (backup_f_name mon))) (\<lambda>name.
     let m = transf_file_name m0 in
     bind_run (Some (c_read name)) (\<lambda>path.
     let fd = open_rdonly path w;
         w1 = (case fd of
                 Op_fail \<Rightarrow> log_call 3 ''[recover]open errno!open return -1 |file_name:%s|'' [PStr path] w
               | _ \<Rightarrow> log_call 0 ''[recover]open success |file_name:&s|'' [PStr path] w) in
     bind_run (Some (deref (rebag mon))) (\<lambda>r0.
     bind_run (Some (c_strcpy (r_event r0) (t_event m))) (\<lambda>ev.
     bind_run (Some (c_strcpy (r_file_name r0) (t_file_name m))) (\<lambda>fname.
     bind_run (Some (c_strcpy (r_mac_addr r0) (t_mac_addr m))) (\<lambda>mac.
     let r1 = r0\<lparr>r_sign := CHR ''1'', r_count := CHR ''0'', r_event := ev,
                 r_file_name := fname, r_mac_addr := mac\<rparr> in
     (case recover_loop (m_sockfd mon) (case fd of Op_file bs \<Rightarrow> Some bs | _ \<Rightarrow> None) r1 w1 of
        None \<Rightarrow> None
      | Some (r2, w2) \<Rightarrow>
          Some (Inr (mon\<lparr>masg := Some m, backup_f_name := name, rebag := Some r2\<rparr>, w2))))))))))"

text \<open>
  \<open>get_file_size\<close>, which nothing calls: -1 as \<open>unsigned long\<close> when \<open>stat\<close> fails. The path
  is that of a regular file, if of anything.
\<close>

definition mon_get_file_size :: "monitor \<Rightarrow> server \<Rightarrow> int res" where
  "mon_get_file_size mon w =
     bind_res (c_read (backup_f_name mon)) (\<lambda>path.
       Inr (case fs w path of None \<Rightarrow> c_ulong (- 1) | Some bs \<Rightarrow> int (length bs)))"

section \<open>process\<close>

text \<open>The bytes of one answer of \<open>recv\<close>: at least one, at most \<open>sizeof(TAG)\<close>.\<close>

datatype recv_event = Rv_bytes string | Rv_end | Rv_again | Rv_error

datatype proc_end = Returned | Waiting

text \<open>\<open>recv\<close> overwrites the start of the message; a short answer leaves the rest as it was.\<close>

definition recv_into :: "string \<Rightarrow> TAG \<Rightarrow> TAG" where
  "recv_into bs m = TAG_of (bs @ drop (length bs) (TAG_image [NUL, NUL] m))"

fun mon_process ::
    "nat \<Rightarrow> recv_event list \<Rightarrow> monitor \<Rightarrow> server \<Rightarrow> (monitor \<times> server \<times> proc_end) run" where
  "mon_process pth [] mon w = Some (Inr (mon, w, Waiting))"
| "mon_process pth (Rv_again # _) mon w = Some (Inr (mon, w, Returned))"
| "mon_process pth (Rv_error # _) mon w = Some (Inr (mon, w, Returned))"
| "mon_process pth (Rv_end # _) mon w =
     Some (Inr (mon, log_call 1 ''[backup]client exit fd : %d'' [PInt (m_sockfd mon)] w, Returned))"
| "mon_process pth (Rv_bytes bs # evs) mon w =
     bind_run (Some (deref (masg mon))) (\<lambda>m0.
     let m = recv_into bs m0; mon1 = mon\<lparr>masg := Some m\<rparr> in
     if t_sign m = 0
     then bind_run (Some (mon_backup pth mon1 w)) (\<lambda>(mon2, w2). mon_process pth evs mon2 w2)
     else if t_sign m = 1
     then bind_run (mon_recover mon1 w) (\<lambda>(mon2, w2). mon_process pth evs mon2 w2)
     else mon_process pth evs mon1 w)"

section \<open>The heartbeat\<close>

text \<open>One turn of the thread's loop: the heartbeat is sent, then it sleeps 3 seconds.\<close>

definition send_heart :: "monitor \<Rightarrow> server \<Rightarrow> (monitor \<times> server) res" where
  "send_heart c w =
     bind_res (deref (heart c)) (\<lambda>h0.
       let h = h0\<lparr>r_mac_addr := c_memset 18, r_file_name := c_memset 256,
                  r_data := c_memset 4096, r_event := c_memset 256,
                  r_sign := CHR ''4'', r_count := CHR ''0''\<rparr> in
       Inr (c\<lparr>heart := Some h\<rparr>, send_to (m_sockfd c) (RECOVER_image h) w))"

section \<open>Names\<close>

lemma slash_to_at_NUL [simp]: "slash_to_at c = NUL \<longleftrightarrow> c = NUL"
  by (simp add: slash_to_at_def)

lemma at_to_slash_NUL [simp]: "at_to_slash c = NUL \<longleftrightarrow> c = NUL"
  by (simp add: at_to_slash_def)

lemma no_slash_left: "CHR ''/'' \<notin> set (map slash_to_at s)"
  by (auto simp: slash_to_at_def split: if_splits)

lemma at_slash_inverse: "c \<noteq> CHR ''@'' \<Longrightarrow> at_to_slash (slash_to_at c) = c"
  by (simp add: at_to_slash_def slash_to_at_def)

lemma map_at_slash: "map at_to_slash (map slash_to_at s) = s \<longleftrightarrow> CHR ''@'' \<notin> set s"
  by (induction s) (auto simp: at_to_slash_def slash_to_at_def)

lemma at_to_slash_idem: "map at_to_slash (map at_to_slash s) = map at_to_slash s"
  by (simp add: at_to_slash_def)

text \<open>The path a file \<open>name\<close> of the client \<open>mac\<close> is kept under.\<close>

definition backup_path :: "string \<Rightarrow> string \<Rightarrow> string" where
  "backup_path mac name = mac @ ''/'' @ map slash_to_at name"

lemma parent_backup_path [simp]: "parent_dir (backup_path mac name) = mac"
  using strrchr_last [OF no_slash_left] by (simp add: parent_dir_def backup_path_def)

lemma last_backup_path: "name \<noteq> [] \<Longrightarrow> last (backup_path mac name) \<noteq> CHR ''/''"
  using no_slash_left [of name] by (auto simp: backup_path_def last_map slash_to_at_def)

lemma backup_path_inj:
  assumes "CHR ''/'' \<notin> set mac" "CHR ''/'' \<notin> set mac'" "CHR ''@'' \<notin> set name" "CHR ''@'' \<notin> set name'"
    and "backup_path mac name = backup_path mac' name'"
  shows "mac = mac' \<and> name = name'"
proof -
  have cut: "takeWhile (\<lambda>c. c \<noteq> CHR ''/'') (backup_path k n) = k"
      "drop (Suc (length k)) (backup_path k n) = map slash_to_at n"
    if "CHR ''/'' \<notin> set k" for k n
    using that by (simp_all add: backup_path_def)
  have "mac = mac'" using cut(1) [OF assms(1)] cut(1) [OF assms(2)] assms(5) by metis
  moreover from this have "map slash_to_at name = map slash_to_at name'"
    using cut(2) [OF assms(1)] cut(2) [OF assms(2)] assms(5) by metis
  ultimately show ?thesis using map_at_slash [of name] map_at_slash [of name'] assms(3,4) by metis
qed

text \<open>A message a client of this program sends: strings end inside their arrays.\<close>

definition names_ok :: "TAG \<Rightarrow> bool" where
  "names_ok m \<longleftrightarrow>
     length (t_mac_addr m) = 18 \<and> length (t_file_name m) = 256 \<and>
     terminated (t_mac_addr m) \<and> terminated (t_file_name m)"

lemma build_path_result:
  assumes "names_ok m" "length buf = BACKUP_F_NAME"
  shows "\<exists>b. build_path (transf_file_name m) buf = Inr b \<and> terminated b \<and>
           cstr b = backup_path (cstr (t_mac_addr m)) (cstr (t_file_name m)) \<and>
           length b = BACKUP_F_NAME"
proof -
  let ?mac = "t_mac_addr m" and ?name = "map slash_to_at (t_file_name m)"
  let ?b1 = "?mac @ drop 18 buf"
  have mac: "terminated ?b1" "cstr ?b1 = cstr ?mac" "length (cstr ?mac) < 18"
    using assms cstr_length_less [of ?mac] by (auto simp: names_ok_def cstr_append)
  have name: "terminated ?name" "cstr ?name = map slash_to_at (cstr (t_file_name m))"
      "length (cstr ?name) < 256"
    using assms cstr_length_less [of "t_file_name m"]
    by (auto simp: names_ok_def terminated_map cstr_map)
  have b1: "c_memcpy buf ?mac 18 = Inr ?b1" "length ?b1 = 512"
    using assms by (simp_all add: c_memcpy_all names_ok_def BACKUP_F_NAME_def)
  obtain b2 where b2: "c_strcat ?b1 (lit ''/'') = Inr b2"
    using c_strcat_room [of ?b1 "lit ''/''"] mac b1(2) by auto
  then have b2s: "terminated b2" "cstr b2 = cstr ?mac @ ''/''" "length b2 = 512"
    using c_strcat_string [OF b2] mac(2) b1(2) by auto
  obtain b where b: "c_strcat b2 ?name = Inr b"
    using c_strcat_room [of b2 ?name] b2s name mac(3) by auto
  with c_strcat_string [OF b] b1 b2 b2s name show ?thesis
    by (auto simp: build_path_def transf_file_name_def backup_path_def BACKUP_F_NAME_def)
qed

section \<open>What backup does\<close>

definition content_at :: "server \<Rightarrow> string \<Rightarrow> string" where
  "content_at w path = (case fs w path of None \<Rightarrow> [] | Some bs \<Rightarrow> bs)"

text \<open>The client's directory is there or can be made, and the file can be written.\<close>

definition dir_ready :: "string \<Rightarrow> server \<Rightarrow> bool" where
  "dir_ready mac w \<longleftrightarrow>
     mac \<in> dirs w \<or>
     (mac \<noteq> [] \<and> fs w mac = None \<and> \<not> denied w mac \<and> parent_dir mac \<in> dirs w)"

definition file_ready :: "string \<Rightarrow> string \<Rightarrow> server \<Rightarrow> bool" where
  "file_ready mac name w \<longleftrightarrow>
     dir_ready mac w \<and> name \<noteq> [] \<and> \<not> denied w (backup_path mac name) \<and>
     backup_path mac name \<notin> dirs w"

text \<open>The block a message carries, and the files before and after.\<close>

definition block_ok :: "TAG \<Rightarrow> bool" where
  "block_ok m \<longleftrightarrow>
     0 \<le> t_left m \<and> t_left m \<le> t_right m \<and> t_right m < 2 ^ 63 \<and>
     t_right m - t_left m \<le> int (length (t_data m))"

definition block :: "TAG \<Rightarrow> nat \<times> string" where
  "block m = (nat (t_left m), take (nat (t_right m - t_left m)) (t_data m))"

definition mac_of :: "TAG \<Rightarrow> string" where "mac_of m = cstr (t_mac_addr m)"
definition name_of :: "TAG \<Rightarrow> string" where "name_of m = cstr (t_file_name m)"

text \<open>What an operation on the path \<open>p\<close> leaves alone.\<close>

definition only_writes :: "string \<Rightarrow> server \<Rightarrow> server \<Rightarrow> bool" where
  "only_writes p w w' \<longleftrightarrow>
     (\<forall>q. q \<noteq> p \<longrightarrow> fs w' q = fs w q) \<and> denied w' = denied w \<and> sent w' = sent w \<and>
     epoll w' = epoll w \<and> open_fds w' = open_fds w \<and> hearts w' = hearts w"

lemma only_writes_trans: "only_writes p w w' \<Longrightarrow> only_writes p w' w'' \<Longrightarrow> only_writes p w w''"
  by (simp add: only_writes_def)

lemma log_call_simps [simp]:
  "fs (log_call l f a w) = fs w" "dirs (log_call l f a w) = dirs w"
  "denied (log_call l f a w) = denied w" "sent (log_call l f a w) = sent w"
  "epoll (log_call l f a w) = epoll w" "open_fds (log_call l f a w) = open_fds w"
  "hearts (log_call l f a w) = hearts w"
  by (simp_all add: log_call_def)

lemma sys_mkdir_ready:
  "dir_ready mac w \<Longrightarrow>
     mac \<in> dirs (sys_mkdir mac w) \<and> dirs (sys_mkdir mac w) = insert mac (dirs w) \<and>
     fs (sys_mkdir mac w) = fs w \<and> denied (sys_mkdir mac w) = denied w \<and>
     sent (sys_mkdir mac w) = sent w \<and> epoll (sys_mkdir mac w) = epoll w \<and>
     open_fds (sys_mkdir mac w) = open_fds w \<and> hearts (sys_mkdir mac w) = hearts w"
  by (auto simp: sys_mkdir_def dir_ready_def)

lemma open_creat_ready:
  assumes "mac \<in> dirs w" "name \<noteq> []" "\<not> denied w (backup_path mac name)"
    "backup_path mac name \<notin> dirs w"
  shows "\<exists>w'. open_creat (backup_path mac name) w = (Some (backup_path mac name), w') \<and>
     fs w' = (fs w)(backup_path mac name \<mapsto> content_at w (backup_path mac name)) \<and>
     dirs w' = dirs w \<and> only_writes (backup_path mac name) w w'"
  using assms last_backup_path [OF assms(2), of mac]
  by (auto simp: open_creat_def is_dir_def content_at_def only_writes_def split: option.splits)

lemma write_block_ok:
  assumes "block_ok m" "fs w p = Some old"
  shows "write_block (Some p) m w =
     Inr (w\<lparr>fs := (fs w)(p \<mapsto> splice_at NUL old (fst (block m)) (snd (block m)))\<rparr>)"
proof -
  have "c_ulong (t_right m - t_left m) = t_right m - t_left m"
    using assms(1) by (intro c_ulong_id) (auto simp: block_ok_def)
  then show ?thesis using assms
    by (simp add: write_block_def block_ok_def block_def pwrite_file_def)
qed

lemma backup_result:
  assumes "masg mon = Some m" "names_ok m" "length (backup_f_name mon) = BACKUP_F_NAME"
    "block_ok m" "file_ready (mac_of m) (name_of m) w"
  shows "\<exists>mon' w'. mon_backup pth mon w = Inr (mon', w') \<and>
     (let p = backup_path (mac_of m) (name_of m) in
        fs w' p = Some (splice_at NUL (content_at w p) (fst (block m)) (snd (block m))) \<and>
        only_writes p w w' \<and> dirs w' = insert (mac_of m) (dirs w)) \<and>
     masg mon' = Some (transf_file_name m) \<and> length (backup_f_name mon') = BACKUP_F_NAME \<and>
     m_sockfd mon' = m_sockfd mon \<and> heart mon' = heart mon"
proof -
  let ?p = "backup_path (mac_of m) (name_of m)" and ?m = "transf_file_name m"
  let ?w2 = "log_call 0 (''##[back up]>>IN backup() before memecpy'' @ [newline]) [PInt 0]
     (log_call 0 (''##[back up]>>PTHREAD ID = %d'' @ [newline]) [PInt (c_int (int pth))] w)"
  let ?w3 = "sys_mkdir (mac_of m) ?w2"
  obtain b where b: "build_path ?m (backup_f_name mon) = Inr b" "terminated b" "cstr b = ?p"
      "length b = BACKUP_F_NAME"
    using build_path_result [OF assms(2,3)] by (auto simp: mac_of_def name_of_def)
  have mac: "c_read (t_mac_addr ?m) = Inr (mac_of m)"
    using assms(2) by (simp add: names_ok_def transf_file_name_def mac_of_def)
  have "dir_ready (mac_of m) ?w2" using assms(5) by (simp add: file_ready_def dir_ready_def)
  note w3 = sys_mkdir_ready [OF this]
  have "mac_of m \<noteq> ?p" by (simp add: backup_path_def)
  then obtain w4 where w4: "open_creat ?p ?w3 = (Some ?p, w4)"
      "fs w4 = (fs w)(?p \<mapsto> content_at w ?p)" "dirs w4 = insert (mac_of m) (dirs w)"
      "only_writes ?p ?w3 w4"
    using open_creat_ready [of "mac_of m" ?w3 "name_of m"] w3 assms(5)
    by (auto simp: file_ready_def content_at_def)
  let ?w5 = "log_call 0 ''[backup]open success!|file_name:%s|'' [PStr ?p] w4"
  have m: "block_ok ?m" "block ?m = block m"
    using assms(4) by (simp_all add: block_ok_def block_def transf_file_name_def)
  have "write_block (Some ?p) ?m ?w5 = Inr (?w5\<lparr>fs := (fs ?w5)(?p \<mapsto>
      splice_at NUL (content_at w ?p) (fst (block m)) (snd (block m)))\<rparr>)"
    using write_block_ok [OF m(1), of ?w5 ?p "content_at w ?p"] w4(2) m(2) by simp
  with b w4 w3 mac assms(1) show ?thesis
    by (auto simp: mon_backup_def Let_def only_writes_def)
qed

text \<open>Messages processed one after the other, each on the object of its own connection.\<close>

fun backup_all :: "nat \<Rightarrow> monitor list \<Rightarrow> server \<Rightarrow> server res" where
  "backup_all pth [] w = Inr w"
| "backup_all pth (mon # mons) w =
     bind_res (mon_backup pth mon w) (\<lambda>(_, w'). backup_all pth mons w')"

text \<open>
  A monitor that holds a message whose backup goes through, and the path and the block it
  writes. Addresses hold no slash.
\<close>

definition backs_up :: "server \<Rightarrow> monitor \<Rightarrow> bool" where
  "backs_up w mon \<longleftrightarrow>
     length (backup_f_name mon) = BACKUP_F_NAME \<and>
     (\<exists>m. masg mon = Some m \<and> names_ok m \<and> block_ok m \<and> CHR ''/'' \<notin> set (mac_of m) \<and>
          file_ready (mac_of m) (name_of m) w)"

definition path_in :: "monitor \<Rightarrow> string" where
  "path_in mon = (case masg mon of None \<Rightarrow> [] | Some m \<Rightarrow> backup_path (mac_of m) (name_of m))"

definition block_in :: "monitor \<Rightarrow> nat \<times> string" where
  "block_in mon = (case masg mon of None \<Rightarrow> (0, []) | Some m \<Rightarrow> block m)"

text \<open>A backup leaves the way free for every other one.\<close>

lemma file_ready_later:
  assumes "file_ready mac name w" "CHR ''/'' \<notin> set mac" "CHR ''/'' \<notin> set mac'"
    and "only_writes (backup_path mac' name') w w1" "dirs w \<subseteq> dirs w1" "dirs w1 \<subseteq> insert mac' (dirs w)"
  shows "file_ready mac name w1"
proof -
  have "CHR ''/'' \<in> set (backup_path k n)" for k n by (simp add: backup_path_def)
  then have "mac \<noteq> backup_path mac' name'" "backup_path mac name \<noteq> mac'" using assms(2,3) by metis+
  then show ?thesis using assms(1,4-6) by (auto simp: file_ready_def dir_ready_def only_writes_def)
qed

lemma backup_all_result:
  assumes "\<forall>mon \<in> set mons. backs_up w mon"
  shows "\<exists>w'. backup_all pth mons w = Inr w' \<and>
     (\<forall>p. content_at w' p = splices NUL (content_at w p) (map block_in (filter (\<lambda>mon. path_in mon = p) mons))) \<and>
     (\<forall>p. p \<notin> path_in ` set mons \<longrightarrow> fs w' p = fs w p)"
  using assms
proof (induction mons arbitrary: w)
  case Nil
  then show ?case by (simp add: splices_def)
next
  case (Cons mon mons)
  from Cons.prems obtain m where m: "masg mon = Some m" "names_ok m" "block_ok m" "CHR ''/'' \<notin> set (mac_of m)"
      "file_ready (mac_of m) (name_of m) w" "length (backup_f_name mon) = BACKUP_F_NAME"
    by (auto simp: backs_up_def)
  let ?p = "backup_path (mac_of m) (name_of m)"
  obtain mon1 w1 where w1: "mon_backup pth mon w = Inr (mon1, w1)"
      "fs w1 ?p = Some (splice_at NUL (content_at w ?p) (fst (block m)) (snd (block m)))"
      "only_writes ?p w w1" "dirs w1 = insert (mac_of m) (dirs w)"
    using backup_result [OF m(1,2,6,3,5), of pth] by (auto simp: Let_def)
  have "dirs w \<subseteq> dirs w1" "dirs w1 \<subseteq> insert (mac_of m) (dirs w)" using w1(4) by auto
  note later = file_ready_later [OF _ _ m(4) w1(3) this]
  have "\<forall>mon \<in> set mons. backs_up w1 mon"
    using Cons.prems later by (fastforce simp: backs_up_def)
  with Cons.IH obtain w' where w': "backup_all pth mons w1 = Inr w'"
      "\<forall>p. content_at w' p = splices NUL (content_at w1 p) (map block_in (filter (\<lambda>mon. path_in mon = p) mons))"
      "\<forall>p. p \<notin> path_in ` set mons \<longrightarrow> fs w' p = fs w1 p"
    by blast
  have mon: "path_in mon = ?p" "block_in mon = block m" using m(1) by (simp_all add: path_in_def block_in_def)
  have "content_at w1 p = (if p = ?p then splice_at NUL (content_at w p) (fst (block m)) (snd (block m))
      else content_at w p)" for p
    using w1(2,3) by (simp add: content_at_def only_writes_def)
  moreover have "fs w1 p = fs w p" if "p \<noteq> ?p" for p using w1(3) that by (simp add: only_writes_def)
  ultimately show ?case using w1(1) w' mon by (auto simp: splices_def)
qed

section \<open>What recover does\<close>

definition reply :: "RECOVER \<Rightarrow> string \<Rightarrow> RECOVER" where
  "reply r c = recover_file_name (r\<lparr>r_data := c @ replicate (BUFF_SIZE - length c) NUL\<rparr>)"

lemma reply_reply [simp]: "reply (reply r c) d = reply r d"
  by (simp add: reply_def recover_file_name_def at_to_slash_def)

lemma reply_data [simp]: "reply (r\<lparr>r_data := x\<rparr>) c = reply r c"
  by (simp add: reply_def recover_file_name_def)

lemma recover_loop_file:
  "\<exists>r'. recover_loop sockfd (Some bs) r w =
     Some (r', w\<lparr>sent := sent w @
        map (\<lambda>c. (sockfd, RECOVER_image (reply r c))) (frames (BUFF_SIZE - 1) bs)\<rparr>)"
proof (induction "length bs" arbitrary: bs r w rule: less_induct)
  case less
  show ?case
  proof (cases "bs = []")
    case True
    then show ?thesis by (subst recover_loop.simps) simp
  next
    case False
    let ?c = "take (BUFF_SIZE - 1) bs"
    let ?w = "send_to sockfd (RECOVER_image (reply r ?c)) w"
    have "length (drop (BUFF_SIZE - 1) bs) < length bs" using False by (simp add: BUFF_SIZE_def)
    from less [OF this, of "reply r ?c" ?w] obtain r' where
      "recover_loop sockfd (Some (drop (BUFF_SIZE - 1) bs)) (reply r ?c) ?w =
       Some (r', ?w\<lparr>sent := sent ?w @ map (\<lambda>c. (sockfd, RECOVER_image (reply r c)))
         (frames (BUFF_SIZE - 1) (drop (BUFF_SIZE - 1) bs))\<rparr>)"
      by auto
    moreover have "recover_loop sockfd (Some bs) r w =
        recover_loop sockfd (Some (drop (BUFF_SIZE - 1) bs)) (reply r ?c) ?w"
      using False by (subst recover_loop.simps) (simp add: Let_def reply_def c_memset_def)
    ultimately show ?thesis using False
      by (auto simp: frames_step [of 4095 bs] BUFF_SIZE_def send_to_def)
  qed
qed

text \<open>On a descriptor that cannot be read the loop sends without end.\<close>

lemma recover_loop_returns:
  assumes "recover_loop sockfd rest r w = Some y"
  shows "rest \<noteq> None"
proof (rule recover_loop.raw_induct [where P = "\<lambda>_ rest _ _ _. rest \<noteq> None", OF _ assms])
  fix loop :: "int \<Rightarrow> string option \<Rightarrow> RECOVER \<Rightarrow> server \<Rightarrow> (RECOVER \<times> server) option"
  fix s r w y and rest :: "string option"
  let ?r = "recover_file_name (r\<lparr>r_data := c_memset BUFF_SIZE\<rparr>)"
  assume IH: "\<And>s rest r w y. loop s rest r w = Some y \<Longrightarrow> rest \<noteq> None"
    and body: "(let r0 = r\<lparr>r_data := c_memset BUFF_SIZE\<rparr> in
       case rest of
         None \<Rightarrow> (let r1 = recover_file_name r0
                  in loop s None r1 (send_to s (RECOVER_image r1) w))
       | Some bs \<Rightarrow>
           (if bs = [] then Some (r0, w)
            else let chunk = take (BUFF_SIZE - 1) bs;
                     r1 = recover_file_name (r0\<lparr>r_data := chunk @ drop (length chunk) (r_data r0)\<rparr>)
                 in loop s (Some (drop (BUFF_SIZE - 1) bs)) r1 (send_to s (RECOVER_image r1) w))) =
       Some y"
  show "rest \<noteq> None"
  proof
    assume "rest = None"
    with body have "loop s None ?r (send_to s (RECOVER_image ?r) w) = Some y" by (simp add: Let_def)
    from IH [OF this] show False by simp
  qed
qed

lemma recover_loop_stuck: "recover_loop sockfd None r w = None"
  using recover_loop_returns [of sockfd None r w] by (cases "recover_loop sockfd None r w") auto

text \<open>A request and a reply buffer that \<open>recover\<close> can work with.\<close>

definition recover_ready :: "monitor \<Rightarrow> TAG \<Rightarrow> bool" where
  "recover_ready mon m \<longleftrightarrow>
     masg mon = Some m \<and> names_ok m \<and> terminated (t_event m) \<and> length (t_event m) = 256 \<and>
     length (backup_f_name mon) = BACKUP_F_NAME \<and> (\<exists>r. rebag mon = Some r \<and> wf_RECOVER r)"

lemma recover_start:
  assumes "recover_ready mon m"
  defines "p \<equiv> backup_path (mac_of m) (name_of m)"
  shows "\<exists>name r w1. wf_RECOVER r \<and> r_sign r = CHR ''1'' \<and> cstr (r_mac_addr r) = mac_of m \<and>
     terminated (r_mac_addr r) \<and> terminated (r_file_name r) \<and>
     cstr (r_file_name r) = map slash_to_at (name_of m) \<and> sent w1 = sent w \<and> fs w1 = fs w \<and>
     mon_recover mon w =
       (case recover_loop (m_sockfd mon)
               (case open_rdonly p w of Op_file bs \<Rightarrow> Some bs | _ \<Rightarrow> None) r w1 of
          None \<Rightarrow> None
        | Some (r2, w2) \<Rightarrow>
            Some (Inr (mon\<lparr>masg := Some (transf_file_name m), backup_f_name := name,
                           rebag := Some r2\<rparr>, w2)))"
proof -
  let ?m = "transf_file_name m"
  obtain r0 where r0: "rebag mon = Some r0" "wf_RECOVER r0" and m: "masg mon = Some m" "names_ok m"
      "terminated (t_event m)" "length (t_event m) = 256"
    using assms(1) by (auto simp: recover_ready_def)
  obtain b where b: "build_path ?m (backup_f_name mon) = Inr b" "terminated b" "cstr b = p"
    using build_path_result [OF m(2)] assms(1) by (auto simp: recover_ready_def p_def mac_of_def name_of_def)
  have le: "length (cstr (t_event m)) < 256" "length (cstr (t_file_name ?m)) < 256"
      "length (cstr (t_mac_addr m)) < 18"
    using cstr_length_less [of "t_event m"] cstr_length_less [of "t_file_name ?m"]
      cstr_length_less [of "t_mac_addr m"] m
    by (auto simp: names_ok_def transf_file_name_def terminated_map)
  have lr: "length (r_event r0) = 256" "length (r_file_name r0) = 256" "length (r_mac_addr r0) = 18"
    using r0(2) by (auto simp: wf_RECOVER_def)
  obtain ev fname mac where c: "c_strcpy (r_event r0) (t_event ?m) = Inr ev"
      "c_strcpy (r_file_name r0) (t_file_name ?m) = Inr fname"
      "c_strcpy (r_mac_addr r0) (t_mac_addr ?m) = Inr mac"
    using m le lr by (auto simp: c_strcpy_room names_ok_def transf_file_name_def terminated_map)
  let ?r = "r0\<lparr>r_sign := CHR ''1'', r_count := CHR ''0'', r_event := ev, r_file_name := fname,
    r_mac_addr := mac\<rparr>"
  have "wf_RECOVER ?r"
    using r0(2) c_strcpy_length [OF c(1)] c_strcpy_length [OF c(2)] c_strcpy_length [OF c(3)]
    by (simp add: wf_RECOVER_def)
  moreover have "cstr mac = mac_of m" "terminated mac" "terminated fname"
      "cstr fname = map slash_to_at (name_of m)"
    using c_strcpy_string [OF c(2)] c_strcpy_string [OF c(3)]
    by (auto simp: transf_file_name_def mac_of_def name_of_def cstr_map)
  ultimately show ?thesis
    using b c r0(1) m(1)
    by (intro exI [of _ b] exI [of _ ?r] exI [of _ "case open_rdonly p w of
           Op_fail \<Rightarrow> log_call 3 ''[recover]open errno!open return -1 |file_name:%s|'' [PStr p] w
         | _ \<Rightarrow> log_call 0 ''[recover]open success |file_name:&s|'' [PStr p] w"])
      (auto simp: mon_recover_def Let_def split: opened.splits)
qed

lemma recover_sends:
  assumes "recover_ready mon m"
    "open_rdonly (backup_path (mac_of m) (name_of m)) w = Op_file content"
  shows "\<exists>mon' w' rs. mon_recover mon w = Some (Inr (mon', w')) \<and>
     sent w' = sent w @ map (\<lambda>r. (m_sockfd mon, RECOVER_image r)) rs \<and>
     map r_data rs =
       map (\<lambda>c. c @ replicate (BUFF_SIZE - length c) NUL) (frames (BUFF_SIZE - 1) content) \<and>
     (\<forall>r \<in> set rs. wf_RECOVER r \<and> r_sign r = CHR ''1'' \<and> cstr (r_mac_addr r) = mac_of m \<and>
        terminated (r_file_name r) \<and>
        cstr (r_file_name r) = map at_to_slash (map slash_to_at (name_of m))) \<and>
     fs w' = fs w"
proof -
  obtain name r w1 where r: "wf_RECOVER r" "r_sign r = CHR ''1''" "cstr (r_mac_addr r) = mac_of m"
      "terminated (r_file_name r)" "cstr (r_file_name r) = map slash_to_at (name_of m)"
      "sent w1 = sent w" "fs w1 = fs w"
    and run: "mon_recover mon w =
       (case recover_loop (m_sockfd mon) (Some content) r w1 of
          None \<Rightarrow> None
        | Some (r2, w2) \<Rightarrow>
            Some (Inr (mon\<lparr>masg := Some (transf_file_name m), backup_f_name := name,
                           rebag := Some r2\<rparr>, w2)))"
    using recover_start [OF assms(1), of w] assms(2) by auto
  let ?cs = "frames (BUFF_SIZE - 1) content"
  have short: "length c \<le> BUFF_SIZE - 1" if "c \<in> set ?cs" for c
    using frames_length that by fastforce
  obtain r2 where "recover_loop (m_sockfd mon) (Some content) r w1 = Some (r2, w1\<lparr>sent := sent w1 @
      map (\<lambda>c. (m_sockfd mon, RECOVER_image (reply r c))) ?cs\<rparr>)"
    using recover_loop_file by blast
  moreover have "wf_RECOVER (reply r c) \<and> r_sign (reply r c) = CHR ''1'' \<and>
      cstr (r_mac_addr (reply r c)) = mac_of m \<and> terminated (r_file_name (reply r c)) \<and>
      cstr (r_file_name (reply r c)) = map at_to_slash (map slash_to_at (name_of m))"
    if "c \<in> set ?cs" for c
    using r(1-5) short [OF that]
    by (simp add: reply_def recover_file_name_def wf_RECOVER_def terminated_map cstr_map BUFF_SIZE_def)
  ultimately show ?thesis using r(6,7) run
    by (intro exI [of _ "mon\<lparr>masg := Some (transf_file_name m), backup_f_name := name,
            rebag := Some r2\<rparr>"] exI [of _ "w1\<lparr>sent := sent w1 @
              map (\<lambda>c. (m_sockfd mon, RECOVER_image (reply r c))) ?cs\<rparr>"]
          exI [of _ "map (reply r) ?cs"])
       (auto simp: comp_def reply_def recover_file_name_def)
qed

section \<open>What process does with a stream\<close>

lemma recv_into_whole:
  "wf_data d \<Longrightarrow> length pad = 2 \<Longrightarrow> wf_TAG m0 \<Longrightarrow> recv_into (data_image pad d) m0 = TAG_of_data d"
  by (simp add: recv_into_def length_TAG_image data_image_TAG TAG_of_image)

text \<open>A block a client sends to be backed up: its sign is 0 and its strings end.\<close>

definition client_block :: "string \<Rightarrow> string \<Rightarrow> string \<Rightarrow> data \<Rightarrow> bool" where
  "client_block mac name F d \<longleftrightarrow>
     wf_data d \<and> d_sign d = 0 \<and> names_ok (TAG_of_data d) \<and> mac_of (TAG_of_data d) = mac \<and>
     name_of (TAG_of_data d) = name \<and> block_ok (TAG_of_data d) \<and> block_of F (block (TAG_of_data d))"

lemma wf_transf [simp]: "wf_TAG (transf_file_name m) = wf_TAG m"
  by (simp add: wf_TAG_def transf_file_name_def)

lemma process_blocks:
  assumes "masg mon = Some m0" "wf_TAG m0" "length (backup_f_name mon) = BACKUP_F_NAME"
    "\<forall>(pad, d) \<in> set ds. length pad = 2 \<and> client_block mac name F d" "file_ready mac name w"
  shows "\<exists>mon' w'. mon_process pth (map (\<lambda>(pad, d). Rv_bytes (data_image pad d)) ds @ [Rv_end]) mon w =
       Some (Inr (mon', w', Returned)) \<and> only_writes (backup_path mac name) w w' \<and>
       dirs w \<subseteq> dirs w' \<and> dirs w' \<subseteq> insert mac (dirs w) \<and> heart mon' = heart mon \<and>
       (\<exists>m. masg mon' = Some m \<and> wf_TAG m) \<and> length (backup_f_name mon') = BACKUP_F_NAME \<and>
       content_at w' (backup_path mac name) = splices NUL (content_at w (backup_path mac name))
         (map (\<lambda>(pad, d). block (TAG_of_data d)) ds)"
  using assms
proof (induction ds arbitrary: mon m0 w)
  case Nil
  then show ?case by (auto simp: splices_def only_writes_def content_at_def)
next
  case (Cons pd ds)
  obtain pad d where pd: "pd = (pad, d)" by (cases pd)
  let ?p = "backup_path mac name" and ?m = "TAG_of_data d"
  let ?mon = "mon\<lparr>masg := Some ?m\<rparr>"
  from Cons.prems(4) pd have d: "length pad = 2" "wf_data d" "t_sign ?m = 0" "names_ok ?m"
      "mac_of ?m = mac" "name_of ?m = name" "block_ok ?m"
    by (auto simp: client_block_def TAG_of_data_def)
  obtain mon1 w1 where w1: "mon_backup pth ?mon w = Inr (mon1, w1)"
      "fs w1 ?p = Some (splice_at NUL (content_at w ?p) (fst (block ?m)) (snd (block ?m)))"
      "only_writes ?p w w1" "dirs w1 = insert mac (dirs w)"
      "masg mon1 = Some (transf_file_name ?m)" "length (backup_f_name mon1) = BACKUP_F_NAME"
      "heart mon1 = heart mon"
    using backup_result [of ?mon ?m w pth] d(4-7) Cons.prems(3,5) by (auto simp: Let_def)
  have "file_ready mac name w1"
    using Cons.prems(5) w1(3,4)
    by (auto simp: file_ready_def dir_ready_def only_writes_def backup_path_def)
  moreover have "wf_TAG (transf_file_name ?m)" using d(2) by simp
  ultimately obtain mon' w' where
      "mon_process pth (map (\<lambda>(pad, d). Rv_bytes (data_image pad d)) ds @ [Rv_end]) mon1 w1 =
         Some (Inr (mon', w', Returned))"
      "only_writes ?p w1 w'" "dirs w1 \<subseteq> dirs w'" "dirs w' \<subseteq> insert mac (dirs w1)" "heart mon' = heart mon1"
      "\<exists>m. masg mon' = Some m \<and> wf_TAG m" "length (backup_f_name mon') = BACKUP_F_NAME"
      "content_at w' ?p = splices NUL (content_at w1 ?p) (map (\<lambda>(pad, d). block (TAG_of_data d)) ds)"
    using Cons.IH [OF w1(5) _ w1(6), of w1] Cons.prems(4) by auto
  moreover have "content_at w1 ?p = splice_at NUL (content_at w ?p) (fst (block ?m)) (snd (block ?m))"
    using w1(2) by (simp add: content_at_def)
  ultimately show ?case
    using w1(1,4,7) only_writes_trans [OF w1(3)] pd d(1-3) Cons.prems(1,2)
    by (auto simp: recv_into_whole splices_def)
qed

text \<open>The same for what \<open>recv\<close> makes of the bytes of the messages.\<close>

lemma frames_of_messages:
  assumes "\<forall>(pad, d) \<in> set ds. length pad = 2 \<and> client_block mac name F d"
  shows "map Rv_bytes (frames sizeof_data (concat (map (\<lambda>(pad, d). data_image pad d) ds))) =
    map (\<lambda>(pad, d). Rv_bytes (data_image pad d)) ds"
proof -
  have "\<forall>pd \<in> set ds. case pd of (pad, d) \<Rightarrow> length pad = 2 \<and> wf_data d"
    using assms by (auto simp: client_block_def)
  from to_server.frames_stream [OF this, of "[]"] show ?thesis by (simp add: comp_def split_def)
qed

section \<open>Sample objects\<close>

text \<open>The message of the client \<open>m1\<close> about the file \<open>d/f\<close>, and the object that holds it.\<close>

definition sample_data :: "int \<Rightarrow> int \<Rightarrow> int \<Rightarrow> string \<Rightarrow> data" where
  "sample_data left right sign bs =
     \<lparr>d_left = left, d_right = right, d_count = 0, d_sign = sign,
      d_mac = ''m1'' @ replicate 16 NUL, d_file_name = ''d/f'' @ replicate 253 NUL,
      d_length = 6, d_file_contents = bs @ replicate (4096 - length bs) NUL,
      d_events = ''open file'' @ replicate 247 NUL\<rparr>"

definition sample_RECOVER :: RECOVER where
  "sample_RECOVER =
     \<lparr>r_count = NUL, r_sign = NUL, r_mac_addr = c_memset 18, r_file_name = c_memset 256,
      r_data = c_memset 4096, r_event = c_memset 256, r_leth = c_memset 256\<rparr>"

definition sample_monitor :: "data \<Rightarrow> monitor" where
  "sample_monitor d =
     \<lparr>m_sockfd = 7, m_address = [], masg = Some (TAG_of_data d), rebag = Some sample_RECOVER,
      heart = Some sample_RECOVER, backup_f_name = c_memset BACKUP_F_NAME, mon_id = None\<rparr>"

definition sample_server :: server where
  "sample_server =
     \<lparr>fs = (\<lambda>_. None), dirs = {''.''}, denied = (\<lambda>_. False), epoll = (\<lambda>_. None),
      open_fds = {0, 1, 2, 7}, nonblocking = {}, sent = [], logs = [], hearts = []\<rparr>"

lemma sample_fields [simp]:
  "mac_of (TAG_of_data (sample_data l r s bs)) = ''m1''"
  "name_of (TAG_of_data (sample_data l r s bs)) = ''d/f''"
  "t_sign (TAG_of_data (sample_data l r s bs)) = s"
  "t_left (TAG_of_data (sample_data l r s bs)) = l"
  "t_right (TAG_of_data (sample_data l r s bs)) = r"
  "t_data (TAG_of_data (sample_data l r s bs)) = bs @ replicate (4096 - length bs) NUL"
  "d_sign (sample_data l r s bs) = s"
  by (simp_all add: sample_data_def TAG_of_data_def mac_of_def name_of_def cstr_def)

lemma sample_ok:
  assumes "is_long l" "is_long r" "is_int s" "length bs \<le> 4096"
  shows "wf_data (sample_data l r s bs)" "names_ok (TAG_of_data (sample_data l r s bs))"
  using assms
  by (simp_all add: sample_data_def TAG_of_data_def names_ok_def wf_data_def is_int_def)

lemma sample_ready: "file_ready ''m1'' ''d/f'' sample_server"
proof -
  have "parent_dir ''m1'' = ''.''" by code_simp
  then show ?thesis
    by (simp add: file_ready_def dir_ready_def sample_server_def backup_path_def slash_to_at_def)
qed

lemma sample_path: "backup_path ''m1'' ''d/f'' = ''m1/d@f''"
  by (simp add: backup_path_def slash_to_at_def)

section \<open>Properties\<close>

text \<open>
  Blocks of many files, sent by many clients, may arrive in any order and interleaved:
  monitors whose messages can be backed up, processed one after the other (each connection has
  its own object), leave every file for which the messages are blocks of \<open>F\<close> and together cover
  it with exactly the content \<open>F\<close>, followed by what an older and longer version had past its
  end, since the file is opened without truncation. No other file is touched.
\<close>

lemma backup_any_order:
  assumes "\<forall>mon \<in> set mons. backs_up w mon"
  shows "\<exists>w'. backup_all pth mons w = Inr w' \<and>
     (\<forall>p F. (\<forall>mon \<in> set mons. path_in mon = p \<longrightarrow> block_of F (block_in mon)) \<longrightarrow>
        (\<forall>i < length F. covers (map block_in (filter (\<lambda>mon. path_in mon = p) mons)) i) \<longrightarrow>
        content_at w' p = F @ drop (length F) (content_at w p)) \<and>
     (\<forall>p. p \<notin> path_in ` set mons \<longrightarrow> fs w' p = fs w p)"
proof -
  obtain w' where w': "backup_all pth mons w = Inr w'"
      "\<And>p. content_at w' p = splices NUL (content_at w p) (map block_in (filter (\<lambda>mon. path_in mon = p) mons))"
      "\<forall>p. p \<notin> path_in ` set mons \<longrightarrow> fs w' p = fs w p"
    using backup_all_result [OF assms, of pth] by blast
  have "content_at w' p = F @ drop (length F) (content_at w p)"
    if "\<forall>mon \<in> set mons. path_in mon = p \<longrightarrow> block_of F (block_in mon)"
      "\<forall>i < length F. covers (map block_in (filter (\<lambda>mon. path_in mon = p) mons)) i" for p F
    unfolding w'(2) by (rule splices_cover) (use that in auto)
  with w'(1,3) show ?thesis by blast
qed

text \<open>Another file of the same client.\<close>

definition sample_g :: data where
  "sample_g = (sample_data 0 1 0 ''x'')\<lparr>d_file_name := ''g'' @ c_memset 255\<rparr>"

lemma sample_g_path: "backup_path ''m1'' ''g'' = ''m1/g''"
  by (simp add: backup_path_def slash_to_at_def)

lemma sample_g_fields:
  "mac_of (TAG_of_data sample_g) = ''m1''" "name_of (TAG_of_data sample_g) = ''g''"
  "names_ok (TAG_of_data sample_g)" "block (TAG_of_data sample_g) = (0, ''x'')"
  "block_ok (TAG_of_data sample_g)" "wf_data sample_g" "d_sign sample_g = 0"
  using sample_ok [of 0 1 0 "''x''"]
  by (simp_all add: mac_of_def name_of_def names_ok_def block_def block_ok_def TAG_of_data_def sample_data_def
      sample_g_def cstr_def c_memset_def is_long_def is_int_def wf_data_def)

lemma backup_any_order_example:
  "\<exists>w'. backup_all 5 [sample_monitor (sample_data 2 5 0 ''cde''),
        sample_monitor sample_g,
        sample_monitor (sample_data 0 2 0 ''ab'')]
      (sample_server\<lparr>fs := [''m1/d@f'' \<mapsto> ''OLDOLD9'']\<rparr>) = Inr w' \<and>
     content_at w' ''m1/d@f'' = ''abcdeD9'' \<and> content_at w' ''m1/g'' = ''x'' \<and> fs w' ''m2/g'' = None"
proof -
  let ?d1 = "sample_data 2 5 0 ''cde''" and ?d2 = "sample_data 0 2 0 ''ab''"
  let ?d3 = sample_g
  let ?mons = "[sample_monitor ?d1, sample_monitor ?d3, sample_monitor ?d2]"
  let ?w = "sample_server\<lparr>fs := [''m1/d@f'' \<mapsto> ''OLDOLD9'']\<rparr>"
  note d3 = sample_g_fields
  have blocks: "block (TAG_of_data ?d1) = (2, ''cde'')" "block (TAG_of_data ?d2) = (0, ''ab'')"
      "block_ok (TAG_of_data ?d1)" "block_ok (TAG_of_data ?d2)"
    by (simp_all add: block_def block_ok_def)
  note g = sample_g_path
  have ready: "file_ready ''m1'' ''d/f'' ?w" "file_ready ''m1'' ''g'' ?w"
    using sample_ready g by (simp_all add: file_ready_def dir_ready_def sample_server_def)
  have "\<forall>mon \<in> set ?mons. backs_up ?w mon"
    using sample_ok(2) [of 2 5 0 "''cde''"] sample_ok(2) [of 0 2 0 "''ab''"] d3 blocks ready
    by (simp add: backs_up_def sample_monitor_def c_memset_def is_long_def is_int_def)
  from backup_any_order [OF this, of 5] obtain w' where w': "backup_all 5 ?mons ?w = Inr w'"
      "\<And>p F. (\<forall>mon \<in> set ?mons. path_in mon = p \<longrightarrow> block_of F (block_in mon)) \<Longrightarrow>
        (\<forall>i < length F. covers (map block_in (filter (\<lambda>mon. path_in mon = p) ?mons)) i) \<Longrightarrow>
        content_at w' p = F @ drop (length F) (content_at ?w p)"
      "\<And>p. p \<notin> path_in ` set ?mons \<Longrightarrow> fs w' p = fs ?w p"
    by blast
  have at: "path_in (sample_monitor ?d1) = ''m1/d@f''" "path_in (sample_monitor ?d2) = ''m1/d@f''"
      "path_in (sample_monitor ?d3) = ''m1/g''" "block_in (sample_monitor ?d1) = (2, ''cde'')"
      "block_in (sample_monitor ?d2) = (0, ''ab'')" "block_in (sample_monitor ?d3) = (0, ''x'')"
    using d3 blocks sample_path g by (simp_all add: path_in_def block_in_def sample_monitor_def)
  have "content_at w' ''m1/d@f'' = ''abcde'' @ drop (length ''abcde'') (content_at ?w ''m1/d@f'')"
    by (rule w'(2)) (auto simp: at covers_def block_of_def)
  moreover have "content_at w' ''m1/g'' = ''x'' @ drop (length ''x'') (content_at ?w ''m1/g'')"
    by (rule w'(2)) (auto simp: at covers_def block_of_def)
  moreover have "fs w' ''m2/g'' = fs ?w ''m2/g''" by (rule w'(3)) (simp add: at)
  ultimately show ?thesis using w'(1) by (simp add: content_at_def)
qed

text \<open>
  A connection that sends the blocks of a file back to back and closes: \<open>process\<close> cuts the
  stream into messages, backs each block up and returns when the client has closed, and the
  backup is the file (with an older, longer version's tail).
\<close>

lemma process_backs_up_stream:
  assumes "masg mon = Some m0" "wf_TAG m0" "length (backup_f_name mon) = BACKUP_F_NAME"
    and "\<forall>(pad, d) \<in> set ds. length pad = 2 \<and> client_block mac name F d"
    and "\<forall>i < length F. covers (map (\<lambda>(pad, d). block (TAG_of_data d)) ds) i"
    and "file_ready mac name w"
  shows "\<exists>mon' w'.
      mon_process pth
        (map Rv_bytes (frames sizeof_data (concat (map (\<lambda>(pad, d). data_image pad d) ds))) @ [Rv_end])
        mon w = Some (Inr (mon', w', Returned)) \<and>
      content_at w' (backup_path mac name) =
        F @ drop (length F) (content_at w (backup_path mac name)) \<and>
      only_writes (backup_path mac name) w w'"
proof -
  have "\<forall>b \<in> set (map (\<lambda>(pad, d). block (TAG_of_data d)) ds). block_of F b"
    using assms(4) by (auto simp: client_block_def)
  note splices_cover [OF this assms(5)]
  then show ?thesis
    using process_blocks [OF assms(1-4,6), of pth] unfolding frames_of_messages [OF assms(4)] by auto
qed

lemma process_backs_up_stream_example:
  "\<exists>mon' w'. mon_process 5
      (map Rv_bytes (frames sizeof_data (data_image ''xy'' (sample_data 0 3 0 ''abc''))) @ [Rv_end])
      (sample_monitor (sample_data 0 0 0 [])) sample_server = Some (Inr (mon', w', Returned)) \<and>
     content_at w' ''m1/d@f'' = ''abc''"
proof -
  let ?d = "sample_data 0 3 0 ''abc''" and ?mon = "sample_monitor (sample_data 0 0 0 [])"
  have "wf_TAG (TAG_of_data (sample_data 0 0 0 []))" "client_block ''m1'' ''d/f'' ''abc'' ?d"
    using sample_ok [of 0 0 0 "[]"] sample_ok [of 0 3 0 "''abc''"]
    by (simp_all add: client_block_def block_ok_def block_def block_of_def is_long_def is_int_def)
  moreover have "\<forall>i < length ''abc''. covers [block (TAG_of_data ?d)] i"
    by (auto simp: covers_def block_def)
  ultimately show ?thesis
    using process_backs_up_stream [of ?mon "TAG_of_data (sample_data 0 0 0 [])" "[(''xy'', ?d)]"
        "''m1''" "''d/f''" "''abc''" sample_server 5] sample_ready
    by (auto simp: sample_path sample_monitor_def c_memset_def content_at_def sample_server_def)
qed

text \<open>
  \<open>recover\<close> sends the whole file back: if the requested file can be read, it returns after
  sending one message per 4095 bytes; each is marked as file data, carries the client's
  address and the file name with its slashes restored, and the pieces, each filled up with
  NULs, are the file's content in order. The server's files do not change.
\<close>

lemma recover_sends_file:
  assumes "recover_ready mon m"
    and "open_rdonly (backup_path (mac_of m) (name_of m)) w = Op_file content"
  shows "\<exists>mon' w' rs. mon_recover mon w = Some (Inr (mon', w')) \<and>
     sent w' = sent w @ map (\<lambda>r. (m_sockfd mon, RECOVER_image r)) rs \<and>
     map r_data rs =
       map (\<lambda>c. c @ replicate (BUFF_SIZE - length c) NUL) (frames (BUFF_SIZE - 1) content) \<and>
     concat (frames (BUFF_SIZE - 1) content) = content \<and>
     (\<forall>r \<in> set rs. wf_RECOVER r \<and> r_sign r = CHR ''1'' \<and> cstr (r_mac_addr r) = mac_of m \<and>
        cstr (r_file_name r) = map at_to_slash (map slash_to_at (name_of m))) \<and>
     fs w' = fs w"
  using recover_sends [OF assms] concat_frames [of "BUFF_SIZE - 1" content]
  by (auto simp: BUFF_SIZE_def)

lemma sample_recover_ready:
  "recover_ready (sample_monitor (sample_data 0 0 1 [])) (TAG_of_data (sample_data 0 0 1 []))"
  using sample_ok(2) [of 0 0 1 "[]"]
  by (simp add: recover_ready_def sample_monitor_def is_long_def is_int_def sample_RECOVER_def
      wf_RECOVER_def c_memset_def sample_data_def TAG_of_data_def)

lemma recover_sends_file_example:
  "\<exists>mon' w' r. mon_recover (sample_monitor (sample_data 0 0 1 []))
      (sample_server\<lparr>fs := [''m1/d@f'' \<mapsto> ''abc'']\<rparr>) = Some (Inr (mon', w')) \<and>
     sent w' = [(7, RECOVER_image r)] \<and> r_data r = ''abc'' @ replicate 4093 NUL \<and>
     cstr (r_file_name r) = ''d/f''"
proof -
  let ?w = "sample_server\<lparr>fs := [''m1/d@f'' \<mapsto> ''abc'']\<rparr>"
  have "open_rdonly (backup_path ''m1'' ''d/f'') ?w = Op_file ''abc''"
    by (simp add: sample_path open_rdonly_def sample_server_def is_dir_def)
  moreover have "frames 4095 ''abc'' = [''abc'']" by (subst frames.simps) simp
  moreover have "map at_to_slash (map slash_to_at ''d/f'') = ''d/f''"
    by (simp add: at_to_slash_def slash_to_at_def)
  ultimately show ?thesis
    using recover_sends_file [OF sample_recover_ready, of ?w "''abc''"]
    by (auto simp: sample_monitor_def sample_server_def BUFF_SIZE_def map_eq_Cons_conv)
qed

text \<open>
  C35. A request for a file that is not there never ends: when the backup cannot be opened, or
  is a directory, every \<open>read\<close> answers -1, which the loop takes for data, and the worker
  thread sends messages without end.
\<close>

theorem recover_missing_file_hangs:
  assumes "recover_ready mon m"
    and "\<forall>content. open_rdonly (backup_path (mac_of m) (name_of m)) w \<noteq> Op_file content"
  shows "mon_recover mon w = None"
proof -
  have "(case open_rdonly (backup_path (mac_of m) (name_of m)) w of
      Op_file bs \<Rightarrow> Some bs | _ \<Rightarrow> None) = None"
    using assms(2) by (simp split: opened.splits)
  with recover_start [OF assms(1), of w] show ?thesis by (auto simp: recover_loop_stuck)
qed

lemma recover_missing_file_hangs_witness:
  "mon_recover (sample_monitor (sample_data 0 0 1 [])) sample_server = None"
  by (rule recover_missing_file_hangs [OF sample_recover_ready])
     (simp add: sample_path open_rdonly_def sample_server_def is_dir_def)

text \<open>
  C32. The encoding of file names is undone by the decoding exactly for names without \<open>@\<close>, and
  two files with such names, of clients whose addresses hold no slash, never share a backup;
  but any name shares its backup with the one whose slashes are written as \<open>@\<close>.
\<close>

theorem file_name_codec:
  shows "(r_file_name (recover_file_name (r\<lparr>r_file_name := t_file_name (transf_file_name m)\<rparr>)) =
            t_file_name m \<longleftrightarrow> CHR ''@'' \<notin> set (t_file_name m)) \<and>
         inj_on (\<lambda>(mac, name). backup_path mac name)
           {(mac, name). CHR ''/'' \<notin> set mac \<and> CHR ''@'' \<notin> set name} \<and>
         backup_path mac (t_file_name (transf_file_name m)) = backup_path mac (t_file_name m)"
  using backup_path_inj map_at_slash [of "t_file_name m"]
  by (auto simp: recover_file_name_def transf_file_name_def inj_on_def backup_path_def slash_to_at_def)

text \<open>
  A message cut short by the end of the connection is executed as if it were whole: the
  bytes that did not arrive are those of the message before it.
\<close>

lemma truncated_message_executed:
  assumes "masg mon = Some m0" "wf_TAG m0" "bs \<noteq> []" "length bs \<le> sizeof_data"
  shows "\<exists>whole. length whole = sizeof_data \<and> take (length bs) whole = bs \<and>
           drop (length bs) whole = drop (length bs) (TAG_image [NUL, NUL] m0) \<and>
           mon_process pth (map Rv_bytes (frames sizeof_data bs) @ evs) mon w =
             mon_process pth (Rv_bytes whole # evs) mon w"
proof -
  let ?whole = "bs @ drop (length bs) (TAG_image [NUL, NUL] m0)"
  have len: "length ?whole = sizeof_data" using assms(2,4) by (simp add: length_TAG_image)
  have "frames sizeof_data bs = [bs]"
    using assms(3,4) by (subst frames_step) (simp_all add: sizeof_data_def)
  moreover have "recv_into ?whole m0 = recv_into bs m0"
    using len assms(2) by (simp add: recv_into_def length_TAG_image)
  ultimately show ?thesis using assms(1) len by (intro exI [of _ ?whole]) (simp add: Let_def)
qed

lemma truncated_message_executed_example:
  "\<exists>whole. length whole = sizeof_data \<and> take 1 whole = ''x'' \<and>
     mon_process 5 (map Rv_bytes (frames sizeof_data ''x'') @ [Rv_end])
       (sample_monitor (sample_data 0 0 0 [])) sample_server =
     mon_process 5 [Rv_bytes whole, Rv_end] (sample_monitor (sample_data 0 0 0 [])) sample_server"
  using truncated_message_executed [of "sample_monitor (sample_data 0 0 0 [])"
      "TAG_of_data (sample_data 0 0 0 [])" "''x''" 5 "[Rv_end]" sample_server]
    sample_ok(1) [of 0 0 0 "[]"]
  by (auto simp: sample_monitor_def sizeof_data_def is_long_def is_int_def)



end
