(* ===== verification/Server_Main.thy ===== *)
theory Server_Main
  imports Server_Monitor Server_Pool Log_Model
begin

text \<open>
  The server's main program, \<open>server/ser.cpp\<close>: start-up, and the loop that dispatches the
  events of epoll to the monitors and the thread pool. A run of the server is a list of
  actions: an event that epoll has for a descriptor, a failing \<open>epoll_wait\<close>, a worker that takes a request from the
  pool and runs \<open>process\<close> on it, a turn of a heartbeat thread. Requests are pointers into the
  array \<open>users\<close>, so the pool holds indices. The outcomes of system calls are arguments.
\<close>

section \<open>State and start-up\<close>

definition MAX_FD :: nat where "MAX_FD = 1024"

text \<open>What the process does with a signal; the handler runs with all signals blocked.\<close>

datatype handler = SIG_DFL | SIG_IGN

record sigact =
  sa_handler :: handler
  sa_restart :: bool

definition SIGPIPE :: int where "SIGPIPE = 13"

record ser =
  world :: server
  users :: "monitor list"
  pool_of :: "nat tp"
  listenfd :: int
  fd_limit :: nat
  conns :: nat
  signals :: "int \<Rightarrow> sigact option"

record os_results =
  os_sigaction :: int
  os_socket :: int
  os_bind :: int
  os_listen :: int
  os_epoll :: int
  os_threads :: "(int \<times> int) list"
  os_now :: "tm \<times> int"
  os_reopen :: bool

datatype ser_start = Exited int | Aborted | Started ser

text \<open>\<open>addsig\<close>, whose assertion fails (\<open>None\<close>) when \<open>sigaction\<close> answers -1.\<close>

definition addsig ::
    "int \<Rightarrow> int \<Rightarrow> handler \<Rightarrow> bool \<Rightarrow> (int \<Rightarrow> sigact option) \<Rightarrow> (int \<Rightarrow> sigact option) option" where
  "addsig rc sig handler restart table =
     (if rc = - 1 then None
      else Some (table(sig \<mapsto> \<lparr>sa_handler = handler, sa_restart = restart\<rparr>)))"

text \<open>
  A call of the network that fails: the reason goes to the log, which is flushed, at the time
  \<open>os_now\<close> (\<open>os_reopen\<close> is the \<open>fopen\<close> of a rotation), and the process exits.
\<close>

definition start_fails :: "string \<Rightarrow> parg list \<Rightarrow> os_results \<Rightarrow> log \<Rightarrow> (ser_start \<times> log) res" where
  "start_fails fmt args os lg =
     bind_res (write_log 3 fmt args (fst (os_now os)) (snd (os_now os)) (os_reopen os) lg)
       (\<lambda>lg'. Inr (Exited 1, log_flush lg'))"

text \<open>
  \<open>main\<close> up to its loop, on the arguments after the program name; \<open>log0\<close> is the logger
  before the start, \<open>w0\<close> the process's files and descriptors, \<open>mons\<close> the fresh objects of
  \<open>new monitor[MAX_FD]\<close>. The pool's constructor has its default arguments. The result of
  opening the log is not looked at.
\<close>

definition ser_main ::
    "string list \<Rightarrow> tm \<Rightarrow> bool \<Rightarrow> (nat \<Rightarrow> char) \<Rightarrow> log \<Rightarrow> os_results \<Rightarrow> monitor list \<Rightarrow> nat \<Rightarrow>
     server \<Rightarrow> (ser_start \<times> log) res" where
  "ser_main args t fopen_ok garbage log0 os mons limit w0 =
     bind_res (log_init ''var/log/mylog.log'' 8192 2000000 0 t fopen_ok garbage log0) (\<lambda>(_, lg).
     if length args < 2 then Inr (Exited 1, lg)
     else (case addsig (os_sigaction os) SIGPIPE SIG_IGN True (\<lambda>_. None) of
       None \<Rightarrow> Inr (Aborted, lg)
     | Some table \<Rightarrow>
       bind_res (tp_ctor 20 10000 (os_threads os) 0 []) (\<lambda>r. case r of
         Tp_thrown _ _ \<Rightarrow> Inr (Exited 1, lg)
       | Tp_built p _ _ \<Rightarrow>
           (if os_socket os < 0 then start_fails ''Creat Socket Failed'' [PInt 0] os lg
            else if os_bind os = - 1 then start_fails ''Server Bind Failed!'' [PInt 0] os lg
            else if os_listen os = - 1
            then start_fails ''Server Listen Failed! [fd=%d]'' [PInt (os_socket os)] os lg
            else if os_epoll os = - 1 then Inr (Aborted, lg)
            else
              let w1 = w0\<lparr>open_fds := {os_socket os, os_epoll os} \<union> open_fds w0\<rparr> in
              Inr (Started \<lparr>world = addfd (os_socket os) False w1, users = mons, pool_of = p,
                            listenfd = os_socket os, fd_limit = limit, conns = 0, signals = table\<rparr>, lg)))))"

section \<open>Dispatching an event\<close>

text \<open>\<open>accept\<close> gives the lowest descriptor that is not open, below the process's limit.\<close>

definition accept_fd :: "nat \<Rightarrow> server \<Rightarrow> int option" where
  "accept_fd limit w = find (\<lambda>fd. fd \<notin> open_fds w) (map int [0..<limit])"

definition handle_accept :: "string \<Rightarrow> nat option \<Rightarrow> ser \<Rightarrow> ser option res" where
  "handle_accept addr tid s =
     (case accept_fd (fd_limit s) (world s) of
        None \<Rightarrow>
          Inr (Some (s\<lparr>world := flush_call (log_call 3 '' accept errno [fd=%d]'' [PInt (listenfd s)]
                                            (world s))\<rparr>))
      | Some connfd \<Rightarrow>
          (let w1 = (world s)\<lparr>open_fds := insert connfd (open_fds (world s))\<rparr> in
           bind_res (arr_get (users s) connfd) (\<lambda>mon.
           bind_res (mon_init connfd addr tid mon w1) (\<lambda>r. case r of
             None \<Rightarrow> Inr None
           | Some (mon', w2) \<Rightarrow>
               Inr (Some (s\<lparr>world := w2, users := (users s)[nat connfd := mon'],
                            conns := conns s + 1\<rparr>))))))"

definition handle_hangup :: "int \<Rightarrow> ser \<Rightarrow> ser res" where
  "handle_hangup sockfd s =
     (let w1 = flush_call (log_call 3 ''EPOLLREHUO|EPOLLHUP|EPOLLERR  sockfd =%d'' [PInt sockfd] (world s)) in
      bind_res (arr_get (users s) sockfd) (\<lambda>mon.
      case mon_id mon of
        None \<Rightarrow> Inl Indeterminate
      | Some t \<Rightarrow>
          (let w2 = w1\<lparr>hearts := filter (\<lambda>h. fst h \<noteq> t) (hearts w1)\<rparr> in
           Inr (s\<lparr>world := sys_close sockfd w2\<rparr>))))"

definition handle_input :: "int \<Rightarrow> ser \<Rightarrow> ser res" where
  "handle_input sockfd s =
     (let w1 = flush_call (log_call 1 ''deal with the client(%d)'' [PInt sockfd] (world s)) in
      bind_res (arr_get (users s) sockfd) (\<lambda>_.
        Inr (s\<lparr>world := w1, pool_of := snd (tp_append (Some (nat sockfd)) (pool_of s))\<rparr>)))"

text \<open>The body of the loop for one event; \<open>None\<close> is the end of the process.\<close>

definition handle_event ::
    "int \<Rightarrow> mask \<Rightarrow> string \<Rightarrow> nat option \<Rightarrow> ser \<Rightarrow> ser option res" where
  "handle_event sockfd events addr tid s =
     (if sockfd = listenfd s then handle_accept addr tid s
      else if events AND (EPOLLRDHUP OR EPOLLHUP OR EPOLLERR) \<noteq> 0
      then bind_res (handle_hangup sockfd s) (\<lambda>s'. Inr (Some s'))
      else if events AND EPOLLIN \<noteq> 0
      then bind_res (handle_input sockfd s) (\<lambda>s'. Inr (Some s'))
      else Inr (Some s))"

section \<open>Runs\<close>

datatype ser_act =
    Event int mask string "nat option"
  | Wait_failed bool
  | Work nat "recv_event list"
  | Beat nat

definition do_event :: "int \<Rightarrow> mask \<Rightarrow> string \<Rightarrow> nat option \<Rightarrow> ser \<Rightarrow> ser option res" where
  "do_event fd ready addr tid s =
     (case epoll_report fd ready (world s) of
        None \<Rightarrow> Inr (Some s)
      | Some (events, w) \<Rightarrow> handle_event fd events addr tid (s\<lparr>world := w\<rparr>))"

definition do_work :: "nat \<Rightarrow> recv_event list \<Rightarrow> ser \<Rightarrow> ser run" where
  "do_work pth evs s =
     (case tp_take (pool_of s) of
        None \<Rightarrow> Some (Inr s)
      | Some (None, p) \<Rightarrow> Some (Inr (s\<lparr>pool_of := p\<rparr>))
      | Some (Some i, p) \<Rightarrow>
          bind_run (Some (arr_get (users s) (int i))) (\<lambda>mon.
          bind_run (mon_process pth evs mon (world s)) (\<lambda>(mon', w, _).
            Some (Inr (s\<lparr>world := w, users := (users s)[i := mon'], pool_of := p\<rparr>)))))"

definition do_beat :: "nat \<Rightarrow> ser \<Rightarrow> ser res" where
  "do_beat t s =
     (case map_of (hearts (world s)) t of
        None \<Rightarrow> Inr s
      | Some i \<Rightarrow>
          bind_res (arr_get (users s) i) (\<lambda>c.
          bind_res (send_heart c (world s)) (\<lambda>(c', w).
            Inr (s\<lparr>world := w, users := (users s)[nat i := c']\<rparr>))))"

fun ser_do :: "ser_act \<Rightarrow> ser \<Rightarrow> ser option run" where
  "ser_do (Event fd ready addr tid) s = Some (do_event fd ready addr tid s)"
| "ser_do (Wait_failed interrupted) s = Some (Inr (if interrupted then Some s else None))"
| "ser_do (Work pth evs) s = bind_run (do_work pth evs s) (\<lambda>s'. Some (Inr (Some s')))"
| "ser_do (Beat t) s = Some (bind_res (do_beat t s) (\<lambda>s'. Inr (Some s')))"

fun ser_run :: "ser_act list \<Rightarrow> ser \<Rightarrow> ser option run" where
  "ser_run [] s = Some (Inr (Some s))"
| "ser_run (a # acts) s =
     bind_run (ser_do a s) (\<lambda>r. case r of
        None \<Rightarrow> Some (Inr None)
      | Some s' \<Rightarrow> ser_run acts s')"

section \<open>What every action keeps\<close>

text \<open>The part of the world that says which connections there are.\<close>

definition same_fds :: "server \<Rightarrow> server \<Rightarrow> bool" where
  "same_fds w w' \<longleftrightarrow> open_fds w' = open_fds w \<and> epoll w' = epoll w"

definition same_object :: "monitor \<Rightarrow> monitor \<Rightarrow> bool" where
  "same_object mon mon' \<longleftrightarrow> mon_id mon' = mon_id mon \<and> m_sockfd mon' = m_sockfd mon"

lemma same_refl [simp]: "same_fds w w" "same_object mon mon"
  by (simp_all add: same_fds_def same_object_def)

lemma same_trans:
  "same_fds w w' \<Longrightarrow> same_fds w' w'' \<Longrightarrow> same_fds w w''"
  "same_object m m' \<Longrightarrow> same_object m' m'' \<Longrightarrow> same_object m m''"
  by (simp_all add: same_fds_def same_object_def)

lemma sys_mkdir_fds: "open_fds (sys_mkdir p w) = open_fds w" "epoll (sys_mkdir p w) = epoll w"
  by (simp_all add: sys_mkdir_def)

lemma open_creat_fds:
  "open_fds (snd (open_creat p w)) = open_fds w" "epoll (snd (open_creat p w)) = epoll w"
  by (auto simp: open_creat_def split: option.splits)

lemma write_block_fds: "write_block fd m w = Inr w' \<Longrightarrow> same_fds w w'"
  by (auto simp: write_block_def pwrite_file_def same_fds_def Let_def split: option.splits if_splits)

lemma backup_keeps:
  "mon_backup pth mon w = Inr (mon', w') \<Longrightarrow> same_fds w w' \<and> same_object mon mon'"
  by (auto simp: mon_backup_def bind_res_eq_Inr Let_def same_object_def same_fds_def sys_mkdir_fds
      open_creat_fds case_prod_beta split: option.splits dest!: write_block_fds)

lemma recover_loop_keeps: "recover_loop sockfd rest r w = Some (r', w') \<Longrightarrow> same_fds w w'"
  using recover_loop_file [of sockfd "the rest" r w] recover_loop_stuck [of sockfd r w]
  by (cases rest) (auto simp: same_fds_def)

lemma bind_run_eq: "bind_run r f = Some (Inr y) \<longleftrightarrow> (\<exists>x. r = Some (Inr x) \<and> f x = Some (Inr y))"
  by (auto simp: bind_run_def split: option.splits sum.splits)

lemma case_pair_eq:
  "(case r of None \<Rightarrow> None | Some (a, b) \<Rightarrow> Some (Inr (f a b))) = Some (Inr y) \<longleftrightarrow>
     (\<exists>a b. r = Some (a, b) \<and> f a b = y)"
  by (auto split: option.splits)

lemma recover_keeps:
  "mon_recover mon w = Some (Inr (mon', w')) \<Longrightarrow> same_fds w w' \<and> same_object mon mon'"
  by (auto simp: mon_recover_def bind_run_eq Let_def same_object_def same_fds_def case_pair_eq
      split: opened.splits dest!: recover_loop_keeps)

lemma process_keeps:
  "mon_process pth evs mon w = Some (Inr (mon', w', e)) \<Longrightarrow> same_fds w w' \<and> same_object mon mon'"
proof (induction pth evs mon w rule: mon_process.induct)
  case (5 pth bs evs mon w)
  from "5.prems" obtain m0 where m0: "masg mon = Some m0" by (cases "masg mon") auto
  let ?mon = "mon\<lparr>masg := Some (recv_into bs m0)\<rparr>"
  have here: "same_object mon ?mon" by (simp add: same_object_def)
  consider "t_sign (recv_into bs m0) = 0" | "t_sign (recv_into bs m0) = 1"
    | "t_sign (recv_into bs m0) \<noteq> 0" "t_sign (recv_into bs m0) \<noteq> 1" by blast
  then show ?case
  proof cases
    case 1
    with "5.prems" m0 obtain m2 w2 where "mon_backup pth ?mon w = Inr (m2, w2)"
        "mon_process pth evs m2 w2 = Some (Inr (mon', w', e))"
      by (auto simp: Let_def bind_run_eq)
    with "5.IH"(1) [OF refl refl, of m0 m2 w2] 1 m0 have "same_fds w2 w'" "same_object m2 mon'" by auto
    moreover have "same_fds w w2" "same_object ?mon m2"
      using backup_keeps [OF \<open>mon_backup pth ?mon w = Inr (m2, w2)\<close>] by simp_all
    ultimately show ?thesis using here by (simp add: same_fds_def same_object_def)
  next
    case 2
    with "5.prems" m0 obtain m2 w2 where "mon_recover ?mon w = Some (Inr (m2, w2))"
        "mon_process pth evs m2 w2 = Some (Inr (mon', w', e))"
      by (auto simp: Let_def bind_run_eq)
    with "5.IH"(2) [OF refl refl, of m0 m2 w2] 2 m0 have "same_fds w2 w'" "same_object m2 mon'" by auto
    moreover have "same_fds w w2" "same_object ?mon m2"
      using recover_keeps [OF \<open>mon_recover ?mon w = Some (Inr (m2, w2))\<close>] by simp_all
    ultimately show ?thesis using here by (simp add: same_fds_def same_object_def)
  next
    case 3
    with "5.IH"(3) [OF refl refl, of m0] "5.prems" m0 show ?thesis
      by (simp add: Let_def same_object_def)
  qed
qed (auto simp: same_fds_def)

section \<open>The invariant of a run\<close>

definition ser_ok :: "ser \<Rightarrow> bool" where
  "ser_ok s \<longleftrightarrow>
     length (users s) = MAX_FD \<and> (\<forall>mon \<in> set (users s). mon_id mon = None) \<and>
     finite (open_fds (world s))"

text \<open>
  How the connections change: descriptors are only added, one per accepted connection and
  all of them indices of \<open>users\<close>, and a registration that is disarmed stays so.
\<close>

definition grows :: "ser \<Rightarrow> ser \<Rightarrow> bool" where
  "grows s s' \<longleftrightarrow>
     open_fds (world s) \<subseteq> open_fds (world s') \<and> finite (open_fds (world s')) \<and>
     conns s' = conns s + card (open_fds (world s') - open_fds (world s)) \<and>
     open_fds (world s') - open_fds (world s) \<subseteq> {0..<int MAX_FD} \<and>
     (\<forall>fd \<in> open_fds (world s). \<forall>m.
        epoll (world s) fd = Some (m, False) \<longrightarrow> epoll (world s') fd = Some (m, False))"

lemma grows_trans:
  assumes "grows s s'" "grows s' s''"
  shows "grows s s''"
proof -
  let ?A = "open_fds (world s)" and ?B = "open_fds (world s')" and ?C = "open_fds (world s'')"
  have sub: "?A \<subseteq> ?B" "?B \<subseteq> ?C" "finite ?C" using assms by (auto simp: grows_def)
  then have "?C - ?A = (?C - ?B) \<union> (?B - ?A)" "(?C - ?B) \<inter> (?B - ?A) = {}" by auto
  then have "card (?C - ?A) = card (?C - ?B) + card (?B - ?A)"
    using sub by (simp add: card_Un_disjoint finite_subset)
  moreover have "?C - ?A \<subseteq> {0..<int MAX_FD}" using assms by (auto simp: grows_def)
  ultimately show ?thesis using assms sub by (auto simp: grows_def)
qed

lemma grows_same:
  "same_fds (world s) (world s') \<Longrightarrow> conns s' = conns s \<Longrightarrow> finite (open_fds (world s)) \<Longrightarrow> grows s s'"
  by (auto simp: grows_def same_fds_def)

lemma log_same_fds [simp]: "same_fds w (flush_call (log_call l f a w))"
  by (simp add: same_fds_def flush_call_def log_call_def)

lemma users_update_ok: "length us = n \<Longrightarrow> \<forall>mon \<in> set us. P mon \<Longrightarrow> P m \<Longrightarrow>
    length (us[i := m]) = n \<and> (\<forall>mon \<in> set (us[i := m]). P mon)"
  using set_update_subset_insert [of us i m] by auto

lemma accept_fd_Some:
  "accept_fd limit w = Some fd \<Longrightarrow> fd \<notin> open_fds w \<and> 0 \<le> fd \<and> fd < int limit"
  by (auto simp: accept_fd_def find_Some_iff)

lemma mon_init_result:
  assumes "mon_init connfd addr tid mon w = Inr (Some (mon', w'))"
  shows "mon_id mon' = mon_id mon \<and> m_sockfd mon' = connfd \<and> open_fds w' = open_fds w \<and>
    epoll w' = epoll (addfd connfd True w)"
proof -
  obtain m t where "masg mon = Some m" "tid = Some t"
    using assms by (cases "masg mon"; cases tid) (auto simp: mon_init_def mon_init_private_def Let_def)
  then show ?thesis using assms
    by (auto simp: mon_init_def mon_init_private_def Let_def addfd_def)
qed

lemma arr_get_Inr: "arr_get xs i = Inr x \<Longrightarrow> 0 \<le> i \<and> i < int (length xs) \<and> x = xs ! nat i"
  by (auto simp: arr_get_def split: if_splits)

lemma handle_accept_ok:
  assumes "handle_accept addr tid s = Inr (Some s')" "ser_ok s"
  shows "ser_ok s' \<and> grows s s'"
proof (cases "accept_fd (fd_limit s) (world s)")
  case None
  with assms show ?thesis
    by (auto simp: handle_accept_def ser_ok_def intro!: grows_same)
      (simp_all add: flush_call_def log_call_def)
next
  case (Some connfd)
  let ?w1 = "(world s)\<lparr>open_fds := insert connfd (open_fds (world s))\<rparr>"
  obtain mon mon' w2 where m: "arr_get (users s) connfd = Inr mon"
      "mon_init connfd addr tid mon ?w1 = Inr (Some (mon', w2))"
      "s' = s\<lparr>world := w2, users := (users s)[nat connfd := mon'], conns := conns s + 1\<rparr>"
    using assms(1) Some by (auto simp: handle_accept_def Let_def bind_res_eq_Inr split: option.splits)
  note i = arr_get_Inr [OF m(1)] and n = mon_init_result [OF m(2)] and a = accept_fd_Some [OF Some]
  have "mon_id mon = None" using i assms(2) by (auto simp: ser_ok_def)
  with users_update_ok [of "users s" MAX_FD "\<lambda>mon. mon_id mon = None" mon' "nat connfd"] n m(3)
  have "ser_ok s'" using assms(2) by (simp add: ser_ok_def)
  moreover have "open_fds (world s') - open_fds (world s) = {connfd}" using n m(3) a by auto
  moreover have "epoll (world s') fd = epoll (world s) fd" if "fd \<in> open_fds (world s)" for fd
    using that n m(3) a by (auto simp: addfd_def Let_def)
  ultimately show ?thesis using n m(3) i assms(2) by (auto simp: grows_def ser_ok_def)
qed

lemma handle_hangup_faults:
  assumes "ser_ok s" "0 \<le> sockfd" "sockfd < int MAX_FD"
  shows "handle_hangup sockfd s = Inl Indeterminate"
proof -
  have "nat sockfd < length (users s)" using assms by (simp add: ser_ok_def)
  then have "mon_id (users s ! nat sockfd) = None" using assms(1) by (simp add: ser_ok_def)
  then show ?thesis using assms by (simp add: handle_hangup_def Let_def ser_ok_def)
qed

lemma handle_event_ok:
  assumes "handle_event fd events addr tid s = Inr (Some s')" "ser_ok s"
  shows "ser_ok s' \<and> grows s s'"
proof -
  have hup: "handle_hangup fd s \<noteq> Inr s1" for s1
  proof (cases "0 \<le> fd \<and> fd < int MAX_FD")
    case True
    then show ?thesis using handle_hangup_faults [OF assms(2)] by simp
  next
    case False
    then show ?thesis using assms(2) by (auto simp: handle_hangup_def Let_def arr_get_def ser_ok_def)
  qed
  have inp: "ser_ok s1 \<and> grows s s1" if "handle_input fd s = Inr s1" for s1
    using that assms(2)
    by (auto simp: handle_input_def Let_def bind_res_eq_Inr ser_ok_def intro!: grows_same)
      (simp_all add: flush_call_def log_call_def)
  have "ser_ok s \<and> grows s s" using assms(2) by (auto simp: ser_ok_def intro: grows_same)
  with assms hup inp handle_accept_ok show ?thesis
    by (auto simp: handle_event_def bind_res_eq_Inr split: if_splits)
qed

lemma epoll_report_ok:
  assumes "epoll_report fd ready w = Some (events, w')"
  shows "open_fds w' = open_fds w \<and>
    (\<forall>d m. epoll w d = Some (m, False) \<longrightarrow> epoll w' d = Some (m, False))"
  using assms by (auto simp: epoll_report_def split: option.splits if_splits)

lemma do_work_cases:
  assumes "do_work pth evs s = Some (Inr s')"
  obtains (idle) "s' = s" | (null) p where "s' = s\<lparr>pool_of := p\<rparr>"
    | (served) i p mon mon' w e where "arr_get (users s) (int i) = Inr mon"
        "mon_process pth evs mon (world s) = Some (Inr (mon', w, e))"
        "s' = s\<lparr>world := w, users := (users s)[i := mon'], pool_of := p\<rparr>"
proof (cases "tp_take (pool_of s)")
  case None
  with assms show ?thesis by (intro idle) (simp add: do_work_def)
next
  case (Some rp)
  obtain r p where rp: "rp = (r, p)" by (cases rp)
  show ?thesis
  proof (cases r)
    case None
    with assms Some rp show ?thesis by (intro null [of p]) (simp add: do_work_def)
  next
    case (Some i)
    with assms \<open>tp_take (pool_of s) = Some rp\<close> rp obtain mon x where
        "arr_get (users s) (int i) = Inr mon" "mon_process pth evs mon (world s) = Some (Inr x)"
        "s' = s\<lparr>world := fst (snd x), users := (users s)[i := fst x], pool_of := p\<rparr>"
      by (auto simp: do_work_def bind_run_eq)
    then show ?thesis by (intro served [of i mon "fst x" "fst (snd x)" "snd (snd x)" p]) simp_all
  qed
qed

lemma do_beat_cases:
  assumes "do_beat t s = Inr s'"
  obtains (idle) "s' = s"
    | (beat) i c c' w where "arr_get (users s) i = Inr c" "send_heart c (world s) = Inr (c', w)"
        "s' = s\<lparr>world := w, users := (users s)[nat i := c']\<rparr>"
proof (cases "map_of (hearts (world s)) t")
  case None
  with assms show ?thesis by (intro idle) (simp add: do_beat_def)
next
  case (Some i)
  with assms obtain c x where "arr_get (users s) i = Inr c" "send_heart c (world s) = Inr x"
      "s' = s\<lparr>world := snd x, users := (users s)[nat i := fst x]\<rparr>"
    by (auto simp: do_beat_def bind_res_eq_Inr)
  then show ?thesis by (intro beat [of i c "fst x" "snd x"]) simp_all
qed

lemma ser_do_ok:
  assumes "ser_do a s = Some (Inr (Some s'))" "ser_ok s"
  shows "ser_ok s' \<and> grows s s'"
proof (cases a)
  case (Event fd ready addr tid)
  show ?thesis
  proof (cases "epoll_report fd ready (world s)")
    case None
    with assms Event show ?thesis
      by (auto simp: do_event_def ser_ok_def intro: grows_same)
  next
    case (Some ew)
    obtain events w where ew: "ew = (events, w)" by (cases ew)
    let ?s = "s\<lparr>world := w\<rparr>"
    note r = epoll_report_ok [OF Some [unfolded ew]]
    have "ser_ok ?s" "grows s ?s" using assms(2) r by (auto simp: ser_ok_def grows_def)
    moreover have "handle_event fd events addr tid ?s = Inr (Some s')"
      using assms(1) Event Some ew by (simp add: do_event_def)
    ultimately show ?thesis using handle_event_ok grows_trans by blast
  qed
next
  case (Wait_failed b)
  with assms show ?thesis by (auto simp: ser_ok_def intro: grows_same split: if_splits)
next
  case (Work pth evs)
  then have "do_work pth evs s = Some (Inr s')" using assms(1) by (auto simp: bind_run_eq)
  then show ?thesis
  proof (cases rule: do_work_cases)
    case (served i p mon mon' w e)
    note k = process_keeps [OF served(2)]
    have "mon_id mon = None" using arr_get_Inr [OF served(1)] assms(2) by (auto simp: ser_ok_def)
    with users_update_ok [of "users s" MAX_FD "\<lambda>mon. mon_id mon = None" mon' i] k served(3) assms(2)
    show ?thesis by (auto simp: ser_ok_def same_fds_def same_object_def intro!: grows_same)
  qed (use assms(2) in \<open>auto simp: ser_ok_def intro!: grows_same\<close>)
next
  case (Beat t)
  then have "do_beat t s = Inr s'" using assms(1) by (auto simp: bind_res_eq_Inr)
  then show ?thesis
  proof (cases rule: do_beat_cases)
    case (beat i c c' w)
    have k: "mon_id c' = mon_id c" "same_fds (world s) w"
      using beat(2) by (auto simp: send_heart_def bind_res_eq_Inr Let_def send_to_def same_fds_def)
    have "mon_id c = None" using arr_get_Inr [OF beat(1)] assms(2) by (auto simp: ser_ok_def)
    with users_update_ok [of "users s" MAX_FD "\<lambda>mon. mon_id mon = None" c' "nat i"] k beat(3) assms(2)
    show ?thesis by (auto simp: ser_ok_def same_fds_def intro!: grows_same)
  qed (use assms(2) in \<open>auto simp: ser_ok_def intro!: grows_same\<close>)
qed

lemma ser_run_ok:
  "ser_run acts s = Some (Inr (Some s')) \<Longrightarrow> ser_ok s \<Longrightarrow> ser_ok s' \<and> grows s s'"
proof (induction acts arbitrary: s)
  case Nil
  then show ?case by (auto simp: ser_ok_def intro: grows_same)
next
  case (Cons a acts)
  then obtain s1 where "ser_do a s = Some (Inr (Some s1))" "ser_run acts s1 = Some (Inr (Some s'))"
    by (auto simp: bind_run_eq split: option.splits)
  with ser_do_ok Cons.prems(2) Cons.IH grows_trans show ?case by blast
qed

section \<open>Serving one client\<close>

lemma flag_values [simp]:
  "0x2001 OR EPOLLONESHOT = 0x40002001"
  "EPOLLIN OR EPOLLRDHUP = 0x2001"
  "EPOLLRDHUP OR EPOLLHUP OR EPOLLERR = 0x2018"
  "reportable 0x40002001 EPOLLIN = EPOLLIN" "reportable 0x2001 EPOLLIN = EPOLLIN"
  "EPOLLIN \<noteq> 0" "EPOLLIN AND 0x2018 = 0" "EPOLLIN AND EPOLLIN = EPOLLIN"
  "0x2001 AND EPOLLONESHOT = 0" "0x40002001 AND EPOLLONESHOT \<noteq> 0"
  by (simp_all add: epoll_flags reportable_def)

text \<open>The registrations of the listening socket and of a client's.\<close>

definition listening :: "ser \<Rightarrow> bool" where
  "listening s \<longleftrightarrow> epoll (world s) (listenfd s) = Some (0x2001, True)"

text \<open>The object a new connection will get.\<close>

definition fresh_object :: "monitor \<Rightarrow> bool" where
  "fresh_object mon \<longleftrightarrow> (\<exists>m. masg mon = Some m \<and> is_int (t_count m))"

definition after_accept :: "int \<Rightarrow> string \<Rightarrow> nat \<Rightarrow> monitor \<Rightarrow> monitor" where
  "after_accept c addr t mon =
     mon\<lparr>m_sockfd := c, m_address := addr,
         masg := map_option (\<lambda>m. m\<lparr>t_left := 0, t_right := 0, t_sign := 0, t_lenth := 0,
             t_mac_addr := c_memset 18, t_file_name := c_memset FILE_NAME_LEN,
             t_data := c_memset BUFF_SIZE, t_event := c_memset 256\<rparr>) (masg mon),
         backup_f_name := c_memset BACKUP_F_NAME\<rparr>"

lemma accept_step:
  assumes "ser_ok s" "listening s" "accept_fd (fd_limit s) (world s) = Some c" "c < int MAX_FD"
    "epoll (world s) c = None" "fresh_object (users s ! nat c)"
  shows "ser_do (Event (listenfd s) EPOLLIN addr (Some t)) s = Some (Inr (Some
     (s\<lparr>world := (world s)\<lparr>open_fds := insert c (open_fds (world s)),
                          epoll := (epoll (world s))(c \<mapsto> (0x40002001, True)),
                          hearts := hearts (world s) @ [(t, c)]\<rparr>,
        users := (users s)[nat c := after_accept c addr t (users s ! nat c)],
        conns := conns s + 1\<rparr>)))"
proof -
  have "epoll_report (listenfd s) EPOLLIN (world s) = Some (EPOLLIN, world s)"
    using assms(2) by (simp add: epoll_report_def listening_def)
  moreover have "arr_get (users s) c = Inr (users s ! nat c)"
    using assms(1,4) accept_fd_Some [OF assms(3)] by (simp add: ser_ok_def)
  ultimately show ?thesis using assms(3,5,6)
    by (auto simp: do_event_def handle_event_def handle_accept_def mon_init_def mon_init_private_def
        Let_def addfd_def fresh_object_def after_accept_def)
qed

lemma input_step:
  assumes "length (users s) = MAX_FD" "0 \<le> c" "c < int MAX_FD" "c \<noteq> listenfd s"
    "epoll (world s) c = Some (0x40002001, True)"
  shows "ser_do (Event c EPOLLIN addr tid) s = Some (Inr (Some
     (s\<lparr>world := flush_call (log_call 1 ''deal with the client(%d)'' [PInt c]
                   ((world s)\<lparr>epoll := (epoll (world s))(c \<mapsto> (0x40002001, False))\<rparr>)),
        pool_of := snd (tp_append (Some (nat c)) (pool_of s))\<rparr>)))"
proof -
  have "epoll_report c EPOLLIN (world s) =
      Some (EPOLLIN, (world s)\<lparr>epoll := (epoll (world s))(c \<mapsto> (0x40002001, False))\<rparr>)"
    using assms(5) by (simp add: epoll_report_def)
  then show ?thesis using assms(1-4)
    by (simp add: do_event_def handle_event_def handle_input_def Let_def)
qed

lemma after_accept_ready:
  assumes "fresh_object mon"
  shows "\<exists>m. masg (after_accept c addr t mon) = Some m \<and> wf_TAG m"
    "length (backup_f_name (after_accept c addr t mon)) = BACKUP_F_NAME"
  using assms
  by (auto simp: fresh_object_def after_accept_def wf_TAG_def is_long_def is_int_def c_memset_def
      FILE_NAME_LEN_def BUFF_SIZE_def)

section \<open>Serving one client\<close>

text \<open>
  The server waits for a client: its listening socket is registered, a descriptor \<open>c\<close> and a
  fresh object are free, the pool is idle, and the backup of the file can be written.
\<close>

definition server_waits :: "ser \<Rightarrow> int \<Rightarrow> string \<Rightarrow> string \<Rightarrow> bool" where
  "server_waits s c mac name \<longleftrightarrow>
     ser_ok s \<and> listening s \<and> accept_fd (fd_limit s) (world s) = Some c \<and> c < int MAX_FD \<and>
     c \<noteq> listenfd s \<and> epoll (world s) c = None \<and> fresh_object (users s ! nat c) \<and>
     tp_ok (pool_of s) \<and> m_workqueue (pool_of s) = [] \<and> file_ready mac name (world s)"

text \<open>A connection, its data and a worker.\<close>

definition one_client :: "int \<Rightarrow> string \<Rightarrow> nat \<Rightarrow> string \<Rightarrow> nat option \<Rightarrow> nat \<Rightarrow> string \<Rightarrow> ser \<Rightarrow> ser_act list" where
  "one_client c addr t addr' tid pth stream s =
     [Event (listenfd s) EPOLLIN addr (Some t), Event c EPOLLIN addr' tid,
      Work pth (map Rv_bytes (frames sizeof_data stream) @ [Rv_end])]"

text \<open>The world when a worker takes the connection's input up, and the run from there.\<close>

definition taken_up :: "int \<Rightarrow> nat \<Rightarrow> server \<Rightarrow> server" where
  "taken_up c t w =
     flush_call (log_call 1 ''deal with the client(%d)'' [PInt c]
       (w\<lparr>open_fds := insert c (open_fds w), hearts := hearts w @ [(t, c)],
          epoll := (epoll w)(c \<mapsto> (0x40002001, False))\<rparr>))"

lemma taken_up_simps [simp]:
  "fs (taken_up c t w) = fs w" "dirs (taken_up c t w) = dirs w" "denied (taken_up c t w) = denied w"
  "sent (taken_up c t w) = sent w" "open_fds (taken_up c t w) = insert c (open_fds w)"
  "epoll (taken_up c t w) = (epoll w)(c \<mapsto> (0x40002001, False))"
  by (simp_all add: taken_up_def flush_call_def)

lemma taken_up_views [simp]:
  "content_at (taken_up c t w) p = content_at w p" "open_rdonly p (taken_up c t w) = open_rdonly p w"
  "file_ready mac name (taken_up c t w) \<longleftrightarrow> file_ready mac name w"
  by (simp_all add: content_at_def open_rdonly_def is_dir_def file_ready_def dir_ready_def)

lemma serve_run:
  assumes "server_waits s c mac name"
    and "mon_process pth evs (after_accept c addr t (users s ! nat c)) (taken_up c t (world s)) =
           Some (Inr (mon', w', e))"
  shows "\<exists>s'. ser_run [Event (listenfd s) EPOLLIN addr (Some t), Event c EPOLLIN addr' tid, Work pth evs] s =
       Some (Inr (Some s')) \<and> world s' = w' \<and> m_workqueue (pool_of s') = []"
proof -
  have w: "ser_ok s" "listening s" "accept_fd (fd_limit s) (world s) = Some c" "c < int MAX_FD"
    "c \<noteq> listenfd s" "epoll (world s) c = None" "fresh_object (users s ! nat c)"
    "tp_ok (pool_of s)" "m_workqueue (pool_of s) = []"
    using assms(1) by (simp_all add: server_waits_def)
  let ?mon = "after_accept c addr t (users s ! nat c)"
  let ?w1 = "(world s)\<lparr>open_fds := insert c (open_fds (world s)),
      epoll := (epoll (world s))(c \<mapsto> (0x40002001, True)), hearts := hearts (world s) @ [(t, c)]\<rparr>"
  let ?s1 = "s\<lparr>world := ?w1, users := (users s)[nat c := ?mon], conns := conns s + 1\<rparr>"
  let ?p = "snd (tp_append (Some (nat c)) (pool_of s))"
  let ?s2 = "?s1\<lparr>world := taken_up c t (world s), pool_of := ?p\<rparr>"
  note c = accept_fd_Some [OF w(3)]
  have step1: "ser_do (Event (listenfd s) EPOLLIN addr (Some t)) s = Some (Inr (Some ?s1))"
    by (rule accept_step [OF w(1-4,6,7)])
  have len: "length (users ?s1) = MAX_FD" using w(1) by (simp add: ser_ok_def)
  have step2: "ser_do (Event c EPOLLIN addr' tid) ?s1 = Some (Inr (Some ?s2))"
    using input_step [of ?s1 c addr' tid] len c w(4,5) by (simp add: taken_up_def)
  have p: "m_workqueue ?p = [Some (nat c)]"
    using w(8,9) by (auto simp: tp_append_def tp_append_locked_ok tp_room_def tp_ok_def)
  have mon: "arr_get (users ?s2) (int (nat c)) = Inr ?mon"
    using len c w(4) by (simp add: nat_less_iff)
  have take: "tp_take ?p = Some (Some (nat c), ?p\<lparr>m_workqueue := []\<rparr>)"
    using p by (simp add: tp_take_def)
  let ?s3 = "?s2\<lparr>world := w', users := (users ?s2)[nat c := mon'], pool_of := ?p\<lparr>m_workqueue := []\<rparr>\<rparr>"
  have "ser_do (Work pth evs) ?s2 = Some (Inr (Some ?s3))"
    using take mon assms(2) by (simp add: do_work_def)
  with step1 step2 show ?thesis by simp
qed

lemma serve_stream:
  assumes "server_waits s c mac name"
    and "\<forall>(pad, d) \<in> set ds. length pad = 2 \<and> client_block mac name F d"
    and "\<forall>i < length F. covers (map (\<lambda>(pad, d). block (TAG_of_data d)) ds) i"
  shows "\<exists>s'. ser_run (one_client c addr t addr' tid pth (concat (map (\<lambda>(pad, d). data_image pad d) ds)) s) s =
        Some (Inr (Some s')) \<and>
      content_at (world s') (backup_path mac name) =
        F @ drop (length F) (content_at (world s) (backup_path mac name)) \<and>
      m_workqueue (pool_of s') = [] \<and> c \<in> open_fds (world s') \<and>
      epoll (world s') c = Some (0x40002001, False)"
proof -
  have w: "fresh_object (users s ! nat c)" "file_ready mac name (taken_up c t (world s))"
    using assms(1) by (simp_all add: server_waits_def)
  obtain mon' w' where w': "mon_process pth (map Rv_bytes (frames sizeof_data
      (concat (map (\<lambda>(pad, d). data_image pad d) ds))) @ [Rv_end]) (after_accept c addr t (users s ! nat c))
        (taken_up c t (world s)) = Some (Inr (mon', w', Returned))"
      "content_at w' (backup_path mac name) =
        F @ drop (length F) (content_at (taken_up c t (world s)) (backup_path mac name))"
      "only_writes (backup_path mac name) (taken_up c t (world s)) w'"
    using after_accept_ready [OF w(1), of c addr t] w(2)
      process_backs_up_stream [of "after_accept c addr t (users s ! nat c)" _ ds mac name F
        "taken_up c t (world s)" pth] assms(2,3) by blast
  then have "open_fds w' = insert c (open_fds (world s))" "epoll w' c = Some (0x40002001, False)"
    by (simp_all add: only_writes_def)
  with serve_run [OF assms(1) w'(1), of addr' tid] w'(2) show ?thesis by (auto simp: one_client_def)
qed

text \<open>
  A request for a backup on a connection that stays open: \<open>recv\<close> gives the whole messages that
  are there and waits for the rest of the next one.
\<close>

definition open_frames :: "nat \<Rightarrow> string \<Rightarrow> string list" where
  "open_frames n bs = take (length bs div n) (frames n bs)"

definition one_request :: "int \<Rightarrow> string \<Rightarrow> nat \<Rightarrow> string \<Rightarrow> nat option \<Rightarrow> nat \<Rightarrow> string \<Rightarrow> ser \<Rightarrow> ser_act list" where
  "one_request c addr t addr' tid pth stream s =
     [Event (listenfd s) EPOLLIN addr (Some t), Event c EPOLLIN addr' tid,
      Work pth (map Rv_bytes (open_frames sizeof_data stream))]"

lemma serve_request:
  assumes "server_waits s c mac name" "rebag (users s ! nat c) = Some r0" "wf_RECOVER r0"
    and "wf_data d" "d_sign d = 1" "length pad = 2" "length behind < sizeof_data"
    and "terminated (d_mac d)" "cstr (d_mac d) = mac" "terminated (d_file_name d)" "cstr (d_file_name d) = name"
    and "terminated (d_events d)" "open_rdonly (backup_path mac name) (world s) = Op_file content"
  shows "\<exists>s' rs. ser_run (one_request c addr t addr' tid pth (data_image pad d @ behind) s) s = Some (Inr (Some s')) \<and>
     sent (world s') = sent (world s) @ map (\<lambda>r. (c, RECOVER_image r)) rs \<and>
     map r_data rs = map (\<lambda>c. c @ replicate (BUFF_SIZE - length c) NUL) (frames (BUFF_SIZE - 1) content) \<and>
     (\<forall>r \<in> set rs. wf_RECOVER r \<and> r_sign r = CHR ''1'' \<and> cstr (r_mac_addr r) = mac \<and>
        terminated (r_file_name r) \<and> cstr (r_file_name r) = map at_to_slash (map slash_to_at name))"
proof -
  let ?m = "TAG_of_data d" and ?mon = "after_accept c addr t (users s ! nat c)"
  let ?mon1 = "?mon\<lparr>masg := Some ?m\<rparr>"
  have "fresh_object (users s ! nat c)" using assms(1) by (simp add: server_waits_def)
  then obtain m0 where m0: "masg ?mon = Some m0" "wf_TAG m0" "length (backup_f_name ?mon) = BACKUP_F_NAME"
    using after_accept_ready [of "users s ! nat c" c addr t] by blast
  have image: "length (data_image pad d) = sizeof_data"
    using to_server.image_width [of "(pad, d)"] assms(4,6) by simp
  have frames: "open_frames sizeof_data (data_image pad d @ behind) = [data_image pad d]"
    using frames_exact [OF to_server.width_pos image, of behind] image assms(7) to_server.width_pos
    by (simp add: open_frames_def div_add_self1)
  have m: "mac_of ?m = mac" "name_of ?m = name" "m_sockfd ?mon1 = c" "t_sign ?m = 1"
    using assms(5,9,11) by (simp_all add: mac_of_def name_of_def TAG_of_data_def after_accept_def)
  have "recover_ready ?mon1 ?m"
    using assms(2-4,8,10,12) m0(3)
    by (simp add: recover_ready_def names_ok_def TAG_of_data_def wf_data_def) (simp add: after_accept_def)
  from recover_sends [OF this, of "taken_up c t (world s)" content] assms(13) m
  obtain mon' w' rs where run: "mon_recover ?mon1 (taken_up c t (world s)) = Some (Inr (mon', w'))"
      "sent w' = sent (world s) @ map (\<lambda>r. (c, RECOVER_image r)) rs"
      "map r_data rs = map (\<lambda>c. c @ replicate (BUFF_SIZE - length c) NUL) (frames (BUFF_SIZE - 1) content)"
      "\<forall>r \<in> set rs. wf_RECOVER r \<and> r_sign r = CHR ''1'' \<and> cstr (r_mac_addr r) = mac \<and>
        terminated (r_file_name r) \<and> cstr (r_file_name r) = map at_to_slash (map slash_to_at name)"
    by auto
  have "mon_process pth (map Rv_bytes (open_frames sizeof_data (data_image pad d @ behind))) ?mon (taken_up c t (world s)) =
      Some (Inr (mon', w', Waiting))"
    unfolding frames using recv_into_whole [OF assms(4,6) m0(2)] m0(1) m(4) run(1) by (simp add: Let_def)
  from serve_run [OF assms(1) this, of addr' tid] obtain s' where
    "ser_run (one_request c addr t addr' tid pth (data_image pad d @ behind) s) s = Some (Inr (Some s'))" "world s' = w'"
    by (auto simp: one_request_def)
  with run(2-4) show ?thesis by auto
qed

section \<open>Properties\<close>

text \<open>
  One connection that brings the blocks of one file: the run ends with the file as the backup
  (and the tail of an older, longer version); the descriptor is left open and disarmed.
\<close>

lemma server_serves_client:
  assumes "server_waits s c mac name"
    and "\<forall>(pad, d) \<in> set ds. length pad = 2 \<and> client_block mac name F d"
    and "\<forall>i < length F. covers (map (\<lambda>(pad, d). block (TAG_of_data d)) ds) i"
  shows "\<exists>s'. ser_run
      [Event (listenfd s) EPOLLIN addr (Some t), Event c EPOLLIN addr' tid,
       Work pth (map Rv_bytes (frames sizeof_data (concat (map (\<lambda>(pad, d). data_image pad d) ds))) @ [Rv_end])]
      s = Some (Inr (Some s')) \<and>
      content_at (world s') (backup_path mac name) =
        F @ drop (length F) (content_at (world s) (backup_path mac name)) \<and>
      m_workqueue (pool_of s') = [] \<and> c \<in> open_fds (world s') \<and>
      epoll (world s') c = Some (0x40002001, False)"
  using serve_stream [OF assms] by (simp only: one_client_def)

text \<open>A freshly started server: descriptor 3 listens, 4 is the epoll instance.\<close>

definition sample_ser :: ser where
  "sample_ser =
     \<lparr>world = sample_server\<lparr>open_fds := {0, 1, 2, 3, 4}, epoll := [3 \<mapsto> (0x2001, True)]\<rparr>,
      users = replicate MAX_FD (sample_monitor (sample_data 0 0 0 [])),
      pool_of = tp_default, listenfd = 3, fd_limit = 1024, conns = 0, signals = (\<lambda>_. None)\<rparr>"

lemma find_upt_Suc: "n < m \<Longrightarrow> find P (map int [n..<m]) = (if P (int n) then Some (int n) else find P (map int [Suc n..<m]))"
  by (simp add: upt_conv_Cons)

lemma sample_ser_ok:
  "ser_ok sample_ser" "listening sample_ser"
  "accept_fd (fd_limit sample_ser) (world sample_ser) = Some 5"
  "fresh_object (users sample_ser ! 5)" "file_ready ''m1'' ''d/f'' (world sample_ser)"
  using sample_ready
  by (simp_all add: ser_ok_def sample_ser_def listening_def accept_fd_def find_upt_Suc MAX_FD_def
      sample_monitor_def fresh_object_def TAG_of_data_def sample_data_def is_int_def file_ready_def
      dir_ready_def sample_server_def)

lemma sample_waits: "server_waits sample_ser 5 ''m1'' ''d/f''"
  using sample_ser_ok tp_default_ok
  by (simp add: server_waits_def) (simp add: sample_ser_def sample_server_def MAX_FD_def)

lemma server_serves_client_example:
  "\<exists>s'. ser_run [Event 3 EPOLLIN [] (Some 9), Event 5 EPOLLIN [] None,
       Work 8 (map Rv_bytes (frames sizeof_data (data_image ''xy'' (sample_data 0 3 0 ''abc''))) @ [Rv_end])]
      sample_ser = Some (Inr (Some s')) \<and> content_at (world s') ''m1/d@f'' = ''abc''"
proof -
  let ?d = "sample_data 0 3 0 ''abc''"
  have "client_block ''m1'' ''d/f'' ''abc'' ?d"
    using sample_ok [of 0 3 0 "''abc''"]
    by (simp add: client_block_def block_ok_def block_def block_of_def is_long_def is_int_def)
  moreover have "\<forall>i < length ''abc''. covers [block (TAG_of_data ?d)] i"
    by (auto simp: covers_def block_def)
  ultimately show ?thesis
    using server_serves_client [OF sample_waits, of "[(''xy'', ?d)]" "''abc''" "[]" 9 "[]" None 8]
    by (auto simp: sample_path content_at_def sample_ser_def sample_server_def)
qed

text \<open>
  C23. The server never closes a connection: in every run that does not fault, whatever the
  interleaving of events, workers and heartbeats, the descriptors of all connections ever
  accepted stay open, so over its whole life it accepts at most as many connections as
  \<open>users\<close> has entries whose descriptors were free at the start.
\<close>

theorem server_connections_bounded:
  assumes "ser_ok s" "ser_run acts s = Some (Inr (Some s'))"
  shows "open_fds (world s) \<subseteq> open_fds (world s') \<and>
         conns s' + card (open_fds (world s) \<inter> {0..<int MAX_FD}) \<le> conns s + MAX_FD"
proof -
  let ?A = "open_fds (world s)" and ?B = "open_fds (world s')" and ?I = "{0..<int MAX_FD}"
  have g: "grows s s'" using ser_run_ok [OF assms(2,1)] by simp
  then have "(?B - ?A) \<union> (?A \<inter> ?I) \<subseteq> ?I" by (auto simp: grows_def)
  then have "card ((?B - ?A) \<union> (?A \<inter> ?I)) \<le> card ?I" by (intro card_mono) auto
  moreover have "card ((?B - ?A) \<union> (?A \<inter> ?I)) = card (?B - ?A) + card (?A \<inter> ?I)"
    using g by (intro card_Un_disjoint) (auto simp: grows_def)
  ultimately show ?thesis using g by (auto simp: grows_def)
qed

lemma server_connections_bounded_witness:
  "\<exists>s'. ser_run [Event 3 EPOLLIN [] (Some 9)] sample_ser = Some (Inr (Some s')) \<and>
     5 \<in> open_fds (world s') \<and> {0, 1, 2, 3, 4} \<subseteq> open_fds (world s') \<and> conns s' + 5 \<le> 1024"
proof -
  obtain s' where s': "ser_run [Event 3 EPOLLIN [] (Some 9)] sample_ser = Some (Inr (Some s'))"
      "5 \<in> open_fds (world s')"
    using accept_step [OF sample_ser_ok(1-3), of "[]" 9] sample_ser_ok(4)
    by (simp add: sample_ser_def MAX_FD_def)
  have "{0, 1, 2, 3, 4} \<inter> {0..<1024} = {0, 1, 2, 3, 4 :: int}" by auto
  with server_connections_bounded [OF sample_ser_ok(1) s'(1)] s' show ?thesis
    by (auto simp: sample_ser_def MAX_FD_def)
qed

text \<open>
  C34. No disconnection is handled: in every state a server reaches, an event with hang-up,
  half-close or error for a client's socket makes the server use the thread id of the object,
  which was never set because \<open>init\<close> stores it in a local variable of the same name; and so
  it does when data is waiting together with the half-close.
\<close>

theorem server_disconnect_faults:
  assumes "ser_ok s" "ser_run acts s = Some (Inr (Some s'))"
    and "0 \<le> fd" "fd < int MAX_FD" "fd \<noteq> listenfd s'"
    and "epoll_report fd ready (world s') = Some (events, w)"
    and "events AND (EPOLLRDHUP OR EPOLLHUP OR EPOLLERR) \<noteq> 0"
  shows "ser_do (Event fd ready addr tid) s' = Some (Inl Indeterminate)"
proof -
  have "ser_ok (s'\<lparr>world := w\<rparr>)"
    using ser_run_ok [OF assms(2,1)] epoll_report_ok [OF assms(6)] by (simp add: ser_ok_def)
  from handle_hangup_faults [OF this assms(3,4)] assms(5-7) show ?thesis
    by (simp add: do_event_def handle_event_def)
qed

lemma hup_values [simp]:
  "reportable 0x40002001 (EPOLLIN OR EPOLLRDHUP) = 0x2001" "0x2001 AND 0x2018 \<noteq> (0 :: mask)"
  by (simp_all add: epoll_flags reportable_def)

lemma server_disconnect_faults_witness:
  "ser_run [Event 3 EPOLLIN [] (Some 9), Event 5 (EPOLLIN OR EPOLLRDHUP) [] None] sample_ser =
     Some (Inl Indeterminate)"
proof -
  obtain s' where s': "ser_do (Event 3 EPOLLIN [] (Some 9)) sample_ser = Some (Inr (Some s'))"
      "epoll (world s') 5 = Some (0x40002001, True)" "listenfd s' = 3"
    using accept_step [OF sample_ser_ok(1-3), of "[]" 9] sample_ser_ok(4)
    by (simp add: sample_ser_def MAX_FD_def)
  then obtain w where w: "epoll_report 5 (EPOLLIN OR EPOLLRDHUP) (world s') = Some (0x2001, w)"
    using hup_values by (simp add: epoll_report_def)
  have run: "ser_run [Event 3 EPOLLIN [] (Some 9)] sample_ser = Some (Inr (Some s'))"
    using s'(1) by simp
  have "ser_do (Event 5 (EPOLLIN OR EPOLLRDHUP) [] None) s' = Some (Inl Indeterminate)"
    by (rule server_disconnect_faults [OF sample_ser_ok(1) run _ _ _ w]) (simp_all add: s'(3) MAX_FD_def)
  with s'(1) show ?thesis by simp
qed

text \<open>
  C38. A request that finds the pool full is lost for good: \<open>append\<close>'s refusal is ignored, the
  connection's registration has just been disarmed and nothing arms it again, so in no
  further run does epoll report the connection.
\<close>

theorem server_full_pool_drops:
  assumes "ser_ok s" "0 \<le> c" "c < int MAX_FD" "c \<noteq> listenfd s" "c \<in> open_fds (world s)"
    and "epoll (world s) c = Some (0x40002001, True)"
    and "tp_ok (pool_of s)" "\<not> tp_room (pool_of s)"
  shows "\<exists>s1. ser_do (Event c EPOLLIN addr tid) s = Some (Inr (Some s1)) \<and>
           pool_of s1 = pool_of s \<and>
           (\<forall>acts s2 ready. ser_run acts s1 = Some (Inr (Some s2)) \<longrightarrow>
              epoll_report c ready (world s2) = None)"
proof -
  let ?w = "flush_call (log_call 1 ''deal with the client(%d)'' [PInt c]
      ((world s)\<lparr>epoll := (epoll (world s))(c \<mapsto> (0x40002001, False))\<rparr>))"
  let ?s1 = "s\<lparr>world := ?w\<rparr>"
  have "tp_append (Some (nat c)) (pool_of s) = (False, pool_of s)"
    using assms(7,8) by (simp add: tp_append_def tp_append_locked_ok)
  with input_step [of s c addr tid] assms(1-4,6)
  have "ser_do (Event c EPOLLIN addr tid) s = Some (Inr (Some ?s1))" by (simp add: ser_ok_def)
  moreover have "epoll_report c ready (world s2) = None"
    if run: "ser_run acts ?s1 = Some (Inr (Some s2))" for acts s2 ready
  proof -
    have "ser_ok ?s1" using assms(1) by (simp add: ser_ok_def flush_call_def)
    from ser_run_ok [OF run this] have "grows ?s1 s2" by simp
    then have "epoll (world s2) c = Some (0x40002001, False)"
      using assms(5) by (simp add: grows_def flush_call_def log_call_def)
    then show ?thesis by (simp add: epoll_report_def)
  qed
  ultimately show ?thesis by (intro exI [of _ ?s1]) auto
qed

lemma server_full_pool_drops_witness:
  "\<exists>s s1. length (m_workqueue (pool_of s)) = 2 \<and>
     ser_do (Event 5 EPOLLIN [] None) s = Some (Inr (Some s1)) \<and> pool_of s1 = pool_of s \<and>
     epoll_report 5 (EPOLLIN OR EPOLLRDHUP) (world s1) = None"
proof -
  let ?p = "\<lparr>m_thread_number = 1, m_max_requests = 1, m_workqueue = [Some (6 :: nat), Some 7],
    m_queuestat = 2, m_stop = False\<rparr>"
  let ?s = "sample_ser\<lparr>world := (world sample_ser)\<lparr>open_fds := {3, 5},
      epoll := [3 \<mapsto> (0x2001, True), 5 \<mapsto> (0x40002001, True)]\<rparr>, pool_of := ?p\<rparr>"
  have "ser_ok ?s" using sample_ser_ok(1) by (simp add: ser_ok_def)
  moreover have "tp_ok ?p" "\<not> tp_room ?p" by (simp_all add: tp_ok_def tp_room_def)
  ultimately obtain s1 where s1: "ser_do (Event 5 EPOLLIN [] None) ?s = Some (Inr (Some s1))"
      "pool_of s1 = ?p"
      "\<And>acts s2 ready. ser_run acts s1 = Some (Inr (Some s2)) \<Longrightarrow> epoll_report 5 ready (world s2) = None"
    using server_full_pool_drops [of ?s 5 "[]" None] by (auto simp: sample_ser_def MAX_FD_def)
  from s1(3) [of "[]" s1] s1(1,2) show ?thesis
    by (intro exI [of _ ?s] exI [of _ s1]) simp
qed

text \<open>
  C39. Start-up: when given two arguments, with the pool's threads and the sockets in place,
  the server ends up listening, with SIGPIPE ignored, an empty pool and the invariant of its runs. It does so
  too when its log file, named relative to the working directory, cannot be opened, because
  nobody looks at what \<open>init\<close> answers; every later log call then faults on the missing stream.
\<close>

theorem server_startup:
  assumes "2 \<le> length args" "os_sigaction os \<noteq> - 1" "fst (tp_start_threads (take 20 (os_threads os)) 0)"
    and "0 \<le> os_socket os" "os_bind os \<noteq> - 1" "os_listen os \<noteq> - 1" "os_epoll os \<noteq> - 1"
    and "length mons = MAX_FD" "\<forall>mon \<in> set mons. mon_id mon = None" "finite (open_fds w0)"
    and "epoll w0 = (\<lambda>_. None)"
  shows "\<exists>s lg. ser_main args t fopen_ok garbage (log_new files0) os mons limit w0 = Inr (Started s, lg) \<and>
           ser_ok s \<and> listening s \<and> listenfd s = os_socket os \<and> m_workqueue (pool_of s) = [] \<and>
           tp_ok (pool_of s) \<and> map_option sa_handler (signals s SIGPIPE) = Some SIG_IGN \<and>
           (if fopen_ok then m_fp lg \<noteq> None
            else \<forall>level fmt vals t' usec. \<exists>e. write_log level fmt vals t' usec False lg = Inl e)"
proof -
  obtain n where n: "tp_start_threads (take 20 (os_threads os)) 0 = (True, n)"
    using assms(3) by (cases "tp_start_threads (take 20 (os_threads os)) 0") auto
  have ctor: "tp_ctor 20 10000 (os_threads os) 0 [] =
      Inr (Tp_built \<lparr>m_thread_number = 20, m_max_requests = 10000, m_workqueue = [],
                     m_queuestat = 0, m_stop = False\<rparr> n [(Array_block, 0)])"
    using n by (simp add: tp_ctor_def)
  obtain lg where lg: "log_init ''var/log/mylog.log'' 8192 2000000 0 t fopen_ok garbage (log_new files0) =
      Inr (fopen_ok, lg)" "\<not> m_is_async lg" "fopen_ok \<longleftrightarrow> m_fp lg \<noteq> None"
    using log_init_server [of 8192 2000000 t fopen_ok garbage files0] by (cases fopen_ok) auto
  let ?w = "addfd (os_socket os) False (w0\<lparr>open_fds := {os_socket os, os_epoll os} \<union> open_fds w0\<rparr>)"
  let ?s = "\<lparr>world = ?w, users = mons, pool_of = \<lparr>m_thread_number = 20, m_max_requests = 10000,
      m_workqueue = [], m_queuestat = 0, m_stop = False\<rparr>, listenfd = os_socket os,
      fd_limit = limit, conns = 0,
      signals = [SIGPIPE \<mapsto> \<lparr>sa_handler = SIG_IGN, sa_restart = True\<rparr>]\<rparr>"
  have "ser_main args t fopen_ok garbage (log_new files0) os mons limit w0 = Inr (Started ?s, lg)"
    unfolding ser_main_def lg(1) bind_res_Inr prod.case ctor tp_ctor_result.case Let_def
    using assms(1,2,4-7) by (auto simp: addsig_def)
  moreover have "ser_ok ?s" "listening ?s"
    using assms(8-11) by (simp_all add: ser_ok_def listening_def addfd_def Let_def)
  moreover have "tp_ok (pool_of ?s)" by (simp add: tp_ok_def)
  ultimately show ?thesis
    using lg(2,3) write_log_no_stream [of lg] by (intro exI [of _ ?s] exI [of _ lg]) auto
qed

lemma server_startup_witness:
  "\<exists>s lg. ser_main [''127.0.0.1'', ''8888''] tm_sample False (\<lambda>_. NUL) (log_new (\<lambda>_. None))
       \<lparr>os_sigaction = 0, os_socket = 3, os_bind = 0, os_listen = 0, os_epoll = 4, os_threads = [],
        os_now = (tm_sample, 5), os_reopen = True\<rparr>
       (replicate MAX_FD (sample_monitor (sample_data 0 0 0 []))) 1024
       (sample_server\<lparr>open_fds := {0, 1, 2}\<rparr>) = Inr (Started s, lg) \<and> ser_ok s \<and>
     (\<exists>e. write_log 1 ''x'' [] tm_sample 0 False lg = Inl e)"
  using server_startup [of "[''127.0.0.1'', ''8888'']"
      "\<lparr>os_sigaction = 0, os_socket = 3, os_bind = 0, os_listen = 0, os_epoll = 4, os_threads = [],
        os_now = (tm_sample, 5), os_reopen = True\<rparr>"
      "replicate MAX_FD (sample_monitor (sample_data 0 0 0 []))" "sample_server\<lparr>open_fds := {0, 1, 2}\<rparr>"
      tm_sample False "\<lambda>_. NUL" "\<lambda>_. None" 1024]
  by (simp add: sample_monitor_def sample_server_def) blast

end
