(* ===== verification/Server_Types.thy ===== *)
theory Server_Types
  imports Server_Main
begin

text \<open>
  The types of the server's objects. C++ fixes them when an object is made, the model does
  not: that every operation of \<open>server/monitor/monitor.cpp\<close> and every action of \<open>server/ser.cpp\<close> keeps the
  messages allocated, their arrays at the declared length and their integers in range is an
  invariant, proved here for whatever bytes arrive, and with it which faults a run can end in.
\<close>

section \<open>Well-typed results\<close>

text \<open>
  A result is sound when a value has the property asked for, and a fault is one of the three
  that input or a missing initialisation causes: no freed object, null pointer, bad release
  or bad format.
\<close>

definition sound :: "('a \<Rightarrow> bool) \<Rightarrow> 'a res \<Rightarrow> bool" where
  "sound P r \<longleftrightarrow>
     (case r of Inr x \<Rightarrow> P x | Inl e \<Rightarrow> e \<in> {Out_of_bounds, Not_terminated, Indeterminate})"

definition sound_run :: "('a \<Rightarrow> bool) \<Rightarrow> 'a run \<Rightarrow> bool" where
  "sound_run P r \<longleftrightarrow> (case r of None \<Rightarrow> True | Some x \<Rightarrow> sound P x)"

lemma sound_simps [simp]:
  "sound P (Inr x) \<longleftrightarrow> P x"
  "sound P (Inl e) \<longleftrightarrow> e \<in> {Out_of_bounds, Not_terminated, Indeterminate}"
  by (simp_all add: sound_def)

lemma sound_run_simps [simp]:
  "sound_run P None" "sound_run P (Some r) \<longleftrightarrow> sound P r"
  by (simp_all add: sound_run_def)

lemma sound_bind [intro]: "sound P r \<Longrightarrow> (\<And>x. P x \<Longrightarrow> sound Q (f x)) \<Longrightarrow> sound Q (bind_res r f)"
  by (cases r) auto

lemma sound_bind_run [intro]:
  "sound_run P r \<Longrightarrow> (\<And>x. P x \<Longrightarrow> sound_run Q (f x)) \<Longrightarrow> sound_run Q (bind_run r f)"
  by (cases r; cases "the r") (auto simp: sound_run_def)

lemma sound_bind_run_pair:
  "sound_run (\<lambda>(a, _). P a) r \<Longrightarrow> (\<And>a b. P a \<Longrightarrow> sound_run Q (f a b)) \<Longrightarrow>
     sound_run Q (bind_run r (\<lambda>(a, b). f a b))"
  by (erule sound_bind_run) auto

lemma sound_weaken: "sound P r \<Longrightarrow> (\<And>x. P x \<Longrightarrow> Q x) \<Longrightarrow> sound Q r"
  by (cases r) auto

named_theorems sound_intros \<open>the C routines and the operations on well-typed arguments\<close>

lemma sound_c_read [sound_intros]: "sound (\<lambda>_. True) (c_read b)"
  by (simp add: c_read_def)

lemma sound_store_at: "sound (\<lambda>b. length b = length dst) (store_at dst off s)"
  by (auto simp: store_at_def)

lemma sound_c_strcpy [sound_intros]: "sound (\<lambda>b. length b = length dst) (c_strcpy dst src)"
  unfolding c_strcpy_def by (rule sound_bind [OF sound_c_read]) (rule sound_store_at)

lemma sound_c_strcat [sound_intros]: "sound (\<lambda>b. length b = length dst) (c_strcat dst src)"
  unfolding c_strcat_def by (intro sound_bind [OF sound_c_read] sound_store_at)

lemma sound_c_memcpy [sound_intros]: "sound (\<lambda>b. length b = length dst) (c_memcpy dst src n)"
  by (auto simp: c_memcpy_def)

lemma sound_arr_get [sound_intros]: "sound (\<lambda>x. x \<in> set xs) (arr_get xs i)"
  by (auto simp: arr_get_def)

section \<open>The objects\<close>

definition wf_mon :: "monitor \<Rightarrow> bool" where
  "wf_mon mon \<longleftrightarrow>
     (\<exists>m. masg mon = Some m \<and> wf_TAG m) \<and> (\<exists>r. rebag mon = Some r \<and> wf_RECOVER r) \<and>
     (\<exists>h. heart mon = Some h \<and> wf_RECOVER h) \<and> length (backup_f_name mon) = BACKUP_F_NAME"

lemma wf_mon_update [simp]:
  "wf_mon (mon\<lparr>m_sockfd := c, m_address := a\<rparr>) \<longleftrightarrow> wf_mon mon"
  by (simp add: wf_mon_def)

lemma wf_recover_file_name [simp]: "wf_RECOVER (recover_file_name r) \<longleftrightarrow> wf_RECOVER r"
  by (simp add: wf_RECOVER_def recover_file_name_def)

lemma wf_recv_into: "wf_TAG m \<Longrightarrow> length bs \<le> sizeof_data \<Longrightarrow> wf_TAG (recv_into bs m)"
  unfolding recv_into_def by (rule wf_TAG_of) (simp add: length_TAG_image)

lemma sound_init [sound_intros]:
  assumes "wf_mon mon"
  shows "sound (\<lambda>r. case r of None \<Rightarrow> True | Some (mon', _) \<Rightarrow> wf_mon mon') (mon_init fd addr tid mon w)"
  using assms
  by (auto simp: mon_init_def mon_init_private_def wf_mon_def Let_def wf_TAG_def is_long_def is_int_def
      c_memset_def FILE_NAME_LEN_def BUFF_SIZE_def split: option.splits)

lemma sound_build_path [sound_intros]:
  "length buf = n \<Longrightarrow> sound (\<lambda>b. length b = n) (build_path m buf)"
  unfolding build_path_def
  by (rule sound_bind [OF sound_c_memcpy], rule sound_bind [OF sound_c_strcat],
      rule sound_weaken [OF sound_c_strcat]) simp

lemma sound_write_block [sound_intros]: "sound (\<lambda>_. True) (write_block fd m w)"
  by (auto simp: write_block_def Let_def split: option.splits)

lemma sound_backup [sound_intros]:
  assumes "wf_mon mon"
  shows "sound (\<lambda>(mon', _). wf_mon mon') (mon_backup pth mon w)"
proof -
  from assms obtain m where m: "masg mon = Some m" "wf_TAG m" "length (backup_f_name mon) = BACKUP_F_NAME"
    by (auto simp: wf_mon_def)
  have path: "sound (\<lambda>b. length b = BACKUP_F_NAME) (build_path m' (backup_f_name mon))" for m'
    by (rule sound_build_path [OF m(3)])
  have after: "wf_mon (mon\<lparr>masg := Some (transf_file_name m), backup_f_name := name\<rparr>)"
    if "length name = BACKUP_F_NAME" for name
    using assms m(2) that by (simp add: wf_mon_def)
  show ?thesis unfolding mon_backup_def Let_def m(1) deref_simps bind_res_Inr
    by (intro sound_bind [OF sound_c_read] sound_bind [OF path])
      (auto split: prod.splits intro!: sound_bind [OF sound_write_block] after)
qed

lemma recover_loop_wf:
  "recover_loop sockfd (Some bs) r w = Some (r', w') \<Longrightarrow> wf_RECOVER r \<Longrightarrow> wf_RECOVER r'"
proof (induction "length bs" arbitrary: bs r w rule: less_induct)
  case less
  show ?case
  proof (cases "bs = []")
    case True
    with less.prems show ?thesis
      by (subst (asm) recover_loop.simps) (auto simp: wf_RECOVER_def c_memset_def BUFF_SIZE_def)
  next
    case False
    let ?c = "take (BUFF_SIZE - 1) bs"
    let ?r = "recover_file_name (r\<lparr>r_data := ?c @ drop (length ?c) (c_memset BUFF_SIZE)\<rparr>)"
    have "length (drop (BUFF_SIZE - 1) bs) < length bs" using False by (simp add: BUFF_SIZE_def)
    moreover have "wf_RECOVER ?r"
      using less.prems(2) by (simp add: wf_RECOVER_def recover_file_name_def c_memset_def BUFF_SIZE_def)
    moreover have "recover_loop sockfd (Some (drop (BUFF_SIZE - 1) bs)) ?r
        (send_to sockfd (RECOVER_image ?r) w) = Some (r', w')"
      using less.prems(1) False by (subst (asm) recover_loop.simps) (simp add: Let_def)
    ultimately show ?thesis using less.hyps by blast
  qed
qed

lemma sound_recover [sound_intros]:
  assumes "wf_mon mon"
  shows "sound_run (\<lambda>(mon', _). wf_mon mon') (mon_recover mon w)"
proof -
  from assms obtain m r where m: "masg mon = Some m" "wf_TAG m" "rebag mon = Some r" "wf_RECOVER r"
      "length (backup_f_name mon) = BACKUP_F_NAME"
    by (auto simp: wf_mon_def)
  have after: "wf_mon (mon\<lparr>masg := Some (transf_file_name m), backup_f_name := name, rebag := Some r2\<rparr>)"
    if "length name = BACKUP_F_NAME" "wf_RECOVER r2" for name r2
    using assms m(2) that by (simp add: wf_mon_def)
  have loop: "wf_RECOVER r2" if "recover_loop fd rest (r\<lparr>r_sign := s, r_count := k, r_event := ev,
        r_file_name := fname, r_mac_addr := mac\<rparr>) w1 = Some (r2, w2)"
      "length ev = length (r_event r)" "length fname = length (r_file_name r)" "length mac = length (r_mac_addr r)"
    for fd rest s k ev fname mac w1 r2 w2
  proof (cases rest)
    case None
    with that(1) show ?thesis by (simp add: recover_loop_stuck)
  next
    case (Some bs)
    show ?thesis
      by (rule recover_loop_wf [OF that(1) [unfolded Some]]) (use m(4) that in \<open>simp add: wf_RECOVER_def\<close>)
  qed
  show ?thesis unfolding mon_recover_def Let_def m(1,3) deref_simps bind_run_simps
    by (rule sound_bind_run, simp, rule sound_build_path [OF m(5)],
        rule sound_bind_run, simp, rule sound_c_read,
        (rule sound_bind_run, simp, rule sound_c_strcpy)+)
      (auto split: option.splits intro!: after dest: loop)
qed

lemma sound_process [sound_intros]:
  assumes "wf_mon mon" "\<forall>bs. Rv_bytes bs \<in> set evs \<longrightarrow> length bs \<le> sizeof_data"
  shows "sound_run (\<lambda>(mon', _). wf_mon mon') (mon_process pth evs mon w)"
  using assms
proof (induction pth evs mon w rule: mon_process.induct)
  case (5 pth bs evs mon w)
  from "5.prems" obtain m0 where m0: "masg mon = Some m0" "wf_TAG m0" by (auto simp: wf_mon_def)
  let ?mon = "mon\<lparr>masg := Some (recv_into bs m0)\<rparr>"
  have wf: "wf_mon ?mon" using "5.prems" m0 by (simp add: wf_mon_def wf_recv_into)
  show ?case
  proof (cases "t_sign (recv_into bs m0) = 0 \<or> t_sign (recv_into bs m0) = 1")
    case True
    then show ?thesis
    proof
      assume s: "t_sign (recv_into bs m0) = 0"
      have next_ok: "sound_run (\<lambda>(mon', _). wf_mon mon') (mon_process pth evs m2 w2)" if "wf_mon m2" for m2 w2
        using "5.IH"(1) [OF refl refl, of m0 m2 w2] s that "5.prems"(2) by auto
      have "sound_run (\<lambda>(m2, _). wf_mon m2) (Some (mon_backup pth ?mon w))" using sound_backup [OF wf] by simp
      from sound_bind_run_pair [OF this next_ok] show ?thesis using m0 s by (simp add: Let_def)
    next
      assume s: "t_sign (recv_into bs m0) = 1"
      have next_ok: "sound_run (\<lambda>(mon', _). wf_mon mon') (mon_process pth evs m2 w2)" if "wf_mon m2" for m2 w2
        using "5.IH"(2) [OF refl refl, of m0 m2 w2] s that "5.prems"(2) by auto
      have "sound_run (\<lambda>(m2, _). wf_mon m2) (mon_recover ?mon w)" using sound_recover [OF wf] by simp
      from sound_bind_run_pair [OF this next_ok] show ?thesis using m0 s by (simp add: Let_def)
    qed
  next
    case False
    with "5.IH"(3) [OF refl refl, of m0] "5.prems" m0 wf show ?thesis by (simp add: Let_def)
  qed
qed auto

lemma sound_send_heart [sound_intros]:
  "wf_mon c \<Longrightarrow> sound (\<lambda>(c', _). wf_mon c') (send_heart c w)"
  by (auto simp: send_heart_def wf_mon_def Let_def wf_RECOVER_def c_memset_def)

section \<open>The server\<close>

definition wf_ser :: "ser \<Rightarrow> bool" where
  "wf_ser s \<longleftrightarrow> length (users s) = MAX_FD \<and> (\<forall>mon \<in> set (users s). wf_mon mon)"

text \<open>What a \<open>recv\<close> of \<open>sizeof(TAG)\<close> bytes can answer.\<close>

fun legal_act :: "ser_act \<Rightarrow> bool" where
  "legal_act (Work pth evs) \<longleftrightarrow> (\<forall>bs. Rv_bytes bs \<in> set evs \<longrightarrow> length bs \<le> sizeof_data)"
| "legal_act _ \<longleftrightarrow> True"

definition wf_next :: "ser option \<Rightarrow> bool" where
  "wf_next r \<longleftrightarrow> (case r of None \<Rightarrow> True | Some s \<Rightarrow> wf_ser s)"

lemma wf_next_simps [simp]: "wf_next None" "wf_next (Some s) \<longleftrightarrow> wf_ser s"
  by (simp_all add: wf_next_def)

lemma wf_ser_update [simp]:
  "wf_ser (s\<lparr>world := w\<rparr>) \<longleftrightarrow> wf_ser s" "wf_ser (s\<lparr>pool_of := p\<rparr>) \<longleftrightarrow> wf_ser s"
  "wf_ser (s\<lparr>conns := n\<rparr>) \<longleftrightarrow> wf_ser s"
  by (simp_all add: wf_ser_def)

lemma wf_ser_object: "wf_ser s \<Longrightarrow> wf_mon mon \<Longrightarrow> wf_ser (s\<lparr>world := w, users := (users s)[i := mon]\<rparr>)"
  using users_update_ok [of "users s" MAX_FD wf_mon mon i] by (simp add: wf_ser_def)

lemma sound_object: "wf_ser s \<Longrightarrow> sound wf_mon (arr_get (users s) i)"
  by (rule sound_weaken [OF sound_arr_get]) (simp add: wf_ser_def)

lemma sound_accept [sound_intros]:
  assumes "wf_ser s"
  shows "sound wf_next (handle_accept addr tid s)"
proof (cases "accept_fd (fd_limit s) (world s)")
  case (Some c)
  let ?w = "(world s)\<lparr>open_fds := insert c (open_fds (world s))\<rparr>"
  have "sound wf_next (bind_res (mon_init c addr tid mon ?w) (\<lambda>r. case r of
      None \<Rightarrow> Inr None
    | Some (mon', w2) \<Rightarrow>
        Inr (Some (s\<lparr>world := w2, users := (users s)[nat c := mon'], conns := conns s + 1\<rparr>))))"
    if "wf_mon mon" for mon
    by (intro sound_bind [OF sound_init [OF that]]) (auto intro: wf_ser_object [OF assms] split: option.splits)
  then show ?thesis unfolding handle_accept_def Some option.case Let_def
    by (rule sound_bind [OF sound_object [OF assms]])
qed (use assms in \<open>simp add: handle_accept_def\<close>)

lemma sound_event:
  assumes "wf_ser s"
  shows "sound wf_next (handle_event fd events addr tid s)"
proof -
  have "sound wf_ser (handle_hangup fd s)" unfolding handle_hangup_def Let_def
    by (rule sound_bind [OF sound_object [OF assms]]) (use assms in \<open>simp split: option.splits\<close>)
  moreover have "sound wf_ser (handle_input fd s)" unfolding handle_input_def Let_def
    by (rule sound_bind [OF sound_object [OF assms]]) (use assms in \<open>simp add: wf_ser_def\<close>)
  ultimately show ?thesis using assms sound_accept [OF assms]
    by (auto simp: handle_event_def intro!: sound_bind)
qed

lemma sound_do:
  assumes "wf_ser s" "legal_act a"
  shows "sound_run wf_next (ser_do a s)"
proof (cases a)
  case (Event fd ready addr tid)
  with assms sound_event show ?thesis by (auto simp: do_event_def split: option.splits)
next
  case (Work pth evs)
  have evs: "\<forall>bs. Rv_bytes bs \<in> set evs \<longrightarrow> length bs \<le> sizeof_data" using assms(2) Work by simp
  have "sound_run wf_ser (do_work pth evs s)"
  proof (cases "tp_take (pool_of s)")
    case (Some rp)
    obtain r p where rp: "rp = (r, p)" by (cases rp)
    have "sound_run wf_ser (bind_run (mon_process pth evs mon (world s)) (\<lambda>(mon', w, _).
        Some (Inr (s\<lparr>world := w, users := (users s)[i := mon'], pool_of := p\<rparr>))))" if "wf_mon mon" for mon i
      by (rule sound_bind_run_pair [OF sound_process [OF that evs]]) (auto intro: wf_ser_object [OF assms(1)])
    moreover have "sound_run wf_mon (Some (arr_get (users s) (int i)))" for i
      using sound_object [OF assms(1)] by simp
    ultimately show ?thesis using assms(1) Some rp
      by (cases r) (simp_all add: do_work_def sound_bind_run [of wf_mon] del: sound_run_simps(2), simp)
  qed (use assms(1) in \<open>simp add: do_work_def\<close>)
  then show ?thesis using Work by (auto intro!: sound_bind_run)
next
  case (Beat t)
  have "sound wf_ser (do_beat t s)"
  proof (cases "map_of (hearts (world s)) t")
    case (Some i)
    have "sound wf_ser (bind_res (send_heart c (world s)) (\<lambda>(c', w).
        Inr (s\<lparr>world := w, users := (users s)[nat i := c']\<rparr>)))" if "wf_mon c" for c
      by (rule sound_bind [OF sound_send_heart [OF that]]) (auto intro: wf_ser_object [OF assms(1)])
    then show ?thesis unfolding do_beat_def Some option.case
      by (rule sound_bind [OF sound_object [OF assms(1)]])
  qed (use assms(1) in \<open>simp add: do_beat_def\<close>)
  then show ?thesis using Beat by (auto intro!: sound_bind)
qed (use assms in simp)

lemma sound_ser_run:
  "wf_ser s \<Longrightarrow> \<forall>a \<in> set acts. legal_act a \<Longrightarrow> sound_run wf_next (ser_run acts s)"
proof (induction acts arbitrary: s)
  case (Cons a acts)
  have "sound_run wf_next (case r of None \<Rightarrow> Some (Inr None) | Some s' \<Rightarrow> ser_run acts s')" if "wf_next r" for r
    using that Cons by (cases r) auto
  with Cons.prems sound_do show ?case by (auto intro!: sound_bind_run [of wf_next])
qed simp

section \<open>Properties\<close>

text \<open>
  C12. The server's objects keep their types whatever the network sends: from objects as
  \<open>new monitor[MAX_FD]\<close> makes them, and with answers of \<open>recv\<close> of at most \<open>sizeof(TAG)\<close>
  bytes, every action list leaves all 1024 objects with their three messages allocated, every
  array at its declared length and every integer in its range. A run that faults does so with
  an access out of bounds, an unterminated string or an indeterminate value, never with a
  freed object or a null pointer.
\<close>

theorem server_keeps_types:
  assumes "wf_ser s" "\<forall>a \<in> set acts. legal_act a"
  shows "case ser_run acts s of
           None \<Rightarrow> True
         | Some (Inl e) \<Rightarrow> e \<in> {Out_of_bounds, Not_terminated, Indeterminate}
         | Some (Inr None) \<Rightarrow> True
         | Some (Inr (Some s')) \<Rightarrow> wf_ser s'"
  using sound_ser_run [OF assms] by (auto split: option.splits sum.splits)

lemma server_keeps_types_witness:
  "\<exists>s'. ser_run [Event 3 EPOLLIN [] (Some 9), Beat 9] sample_ser = Some (Inr (Some s')) \<and> wf_ser s' \<and>
     wf_mon (users s' ! 5)"
proof -
  have wf: "wf_ser sample_ser"
    by (simp add: wf_ser_def wf_mon_def sample_ser_def sample_monitor_def sample_data_def wf_data_def
        is_long_def is_int_def sample_RECOVER_def wf_RECOVER_def c_memset_def BACKUP_F_NAME_def)
  obtain s1 where s1: "ser_do (Event 3 EPOLLIN [] (Some 9)) sample_ser = Some (Inr (Some s1))"
      "hearts (world s1) = [(9, 5)]" "heart (users s1 ! 5) \<noteq> None" "length (users s1) = MAX_FD"
    using accept_step [OF sample_ser_ok(1-3), of "[]" 9] sample_ser_ok(4)
    by (simp add: sample_ser_def MAX_FD_def after_accept_def sample_monitor_def sample_server_def)
  then obtain s' where s': "ser_run [Event 3 EPOLLIN [] (Some 9), Beat 9] sample_ser = Some (Inr (Some s'))"
    by (auto simp: do_beat_def send_heart_def Let_def MAX_FD_def)
  have "wf_ser s'"
    using server_keeps_types [OF wf, of "[Event 3 EPOLLIN [] (Some 9), Beat 9]"] s' by simp
  then show ?thesis using s' by (auto simp: wf_ser_def MAX_FD_def)
qed

end
