(* ===== verification/Server_Crowd.thy ===== *)
theory Server_Crowd
  imports Server_Types
begin

text \<open>
  Many clients at once. The main loop of \<open>server/ser.cpp\<close>, the work queue and the objects of
  \<open>server/monitor/monitor.cpp\<close> serve connections that are accepted, become ready and are taken up by a worker
  in any interleaving, with heartbeats at any time. Each connection brings messages that are
  blocks of one file; several may bring blocks of the same file, as the client's own threads do.
\<close>

section \<open>Connections and schedules\<close>

text \<open>What a connection brings: its client, the file and the messages with their padding.\<close>

record job =
  j_mac :: string
  j_name :: string
  j_file :: string
  j_messages :: "(string \<times> data) list"
  j_thread :: nat

definition job_ok :: "job \<Rightarrow> bool" where
  "job_ok j \<longleftrightarrow>
     CHR ''/'' \<notin> set (j_mac j) \<and>
     (\<forall>(pad, d) \<in> set (j_messages j). length pad = 2 \<and> client_block (j_mac j) (j_name j) (j_file j) d)"

definition job_path :: "job \<Rightarrow> string" where
  "job_path j = backup_path (j_mac j) (j_name j)"

definition job_blocks :: "job \<Rightarrow> (nat \<times> string) list" where
  "job_blocks j = map (\<lambda>(pad, d). block (TAG_of_data d)) (j_messages j)"

definition job_stream :: "job \<Rightarrow> string" where
  "job_stream j = concat (map (\<lambda>(pad, d). data_image pad d) (j_messages j))"

text \<open>
  The stages a schedule is made of: the next connection is accepted; the input of an accepted
  one is reported; a worker takes the oldest request and reads the connection to its end; a
  heartbeat thread has its turn.
\<close>

datatype stage =
    Connect string
  | Input nat string "nat option"
  | Serve nat
  | Pulse nat

record crowd =
  cr_next :: nat
  cr_reported :: "nat set"
  cr_queue :: "nat list"
  cr_served :: "nat list"

definition crowd_start :: crowd where
  "crowd_start = \<lparr>cr_next = 0, cr_reported = {}, cr_queue = [], cr_served = []\<rparr>"

text \<open>When a stage can come, and what it does to the connections; \<open>n\<close> is their number.\<close>

definition crowd_step :: "nat \<Rightarrow> stage \<Rightarrow> crowd \<Rightarrow> crowd option" where
  "crowd_step n st c =
     (case st of
        Connect _ \<Rightarrow> (if cr_next c < n then Some (c\<lparr>cr_next := cr_next c + 1\<rparr>) else None)
      | Input k _ _ \<Rightarrow>
          (if k < cr_next c \<and> k \<notin> cr_reported c
           then Some (c\<lparr>cr_reported := insert k (cr_reported c), cr_queue := cr_queue c @ [k]\<rparr>) else None)
      | Serve _ \<Rightarrow>
          (case cr_queue c of
             [] \<Rightarrow> None
           | k # q \<Rightarrow> Some (c\<lparr>cr_queue := q, cr_served := cr_served c @ [k]\<rparr>))
      | Pulse _ \<Rightarrow> Some c)"

text \<open>The server's action for a stage; connection \<open>k\<close> has the descriptor \<open>base + k\<close>.\<close>

definition crowd_act :: "job list \<Rightarrow> nat \<Rightarrow> int \<Rightarrow> stage \<Rightarrow> crowd \<Rightarrow> ser_act" where
  "crowd_act jobs base listen st c =
     (case st of
        Connect addr \<Rightarrow> Event listen EPOLLIN addr (Some (j_thread (jobs ! cr_next c)))
      | Input k addr tid \<Rightarrow> Event (int (base + k)) EPOLLIN addr tid
      | Serve pth \<Rightarrow>
          Work pth (map Rv_bytes (frames sizeof_data (job_stream (jobs ! hd (cr_queue c)))) @ [Rv_end])
      | Pulse t \<Rightarrow> Beat t)"

fun crowd_run :: "job list \<Rightarrow> nat \<Rightarrow> int \<Rightarrow> stage list \<Rightarrow> crowd \<Rightarrow> (ser_act list \<times> crowd) option" where
  "crowd_run jobs base listen [] c = Some ([], c)"
| "crowd_run jobs base listen (st # sts) c =
     (case crowd_step (length jobs) st c of
        None \<Rightarrow> None
      | Some c' \<Rightarrow>
          (case crowd_run jobs base listen sts c' of
             None \<Rightarrow> None
           | Some (acts, c'') \<Rightarrow> Some (crowd_act jobs base listen st c # acts, c'')))"

section \<open>The server seen as a crowd\<close>

definition new_object :: "monitor \<Rightarrow> bool" where
  "new_object mon \<longleftrightarrow> fresh_object mon \<and> heart mon \<noteq> None"

definition ready_object :: "monitor \<Rightarrow> bool" where
  "ready_object mon \<longleftrightarrow>
     (\<exists>m. masg mon = Some m \<and> wf_TAG m) \<and> length (backup_f_name mon) = BACKUP_F_NAME \<and> heart mon \<noteq> None"

text \<open>
  The server before its first client: descriptors below \<open>base\<close> are open, the pool is idle, the
  objects of the connections to come are new, and all backups can be written.
\<close>

definition crowd_room :: "nat \<Rightarrow> nat \<Rightarrow> ser \<Rightarrow> bool" where
  "crowd_room n base s \<longleftrightarrow>
     ser_ok s \<and> listening s \<and> listenfd s < int base \<and> open_fds (world s) = int ` {..<base} \<and>
     (\<forall>k. epoll (world s) (int (base + k)) = None) \<and> base + n \<le> min MAX_FD (fd_limit s) \<and>
     (\<forall>k < n. new_object (users s ! (base + k))) \<and> hearts (world s) = [] \<and>
     tp_ok (pool_of s) \<and> int n \<le> m_max_requests (pool_of s) \<and> m_workqueue (pool_of s) = []"

definition crowd_ready :: "job list \<Rightarrow> nat \<Rightarrow> ser \<Rightarrow> bool" where
  "crowd_ready jobs base s \<longleftrightarrow>
     crowd_room (length jobs) base s \<and> (\<forall>j \<in> set jobs. file_ready (j_mac j) (j_name j) (world s))"

lemma crowd_room_less: "crowd_room n base s \<Longrightarrow> m \<le> n \<Longrightarrow> crowd_room m base s"
  by (auto simp: crowd_room_def)

text \<open>The files after the connections \<open>ks\<close> have been served in this order.\<close>

definition blocks_for :: "job list \<Rightarrow> nat list \<Rightarrow> string \<Rightarrow> (nat \<times> string) list" where
  "blocks_for jobs ks p = concat (map (\<lambda>k. job_blocks (jobs ! k)) (filter (\<lambda>k. job_path (jobs ! k) = p) ks))"

definition crowd_files :: "job list \<Rightarrow> server \<Rightarrow> crowd \<Rightarrow> server \<Rightarrow> bool" where
  "crowd_files jobs w0 c w \<longleftrightarrow>
     (\<forall>p. content_at w p = splices NUL (content_at w0 p) (blocks_for jobs (cr_served c) p)) \<and>
     (\<forall>p. p \<notin> (\<lambda>k. job_path (jobs ! k)) ` set (cr_served c) \<longrightarrow> fs w p = fs w0 p) \<and>
     (\<forall>j \<in> set jobs. file_ready (j_mac j) (j_name j) w)"

definition crowd_conns :: "crowd \<Rightarrow> nat \<Rightarrow> bool" where
  "crowd_conns c n \<longleftrightarrow>
     cr_next c \<le> n \<and> distinct (cr_queue c @ cr_served c) \<and>
     cr_reported c = set (cr_queue c @ cr_served c) \<and> cr_reported c \<subseteq> {..<cr_next c}"

text \<open>Descriptors, registrations and heartbeat threads; objects; the work queue.\<close>

definition crowd_fds :: "nat \<Rightarrow> crowd \<Rightarrow> server \<Rightarrow> bool" where
  "crowd_fds base c w \<longleftrightarrow>
     open_fds w = int ` {..<base + cr_next c} \<and>
     (\<forall>k < cr_next c. epoll w (int (base + k)) = Some (0x40002001, k \<notin> cr_reported c)) \<and>
     (\<forall>k \<ge> cr_next c. epoll w (int (base + k)) = None) \<and>
     (\<forall>h \<in> set (hearts w). \<exists>k < cr_next c. snd h = int (base + k))"

definition crowd_objects :: "nat \<Rightarrow> nat \<Rightarrow> crowd \<Rightarrow> monitor list \<Rightarrow> bool" where
  "crowd_objects n base c us \<longleftrightarrow>
     length us = MAX_FD \<and> (\<forall>k < cr_next c. ready_object (us ! (base + k))) \<and>
     (\<forall>k < n. cr_next c \<le> k \<longrightarrow> new_object (us ! (base + k)))"

definition crowd_pool :: "nat \<Rightarrow> int \<Rightarrow> crowd \<Rightarrow> nat tp \<Rightarrow> bool" where
  "crowd_pool base limit c p \<longleftrightarrow>
     tp_ok p \<and> m_max_requests p = limit \<and> m_workqueue p = map (\<lambda>k. Some (base + k)) (cr_queue c)"

definition crowd_sim :: "job list \<Rightarrow> nat \<Rightarrow> ser \<Rightarrow> crowd \<Rightarrow> ser \<Rightarrow> bool" where
  "crowd_sim jobs base s0 c s \<longleftrightarrow>
     ser_ok s \<and> listening s \<and> listenfd s = listenfd s0 \<and> fd_limit s = fd_limit s0 \<and>
     conns s = conns s0 + cr_next c \<and> crowd_fds base c (world s) \<and>
     crowd_objects (length jobs) base c (users s) \<and>
     crowd_pool base (m_max_requests (pool_of s0)) c (pool_of s) \<and>
     crowd_conns c (length jobs) \<and> crowd_files jobs (world s0) c (world s)"

lemma crowd_simI:
  "ser_ok s \<Longrightarrow> listening s \<Longrightarrow> listenfd s = listenfd s0 \<Longrightarrow> fd_limit s = fd_limit s0 \<Longrightarrow>
   conns s = conns s0 + cr_next c \<Longrightarrow> crowd_fds base c (world s) \<Longrightarrow>
   crowd_objects (length jobs) base c (users s) \<Longrightarrow>
   crowd_pool base (m_max_requests (pool_of s0)) c (pool_of s) \<Longrightarrow>
   crowd_conns c (length jobs) \<Longrightarrow> crowd_files jobs (world s0) c (world s) \<Longrightarrow> crowd_sim jobs base s0 c s"
  by (simp add: crowd_sim_def)

lemma crowd_simD:
  assumes "crowd_sim jobs base s0 c s"
  shows "ser_ok s" "listening s" "listenfd s = listenfd s0" "fd_limit s = fd_limit s0"
    "conns s = conns s0 + cr_next c" "crowd_fds base c (world s)"
    "crowd_objects (length jobs) base c (users s)"
    "crowd_pool base (m_max_requests (pool_of s0)) c (pool_of s)"
    "crowd_conns c (length jobs)" "crowd_files jobs (world s0) c (world s)"
  using assms by (simp_all add: crowd_sim_def)

lemma crowd_sim_start: "crowd_ready jobs base s \<Longrightarrow> crowd_sim jobs base s crowd_start s"
  by (intro crowd_simI)
    (auto simp: crowd_ready_def crowd_room_def crowd_start_def crowd_fds_def crowd_objects_def crowd_pool_def ser_ok_def
      crowd_conns_def crowd_files_def blocks_for_def splices_def)

section \<open>One stage\<close>

lemma accept_fd_next:
  assumes "open_fds w = int ` {..<n}" "n < limit"
  shows "accept_fd limit w = Some (int n)"
  unfolding accept_fd_def find_Some_iff using assms by (intro exI [of _ n]) auto

lemma after_accept_object: "new_object mon \<Longrightarrow> ready_object (after_accept c addr t mon)"
  using after_accept_ready [of mon c addr t]
  by (auto simp: new_object_def ready_object_def) (simp add: after_accept_def)

definition crowd_fits :: "job list \<Rightarrow> nat \<Rightarrow> ser \<Rightarrow> bool" where
  "crowd_fits jobs base s0 \<longleftrightarrow>
     base + length jobs \<le> min MAX_FD (fd_limit s0) \<and> listenfd s0 < int base \<and>
     int (length jobs) \<le> m_max_requests (pool_of s0) \<and> (\<forall>j \<in> set jobs. job_ok j)"

lemma crowd_files_world:
  "crowd_files jobs w0 c w \<Longrightarrow> fs w' = fs w \<Longrightarrow> dirs w' = dirs w \<Longrightarrow> denied w' = denied w \<Longrightarrow>
     cr_served c' = cr_served c \<Longrightarrow> crowd_files jobs w0 c' w'"
  by (simp add: crowd_files_def content_at_def file_ready_def dir_ready_def)

lemma arr_get_nat: "i < length xs \<Longrightarrow> arr_get xs (int i) = Inr (xs ! i)"
  by (simp add: arr_get_def)

lemma sim_connect:
  assumes "crowd_sim jobs base s0 c s" "crowd_fits jobs base s0" "cr_next c < length jobs"
  shows "\<exists>s'. ser_do (Event (listenfd s0) EPOLLIN addr (Some t)) s = Some (Inr (Some s')) \<and>
    crowd_sim jobs base s0 (c\<lparr>cr_next := cr_next c + 1\<rparr>) s'"
proof -
  let ?n = "base + cr_next c" and ?c = "c\<lparr>cr_next := cr_next c + 1\<rparr>"
  note sim = crowd_simD [OF assms(1)]
  have n: "?n < MAX_FD" "?n < fd_limit s" using assms(2,3) sim(4) by (auto simp: crowd_fits_def)
  let ?w = "(world s)\<lparr>open_fds := insert (int ?n) (open_fds (world s)),
                          epoll := (epoll (world s))(int ?n \<mapsto> (0x40002001, True)),
                          hearts := hearts (world s) @ [(t, int ?n)]\<rparr>"
  let ?u = "(users s)[?n := after_accept (int ?n) addr t (users s ! ?n)]"
  let ?s = "s\<lparr>world := ?w, users := ?u, conns := conns s + 1\<rparr>"
  have fd: "accept_fd (fd_limit s) (world s) = Some (int ?n)" "epoll (world s) (int ?n) = None"
    using sim(6) n(2) accept_fd_next by (auto simp: crowd_fds_def)
  have new: "new_object (users s ! ?n)" using sim(7) assms(3) by (simp add: crowd_objects_def)
  then have fresh: "fresh_object (users s ! nat (int ?n))" unfolding nat_int by (simp add: new_object_def)
  have step: "ser_do (Event (listenfd s0) EPOLLIN addr (Some t)) s = Some (Inr (Some ?s))"
    using accept_step [OF sim(1,2) fd(1) _ fd(2) fresh, of addr t] n(1) unfolding sim(3) nat_int by simp
  have less: "k < cr_next c + 1 \<longleftrightarrow> k < cr_next c \<or> k = cr_next c" for k by auto
  have "ser_ok ?s" using ser_do_ok [OF step sim(1)] by blast
  moreover have "listening ?s" using sim(2,3) assms(2) by (auto simp: listening_def crowd_fits_def)
  moreover have "crowd_fds base ?c ?w"
  proof -
    have "cr_next c \<notin> cr_reported c" using sim(9) by (auto simp: crowd_conns_def)
    moreover have "\<exists>k < cr_next c + 1. snd h = int (base + k)" if "h \<in> set (hearts ?w)" for h
      using that sim(6) unfolding less by (auto simp: crowd_fds_def)
    ultimately show ?thesis using sim(6) unfolding crowd_fds_def
      by (simp add: lessThan_Suc less_Suc_eq del: of_nat_add)
  qed
  moreover have "crowd_objects (length jobs) base ?c ?u"
    using sim(7) after_accept_object [OF new, of "int ?n" addr t] n(1) unfolding crowd_objects_def
    by (auto simp: nth_list_update less_Suc_eq)
  moreover have "crowd_pool base (m_max_requests (pool_of s0)) ?c (pool_of s)"
    using sim(8) by (simp add: crowd_pool_def)
  moreover have "crowd_conns ?c (length jobs)"
    using sim(9) assms(3) by (auto simp: crowd_conns_def)
  moreover have "crowd_files jobs (world s0) ?c ?w"
    by (rule crowd_files_world [OF sim(10)]) simp_all
  ultimately have "crowd_sim jobs base s0 ?c ?s" using sim(3-5) by (intro crowd_simI) simp_all
  with step show ?thesis by blast
qed

lemma sim_input:
  assumes "crowd_sim jobs base s0 c s" "crowd_fits jobs base s0" "k < cr_next c" "k \<notin> cr_reported c"
  shows "\<exists>s'. ser_do (Event (int (base + k)) EPOLLIN addr tid) s = Some (Inr (Some s')) \<and>
    crowd_sim jobs base s0 (c\<lparr>cr_reported := insert k (cr_reported c), cr_queue := cr_queue c @ [k]\<rparr>) s'"
proof -
  let ?n = "base + k" and ?c = "c\<lparr>cr_reported := insert k (cr_reported c), cr_queue := cr_queue c @ [k]\<rparr>"
  note sim = crowd_simD [OF assms(1)]
  have n: "?n < MAX_FD" "cr_next c \<le> length jobs"
    using assms(2,3) sim(9) by (auto simp: crowd_fits_def crowd_conns_def)
  let ?w = "flush_call (log_call 1 ''deal with the client(%d)'' [PInt (int ?n)]
      ((world s)\<lparr>epoll := (epoll (world s))(int ?n \<mapsto> (0x40002001, False))\<rparr>))"
  let ?p = "snd (tp_append (Some ?n) (pool_of s))"
  let ?s = "s\<lparr>world := ?w, pool_of := ?p\<rparr>"
  have at: "epoll (world s) (int ?n) = Some (0x40002001, True)" "int ?n \<noteq> listenfd s"
    using sim(3,6) assms(2-4) by (auto simp: crowd_fits_def crowd_fds_def)
  have step: "ser_do (Event (int ?n) EPOLLIN addr tid) s = Some (Inr (Some ?s))"
    using input_step [of s "int ?n" addr tid] sim(7) n(1) at unfolding nat_int by (simp add: crowd_objects_def)
  have "length (cr_queue c) = card (set (cr_queue c))" using sim(9) by (simp add: crowd_conns_def distinct_card)
  also have "\<dots> \<le> card {..<cr_next c}" using sim(9) by (intro card_mono) (auto simp: crowd_conns_def)
  finally have "tp_room (pool_of s)"
    using sim(8) n(2) assms(2) by (simp add: tp_room_def crowd_fits_def crowd_pool_def)
  then have "crowd_pool base (m_max_requests (pool_of s0)) ?c ?p"
    using sim(8) by (auto simp: crowd_pool_def tp_append_def tp_append_locked_ok tp_ok_def tp_room_def)
  moreover have "ser_ok ?s" using ser_do_ok [OF step sim(1)] by blast
  moreover have "listening ?s" using sim(2) at(2) by (simp add: listening_def flush_call_def)
  moreover have "crowd_fds base ?c ?w" using sim(6) assms(3) by (auto simp: crowd_fds_def flush_call_def)
  moreover have "crowd_objects (length jobs) base ?c (users s)" using sim(7) by (simp add: crowd_objects_def)
  moreover have "crowd_conns ?c (length jobs)" using sim(9) assms(3,4) by (auto simp: crowd_conns_def)
  moreover have "crowd_files jobs (world s0) ?c ?w"
    by (rule crowd_files_world [OF sim(10)]) (simp_all add: flush_call_def)
  ultimately have "crowd_sim jobs base s0 ?c ?s" using sim(3-5) by (intro crowd_simI) simp_all
  with step show ?thesis by blast
qed

lemma blocks_for_snoc:
  "blocks_for jobs (ks @ [k]) p =
     blocks_for jobs ks p @ (if job_path (jobs ! k) = p then job_blocks (jobs ! k) else [])"
  by (simp add: blocks_for_def)

lemma crowd_files_serve:
  assumes files: "crowd_files jobs w0 c w" and jobs: "\<forall>j \<in> set jobs. job_ok j" "k < length jobs"
    and w': "only_writes (job_path (jobs ! k)) w w'" "dirs w \<subseteq> dirs w'" "dirs w' \<subseteq> insert (j_mac (jobs ! k)) (dirs w)"
    and new: "content_at w' (job_path (jobs ! k)) =
      splices NUL (content_at w (job_path (jobs ! k))) (job_blocks (jobs ! k))"
    and c': "cr_served c' = cr_served c @ [k]"
  shows "crowd_files jobs w0 c' w'"
proof -
  let ?p = "job_path (jobs ! k)"
  have other: "fs w' p = fs w p" if "p \<noteq> ?p" for p using w'(1) that by (simp add: only_writes_def)
  then have keep: "content_at w' p = content_at w p" if "p \<noteq> ?p" for p using that by (simp add: content_at_def)
  have "content_at w' p = splices NUL (content_at w0 p) (blocks_for jobs (cr_served c') p)" for p
    using files new keep [of p]
    by (cases "p = ?p") (simp_all add: c' blocks_for_snoc crowd_files_def splices_def)
  moreover have "file_ready (j_mac j) (j_name j) w'" if "j \<in> set jobs" for j
  proof -
    have "CHR ''/'' \<notin> set (j_mac j)" "CHR ''/'' \<notin> set (j_mac (jobs ! k))"
      using jobs that by (auto simp: job_ok_def)
    with file_ready_later [OF _ _ _ w'(1) [unfolded job_path_def] w'(2,3)] files that show ?thesis
      by (simp add: crowd_files_def)
  qed
  ultimately show ?thesis using files other unfolding crowd_files_def by (simp add: c')
qed

lemma sim_serve:
  assumes "crowd_sim jobs base s0 c s" "crowd_fits jobs base s0" "cr_queue c = k # q"
  shows "\<exists>s'. ser_do (Work pth (map Rv_bytes (frames sizeof_data (job_stream (jobs ! k))) @ [Rv_end])) s =
      Some (Inr (Some s')) \<and>
    crowd_sim jobs base s0 (c\<lparr>cr_queue := q, cr_served := cr_served c @ [k]\<rparr>) s'"
proof -
  let ?n = "base + k" and ?j = "jobs ! k" and ?c = "c\<lparr>cr_queue := q, cr_served := cr_served c @ [k]\<rparr>"
  note sim = crowd_simD [OF assms(1)]
  have k: "k < cr_next c" "k < length jobs" "?n < MAX_FD"
    using assms(2,3) sim(9) by (auto simp: crowd_fits_def crowd_conns_def)
  then have j: "job_ok ?j" "?j \<in> set jobs" using assms(2) by (auto simp: crowd_fits_def)
  obtain m where mon: "masg (users s ! ?n) = Some m" "wf_TAG m"
    "length (backup_f_name (users s ! ?n)) = BACKUP_F_NAME" "heart (users s ! ?n) \<noteq> None" "length (users s) = MAX_FD"
    using sim(7) k(1) by (auto simp: crowd_objects_def ready_object_def)
  have msgs: "\<forall>(pad, d) \<in> set (j_messages ?j). length pad = 2 \<and> client_block (j_mac ?j) (j_name ?j) (j_file ?j) d"
    using j(1) by (simp add: job_ok_def)
  have "file_ready (j_mac ?j) (j_name ?j) (world s)" using sim(10) j(2) by (simp add: crowd_files_def)
  from process_blocks [OF mon(1-3) msgs this, of pth] obtain mon' w' where
    run: "mon_process pth (map Rv_bytes (frames sizeof_data (job_stream ?j)) @ [Rv_end]) (users s ! ?n) (world s) =
       Some (Inr (mon', w', Returned))"
    and w': "only_writes (job_path ?j) (world s) w'" "dirs (world s) \<subseteq> dirs w'"
      "dirs w' \<subseteq> insert (j_mac ?j) (dirs (world s))"
      "content_at w' (job_path ?j) = splices NUL (content_at (world s) (job_path ?j)) (job_blocks ?j)"
    and mon': "ready_object mon'"
    using mon(4) unfolding job_stream_def frames_of_messages [OF msgs]
    by (auto simp: job_path_def job_blocks_def ready_object_def)
  let ?p = "(pool_of s)\<lparr>m_workqueue := map (\<lambda>k. Some (base + k)) q\<rparr>"
  let ?s = "s\<lparr>world := w', users := (users s)[?n := mon'], pool_of := ?p\<rparr>"
  have "tp_take (pool_of s) = Some (Some ?n, ?p)"
    using sim(8) assms(3) by (simp add: tp_take_def crowd_pool_def)
  moreover have "arr_get (users s) (int ?n) = Inr (users s ! ?n)" using mon(5) k(3) by (intro arr_get_nat) simp
  ultimately have step: "ser_do (Work pth (map Rv_bytes (frames sizeof_data (job_stream ?j)) @ [Rv_end])) s =
      Some (Inr (Some ?s))"
    using run by (simp add: do_work_def del: of_nat_add)
  have "ser_ok ?s" using ser_do_ok [OF step sim(1)] by blast
  moreover have "listening ?s" using sim(2) w'(1) by (simp add: listening_def only_writes_def)
  moreover have "crowd_fds base ?c w'" using sim(6) w'(1) by (simp add: crowd_fds_def only_writes_def)
  moreover have "crowd_objects (length jobs) base ?c ((users s)[?n := mon'])"
    using sim(7) mon' k by (auto simp: crowd_objects_def nth_list_update)
  moreover have "crowd_pool base (m_max_requests (pool_of s0)) ?c ?p"
    using sim(8) assms(3) by (auto simp: crowd_pool_def tp_ok_def)
  moreover have "crowd_conns ?c (length jobs)" using sim(9) assms(3) by (auto simp: crowd_conns_def)
  moreover have "crowd_files jobs (world s0) ?c w'"
    using assms(2) k(2) w' by (intro crowd_files_serve [OF sim(10)]) (auto simp: crowd_fits_def)
  ultimately have "crowd_sim jobs base s0 ?c ?s" using sim(3-5) by (intro crowd_simI) simp_all
  with step show ?thesis by blast
qed

lemma sim_pulse:
  assumes "crowd_sim jobs base s0 c s" "crowd_fits jobs base s0"
  shows "\<exists>s'. ser_do (Beat t) s = Some (Inr (Some s')) \<and> crowd_sim jobs base s0 c s'"
proof (cases "map_of (hearts (world s)) t")
  case None
  then show ?thesis using assms(1) by (simp add: do_beat_def)
next
  case (Some i)
  note sim = crowd_simD [OF assms(1)]
  obtain k where k: "k < cr_next c" "i = int (base + k)"
    using map_of_SomeD [OF Some] sim(6) by (fastforce simp: crowd_fds_def)
  let ?n = "base + k"
  have n: "?n < MAX_FD" "k < length jobs" using assms(2) k(1) sim(9) by (auto simp: crowd_fits_def crowd_conns_def)
  let ?mon = "users s ! ?n"
  have mon: "ready_object ?mon" "length (users s) = MAX_FD" using sim(7) k(1) by (auto simp: crowd_objects_def)
  then obtain h0 where h0: "heart ?mon = Some h0" by (auto simp: ready_object_def)
  obtain h where h: "send_heart ?mon (world s) =
      Inr (?mon\<lparr>heart := Some h\<rparr>, send_to (m_sockfd ?mon) (RECOVER_image h) (world s))"
    using h0 by (simp add: send_heart_def Let_def)
  let ?w = "send_to (m_sockfd ?mon) (RECOVER_image h) (world s)"
  let ?s = "s\<lparr>world := ?w, users := (users s)[?n := ?mon\<lparr>heart := Some h\<rparr>]\<rparr>"
  have "arr_get (users s) i = Inr ?mon" unfolding k(2) using mon(2) n(1) by (intro arr_get_nat) simp
  then have step: "ser_do (Beat t) s = Some (Inr (Some ?s))"
    using Some h by (simp add: do_beat_def k(2) del: of_nat_add)
  have "ser_ok ?s" using ser_do_ok [OF step sim(1)] by blast
  moreover have "listening ?s" using sim(2) by (simp add: listening_def send_to_def)
  moreover have "crowd_fds base c ?w" using sim(6) by (simp add: crowd_fds_def send_to_def)
  moreover have "crowd_objects (length jobs) base c ((users s)[?n := ?mon\<lparr>heart := Some h\<rparr>])"
    using sim(7) mon(1) k(1) n(1) by (auto simp: crowd_objects_def nth_list_update ready_object_def)
  moreover have "crowd_files jobs (world s0) c ?w"
    by (rule crowd_files_world [OF sim(10)]) (simp_all add: send_to_def)
  ultimately have "crowd_sim jobs base s0 c ?s" using sim(3-5,8,9) by (intro crowd_simI) simp_all
  with step show ?thesis by blast
qed

text \<open>Any stage, and any schedule.\<close>

lemma sim_stage:
  assumes "crowd_sim jobs base s0 c s" "crowd_fits jobs base s0" "crowd_step (length jobs) st c = Some c'"
  shows "\<exists>s'. ser_do (crowd_act jobs base (listenfd s0) st c) s = Some (Inr (Some s')) \<and>
    crowd_sim jobs base s0 c' s'"
  using assms sim_connect [OF assms(1,2)] sim_input [OF assms(1,2)] sim_serve [OF assms(1,2)]
    sim_pulse [OF assms(1,2)]
  by (auto simp: crowd_step_def crowd_act_def split: stage.splits if_splits list.splits)

lemma sim_run:
  assumes "crowd_fits jobs base s0"
  shows "crowd_sim jobs base s0 c s \<Longrightarrow> crowd_run jobs base (listenfd s0) sts c = Some (acts, c') \<Longrightarrow>
    \<exists>s'. ser_run acts s = Some (Inr (Some s')) \<and> crowd_sim jobs base s0 c' s'"
proof (induction sts arbitrary: c s acts)
  case (Cons st sts)
  from Cons.prems(2) obtain c1 acts1 where
    c1: "crowd_step (length jobs) st c = Some c1" "crowd_run jobs base (listenfd s0) sts c1 = Some (acts1, c')"
    and acts: "acts = crowd_act jobs base (listenfd s0) st c # acts1"
    by (auto split: option.splits)
  from sim_stage [OF Cons.prems(1) assms c1(1)] obtain s1 where
    s1: "ser_do (crowd_act jobs base (listenfd s0) st c) s = Some (Inr (Some s1))" "crowd_sim jobs base s0 c1 s1"
    by blast
  from Cons.IH [OF s1(2) c1(2)] s1(1) show ?case by (simp add: acts)
qed simp

text \<open>What all paths hold after a schedule.\<close>

lemma crowd_contents:
  assumes "crowd_ready jobs base s" "\<forall>j \<in> set jobs. job_ok j"
    and "crowd_run jobs base (listenfd s) stages crowd_start = Some (acts, c)"
  shows "\<exists>s'. ser_run acts s = Some (Inr (Some s')) \<and> crowd_sim jobs base s c s' \<and>
     (\<forall>p. content_at (world s') p = splices NUL (content_at (world s) p) (blocks_for jobs (cr_served c) p))"
proof -
  have fits: "crowd_fits jobs base s" using assms(1,2) by (simp add: crowd_fits_def crowd_ready_def crowd_room_def)
  from sim_run [OF fits crowd_sim_start [OF assms(1)] assms(3)] show ?thesis
    by (auto simp: crowd_sim_def crowd_files_def)
qed

section \<open>A schedule that serves all\<close>

lemma crowd_run_append:
  "crowd_run jobs base l sts c = Some (a1, c1) \<Longrightarrow> crowd_run jobs base l sts' c1 = Some (a2, c2) \<Longrightarrow>
     crowd_run jobs base l (sts @ sts') c = Some (a1 @ a2, c2)"
  by (induction sts arbitrary: c a1) (auto split: option.splits)

lemma crowd_connects:
  "cr_next c + m \<le> length jobs \<Longrightarrow>
     \<exists>acts. crowd_run jobs base l (replicate m (Connect [])) c = Some (acts, c\<lparr>cr_next := cr_next c + m\<rparr>)"
proof (induction m arbitrary: c)
  case (Suc m)
  have "cr_next (c\<lparr>cr_next := cr_next c + 1\<rparr>) + m \<le> length jobs" using Suc.prems by simp
  from Suc.IH [OF this] Suc.prems show ?case by (auto simp: crowd_step_def)
qed simp

lemma crowd_inputs:
  "distinct ks \<Longrightarrow> \<forall>k \<in> set ks. k < cr_next c \<and> k \<notin> cr_reported c \<Longrightarrow>
     \<exists>acts. crowd_run jobs base l (map (\<lambda>k. Input k [] None) ks) c =
       Some (acts, c\<lparr>cr_reported := set ks \<union> cr_reported c, cr_queue := cr_queue c @ ks\<rparr>)"
proof (induction ks arbitrary: c)
  case (Cons k ks)
  let ?c = "c\<lparr>cr_reported := insert k (cr_reported c), cr_queue := cr_queue c @ [k]\<rparr>"
  have "\<forall>i \<in> set ks. i < cr_next ?c \<and> i \<notin> cr_reported ?c" using Cons.prems by auto
  from Cons.IH [OF _ this] Cons.prems show ?case by (auto simp: crowd_step_def)
qed simp

lemma crowd_serves:
  "cr_queue c = q \<Longrightarrow>
     \<exists>acts. crowd_run jobs base l (replicate (length q) (Serve 0)) c =
       Some (acts, c\<lparr>cr_queue := [], cr_served := cr_served c @ q\<rparr>)"
proof (induction q arbitrary: c)
  case (Cons k q)
  let ?c = "c\<lparr>cr_queue := q, cr_served := cr_served c @ [k]\<rparr>"
  have "cr_queue ?c = q" by simp
  from Cons.IH [OF this] Cons.prems show ?case by (auto simp: crowd_step_def)
qed simp

lemma crowd_all_served:
  "\<exists>stages acts c. crowd_run jobs base l stages crowd_start = Some (acts, c) \<and> cr_served c = [0..<length jobs]"
proof -
  let ?n = "length jobs"
  let ?c1 = "crowd_start\<lparr>cr_next := ?n\<rparr>"
  let ?c2 = "?c1\<lparr>cr_reported := {0..<?n}, cr_queue := [0..<?n]\<rparr>"
  let ?c3 = "?c2\<lparr>cr_queue := [], cr_served := [0..<?n]\<rparr>"
  obtain a1 where a1: "crowd_run jobs base l (replicate ?n (Connect [])) crowd_start = Some (a1, ?c1)"
    using crowd_connects [of crowd_start ?n jobs base l] by (auto simp: crowd_start_def)
  obtain a2 where a2: "crowd_run jobs base l (map (\<lambda>k. Input k [] None) [0..<?n]) ?c1 = Some (a2, ?c2)"
    using crowd_inputs [of "[0..<?n]" ?c1 jobs base l] by (auto simp: crowd_start_def)
  obtain a3 where a3: "crowd_run jobs base l (replicate ?n (Serve 0)) ?c2 = Some (a3, ?c3)"
    using crowd_serves [of ?c2 "[0..<?n]" jobs base l] by (auto simp: crowd_start_def)
  from crowd_run_append [OF a1 crowd_run_append [OF a2 a3]] show ?thesis by fastforce
qed

section \<open>Properties\<close>

text \<open>
  C5. The server backs up what many clients send at once. In any schedule in which connections
  are accepted, their inputs reported, requests taken up by workers in the order of the queue and
  heartbeats sent, in any interleaving, and while descriptors and the pool's limit suffice, no
  fault occurs, and every file whose served connections bring blocks that cover it is at its
  path with exactly its content (followed by the tail of an older, longer version), however its
  blocks are spread over connections and whatever the other connections bring; no other path
  is touched. All accepted connections are still open, those reported are disarmed, and the
  queue holds the ones reported and not yet served, in order.
\<close>

theorem server_backs_up_crowd:
  assumes "crowd_ready jobs base s" "\<forall>j \<in> set jobs. job_ok j"
    and "crowd_run jobs base (listenfd s) stages crowd_start = Some (acts, c)"
  shows "\<exists>s'. ser_run acts s = Some (Inr (Some s')) \<and> conns s' = conns s + cr_next c \<and>
     m_workqueue (pool_of s') = map (\<lambda>k. Some (base + k)) (cr_queue c) \<and>
     open_fds (world s') = int ` {..<base + cr_next c} \<and>
     (\<forall>k \<in> cr_reported c. epoll (world s') (int (base + k)) = Some (0x40002001, False)) \<and>
     (\<forall>p F. (\<forall>k \<in> set (cr_served c). job_path (jobs ! k) = p \<longrightarrow> j_file (jobs ! k) = F) \<longrightarrow>
        (\<forall>i < length F. covers (blocks_for jobs (cr_served c) p) i) \<longrightarrow>
        content_at (world s') p = F @ drop (length F) (content_at (world s) p)) \<and>
     (\<forall>p. p \<notin> (\<lambda>k. job_path (jobs ! k)) ` set (cr_served c) \<longrightarrow> fs (world s') p = fs (world s) p)"
proof -
  from crowd_contents [OF assms] obtain s' where
    run: "ser_run acts s = Some (Inr (Some s'))" and sim: "crowd_sim jobs base s c s'" by blast
  note sim = crowd_simD [OF sim]
  have "content_at (world s') p = F @ drop (length F) (content_at (world s) p)"
    if agree: "\<forall>k \<in> set (cr_served c). job_path (jobs ! k) = p \<longrightarrow> j_file (jobs ! k) = F"
      and cover: "\<forall>i < length F. covers (blocks_for jobs (cr_served c) p) i" for p F
  proof -
    have "block_of F b" if b: "b \<in> set (blocks_for jobs (cr_served c) p)" for b
    proof -
      from b obtain k pad d where k: "k \<in> set (cr_served c)" "job_path (jobs ! k) = p"
          "(pad, d) \<in> set (j_messages (jobs ! k))" "b = block (TAG_of_data d)"
        by (auto simp: blocks_for_def job_blocks_def)
      then have "jobs ! k \<in> set jobs" using sim(9) by (auto simp: crowd_conns_def)
      then have "block_of (j_file (jobs ! k)) b" using assms(2) k(3,4) by (fastforce simp: job_ok_def client_block_def)
      moreover have "j_file (jobs ! k) = F" using agree k(1,2) by blast
      ultimately show ?thesis by simp
    qed
    with splices_cover [of "blocks_for jobs (cr_served c) p" F NUL "content_at (world s) p"] cover sim(10)
    show ?thesis by (simp add: crowd_files_def)
  qed
  moreover have "\<forall>k \<in> cr_reported c. epoll (world s') (int (base + k)) = Some (0x40002001, False)"
    using sim(6,9) by (auto simp: crowd_fds_def crowd_conns_def)
  ultimately show ?thesis using run sim(5,6,8,10) by (simp add: crowd_files_def crowd_pool_def crowd_fds_def)
qed

definition sample_jobs :: "job list" where
  "sample_jobs =
     [\<lparr>j_mac = ''m1'', j_name = ''d/f'', j_file = ''abcde'',
       j_messages = [(''xy'', sample_data 0 2 0 ''ab'')], j_thread = 9\<rparr>,
      \<lparr>j_mac = ''m1'', j_name = ''d/f'', j_file = ''abcde'',
       j_messages = [(''xy'', sample_data 2 5 0 ''cde'')], j_thread = 10\<rparr>,
      \<lparr>j_mac = ''m1'', j_name = ''g'', j_file = ''x'', j_messages = [(''xy'', sample_g)], j_thread = 11\<rparr>]"

definition sample_stages :: "stage list" where
  "sample_stages =
     [Connect [], Connect [], Input 1 [] None, Pulse 9, Input 0 [] None, Serve 8, Connect [], Serve 7,
      Input 2 [] None, Pulse 11, Serve 8]"

lemma sample_jobs_ok:
  "\<forall>j \<in> set sample_jobs. job_ok j" "map job_path sample_jobs = [''m1/d@f'', ''m1/d@f'', ''m1/g'']"
proof -
  have blocks: "client_block ''m1'' ''d/f'' ''abcde'' (sample_data 2 5 0 ''cde'')"
      "client_block ''m1'' ''d/f'' ''abcde'' (sample_data 0 2 0 ''ab'')"
    using sample_ok [of 2 5 0 "''cde''"] sample_ok [of 0 2 0 "''ab''"]
    by (simp_all add: client_block_def block_def block_ok_def block_of_def is_long_def is_int_def)
  have "client_block ''m1'' ''g'' ''x'' sample_g"
    using sample_g_fields by (simp add: client_block_def block_of_def)
  with blocks show "\<forall>j \<in> set sample_jobs. job_ok j" by (simp add: sample_jobs_def job_ok_def)
  show "map job_path sample_jobs = [''m1/d@f'', ''m1/d@f'', ''m1/g'']"
    using sample_path sample_g_path by (simp add: sample_jobs_def job_path_def)
qed

lemma sample_crowd_ready: "crowd_ready sample_jobs 5 sample_ser"
proof -
  have open_fds: "open_fds (world sample_ser) = int ` {..<5}"
    by (auto simp: sample_ser_def numeral_eq_Suc lessThan_Suc)
  have "new_object (users sample_ser ! (5 + k))" if "k < 3" for k
    using that sample_ser_ok(4) by (simp add: new_object_def sample_ser_def MAX_FD_def sample_monitor_def)
  moreover have "file_ready ''m1'' ''g'' (world sample_ser)"
    using sample_ser_ok(5) sample_g_path
    by (simp add: file_ready_def dir_ready_def sample_ser_def sample_server_def)
  moreover have "int (length sample_jobs) \<le> m_max_requests (pool_of sample_ser)"
    by (simp add: sample_jobs_def sample_ser_def tp_default_def)
  moreover have "\<forall>k. epoll (world sample_ser) (int (5 + k)) = None" "hearts (world sample_ser) = []"
    "pool_of sample_ser = tp_default" "listenfd sample_ser < 5" "fd_limit sample_ser = 1024"
    by (simp_all add: sample_ser_def sample_server_def)
  ultimately show ?thesis
    using sample_ser_ok open_fds tp_default_ok unfolding crowd_ready_def crowd_room_def
    by (simp add: sample_jobs_def MAX_FD_def)
qed

lemma server_backs_up_crowd_witness:
  "\<exists>acts c s'. crowd_run sample_jobs 5 3 sample_stages crowd_start = Some (acts, c) \<and> cr_served c = [1, 0, 2] \<and>
     ser_run acts sample_ser = Some (Inr (Some s')) \<and>
     content_at (world s') ''m1/d@f'' = ''abcde'' \<and> content_at (world s') ''m1/g'' = ''x''"
proof -
  have len: "length sample_jobs = 3" by (simp add: sample_jobs_def)
  have "\<exists>acts c. crowd_run sample_jobs 5 3 sample_stages crowd_start = Some (acts, c) \<and> cr_served c = [1, 0, 2]"
    by (simp add: sample_stages_def crowd_start_def crowd_step_def len)
  then obtain acts c where c: "crowd_run sample_jobs 5 3 sample_stages crowd_start = Some (acts, c)" "cr_served c = [1, 0, 2]"
    by blast
  have "crowd_run sample_jobs 5 (listenfd sample_ser) sample_stages crowd_start = Some (acts, c)"
    using c(1) by (simp add: sample_ser_def)
  from server_backs_up_crowd [OF sample_crowd_ready sample_jobs_ok(1) this] obtain s' where
    s': "ser_run acts sample_ser = Some (Inr (Some s'))"
    and all: "\<And>p F. (\<forall>k \<in> set (cr_served c). job_path (sample_jobs ! k) = p \<longrightarrow> j_file (sample_jobs ! k) = F) \<Longrightarrow>
       (\<forall>i < length F. covers (blocks_for sample_jobs (cr_served c) p) i) \<Longrightarrow>
       content_at (world s') p = F @ drop (length F) (content_at (world sample_ser) p)"
    by blast
  have paths: "job_path (sample_jobs ! 0) = ''m1/d@f''" "job_path (sample_jobs ! 1) = ''m1/d@f''"
    "job_path (sample_jobs ! 2) = ''m1/g''"
    using sample_jobs_ok(2) by (simp_all add: sample_jobs_def)
  have old: "content_at (world sample_ser) p = []" for p
    by (simp add: content_at_def sample_ser_def sample_server_def)
  have file_of: "j_file (sample_jobs ! 0) = ''abcde''" "j_file (sample_jobs ! 1) = ''abcde''"
      "j_file (sample_jobs ! Suc 0) = ''abcde''" "j_file (sample_jobs ! 2) = ''x''"
    by (simp_all add: sample_jobs_def)
  have blocks: "blocks_for sample_jobs [1, 0, 2] ''m1/d@f'' = [(2, ''cde''), (0, ''ab'')]"
      "blocks_for sample_jobs [1, 0, 2] ''m1/g'' = [(0, ''x'')]"
    using paths sample_g_fields
    by (simp_all add: blocks_for_def) (simp_all add: sample_jobs_def job_blocks_def block_def)
  have "content_at (world s') ''m1/d@f'' = ''abcde'' @ drop (length ''abcde'') (content_at (world sample_ser) ''m1/d@f'')"
    using file_of paths(2) by (intro all) (auto simp: c(2) paths covers_def blocks [unfolded One_nat_def] blocks)
  moreover have "content_at (world s') ''m1/g'' = ''x'' @ drop (length ''x'') (content_at (world sample_ser) ''m1/g'')"
    using file_of paths(2) by (intro all) (auto simp: c(2) paths covers_def blocks [unfolded One_nat_def] blocks)
  ultimately show ?thesis using c s' by (simp add: old)
qed

end
