(* ===== verification/Log_Threads.thy ===== *)
theory Log_Threads
  imports Log_Model
begin

text \<open>
  The logger used by several threads. \<open>Log::write_log\<close> of \<open>server/log/log.cpp\<close> holds the mutex three
  times, not once: to count the line and rotate, to compose the line in the shared buffer, and
  to write it. The server's main loop, its workers and its heartbeat threads all log, so the
  sections of different calls interleave. First what a logger needs to serve any call, then the
  threads as a step relation on sections, scheduled in any order.
\<close>

section \<open>A logger that is ready\<close>

definition log_ready :: "log \<Rightarrow> bool" where
  "log_ready s \<longleftrightarrow>
     log_buf_ok s \<and> 700 \<le> m_log_buf_size s \<and> m_fp s \<noteq> None \<and> \<not> m_is_async s \<and>
     m_split_lines s \<noteq> 0 \<and> terminated (dir_name s) \<and> terminated (log_name s)"

text \<open>What the open file holds, once the stream is written out.\<close>

definition log_content :: "log \<Rightarrow> string" where
  "log_content s = (case m_fp s of None \<Rightarrow> [] | Some st \<Rightarrow> file_text s (s_name st) @ s_pending st)"

lemma content_count [simp]: "log_content (s\<lparr>m_count := n\<rparr>) = log_content s"
  by (cases "m_fp s") (simp_all add: log_content_def file_text_def)

lemma stamp_short: "wf_tm t \<Longrightarrow> 0 \<le> usec \<Longrightarrow> usec < 1000000 \<Longrightarrow> length (stamp t usec level) \<le> 36"
  using stamp_length [of t usec level] level_tag_length [of level] by simp

lemma ready_flush: "log_ready s \<Longrightarrow> log_ready (log_flush s) \<and> log_content (log_flush s) = log_content s"
  by (auto simp: log_ready_def log_flush_def fflush_log_def log_buf_ok_def log_content_def file_text_def)

lemma ready_count:
  assumes "log_ready s" "wf_tm t"
  shows "\<exists>s'. count_line t True s = Inr s' \<and> log_ready s'"
proof -
  let ?s = "s\<lparr>m_count := m_count s + 1\<rparr>"
  from assms(1) obtain st where st: "m_fp ?s = Some st" "terminated (dir_name ?s)" "terminated (log_name ?s)"
    by (auto simp: log_ready_def)
  have "log_ready ?s" using assms(1) by (simp add: log_ready_def log_buf_ok_def)
  moreover from this have "log_ready (fopen_append True name ((fflush_log ?s)\<lparr>m_fp := None,
      m_today := d, m_count := n\<rparr>))" for name d n
    by (auto simp: log_ready_def fopen_append_def fflush_log_def log_buf_ok_def)
  ultimately show ?thesis using rotate_result [OF assms(2) st] assms(1)
    by (auto simp: count_line_def Let_def needs_rotation_def log_ready_def)
qed

text \<open>The stream a line goes to, with the day and the split that decide on a rotation.\<close>

definition same_stream :: "log \<Rightarrow> log \<Rightarrow> bool" where
  "same_stream s s' \<longleftrightarrow>
     m_today s' = m_today s \<and> m_split_lines s' = m_split_lines s \<and>
     map_option s_name (m_fp s') = map_option s_name (m_fp s)"

section \<open>The sections of a call\<close>

text \<open>A message that fits the buffer whatever its stamp.\<close>

definition message_fits :: "string \<Rightarrow> parg list \<Rightarrow> bool" where
  "message_fits fmt args \<longleftrightarrow> (\<exists>msg. c_format fmt args = Inr msg \<and> no_nul msg \<and> length msg \<le> 600)"

definition message_line :: "int \<Rightarrow> string \<Rightarrow> parg list \<Rightarrow> tm \<Rightarrow> int \<Rightarrow> string" where
  "message_line level fmt args t usec = log_line level t usec (projr (c_format fmt args))"

lemma same_stream_trans: "same_stream a b \<Longrightarrow> same_stream b c \<Longrightarrow> same_stream a c"
  by (simp add: same_stream_def)

lemma ready_no_rotation:
  assumes "count_line t True s = Inr s'" "m_today s = tm_mday t" "(m_count s + 1) smod m_split_lines s \<noteq> 0"
  shows "s' = s\<lparr>m_count := m_count s + 1\<rparr>"
  using assms by (auto simp: count_line_def needs_rotation_def Let_def bind_res_eq_Inr split: if_splits)

lemma ready_compose:
  assumes "log_ready s" "message_fits fmt args" "wf_tm t" "0 \<le> usec" "usec < 1000000"
  shows "\<exists>s'. compose_line level fmt args t usec s = Inr (message_line level fmt args t usec, s') \<and> log_ready s' \<and>
    m_count s' = m_count s \<and> same_stream s s' \<and> log_content s' = log_content s"
proof -
  from assms(2) obtain msg where msg: "c_format fmt args = Inr msg" "no_nul msg" "length msg \<le> 600"
    by (auto simp: message_fits_def)
  from assms(1) have s: "log_buf_ok s" "700 \<le> length (m_buf s)"
    by (auto simp: log_ready_def log_buf_ok_def)
  with compose_line_result [OF assms(3-5) s(1) msg(1,2), of level] stamp_short [OF assms(3-5), of level] msg(3)
  obtain b where "compose_line level fmt args t usec s = Inr (log_line level t usec msg, s\<lparr>m_buf := b\<rparr>)"
    "length b = length (m_buf s)" by auto
  moreover have "log_content (s\<lparr>m_buf := b\<rparr>) = log_content s" for b
    by (cases "m_fp s") (simp_all add: log_content_def file_text_def)
  ultimately show ?thesis using s assms(1) msg(1)
    by (simp add: log_ready_def log_buf_ok_def same_stream_def message_line_def)
qed

lemma ready_emit:
  assumes "log_ready s"
  shows "\<exists>s'. emit_line l s = Inr s' \<and> log_ready s' \<and> m_count s' = m_count s \<and> same_stream s s' \<and>
    log_content s' = log_content s @ l"
proof -
  from assms obtain st where "m_fp s = Some st" "\<not> m_is_async s" by (auto simp: log_ready_def)
  with assms show ?thesis
    by (simp add: emit_line_def fputs_log_def log_ready_def log_buf_ok_def same_stream_def log_content_def file_text_def)
qed

section \<open>Threads\<close>

record lcall =
  lc_level :: int
  lc_format :: string
  lc_args :: "parg list"
  lc_time :: tm
  lc_usec :: int

text \<open>Where a thread is in its call, with the time it read and then the line it copied.\<close>

datatype lpc = Outside | Counted lcall | Composed lcall string

text \<open>\<open>lt_todo\<close> are the calls each thread has still to make, \<open>lt_hist\<close> the lines written, with their thread.\<close>

record lthreads =
  lt_log :: log
  lt_pc :: "lpc list"
  lt_todo :: "lcall list list"
  lt_hist :: "(nat \<times> lcall) list"

definition lt_start :: "lcall list list \<Rightarrow> log \<Rightarrow> lthreads" where
  "lt_start progs lg =
     \<lparr>lt_log = lg, lt_pc = replicate (length progs) Outside, lt_todo = progs, lt_hist = []\<rparr>"

text \<open>The next section of thread \<open>i\<close>.\<close>

definition lt_step :: "nat \<Rightarrow> lthreads \<Rightarrow> lthreads res" where
  "lt_step i s =
     (if length (lt_pc s) \<le> i then Inr s
      else case lt_pc s ! i of
        Outside \<Rightarrow>
          (case lt_todo s ! i of
             [] \<Rightarrow> Inr s
           | c # cs \<Rightarrow>
               bind_res (count_line (lc_time c) True (lt_log s)) (\<lambda>lg.
                 Inr (s\<lparr>lt_log := lg, lt_pc := (lt_pc s)[i := Counted c], lt_todo := (lt_todo s)[i := cs]\<rparr>)))
      | Counted c \<Rightarrow>
          bind_res (compose_line (lc_level c) (lc_format c) (lc_args c) (lc_time c) (lc_usec c) (lt_log s))
            (\<lambda>(log_str, lg). Inr (s\<lparr>lt_log := lg, lt_pc := (lt_pc s)[i := Composed c log_str]\<rparr>))
      | Composed c log_str \<Rightarrow>
          bind_res (emit_line log_str (lt_log s)) (\<lambda>lg.
            Inr (s\<lparr>lt_log := lg, lt_pc := (lt_pc s)[i := Outside], lt_hist := lt_hist s @ [(i, c)]\<rparr>)))"

definition lt_run :: "nat list \<Rightarrow> lthreads \<Rightarrow> lthreads res" where
  "lt_run sched s = fold_res lt_step sched s"

text \<open>One thread alone runs \<open>write_log\<close>.\<close>

lemma lt_alone:
  "lt_run [0, 0, 0] (lt_start [[c]] lg) =
     bind_res (write_log (lc_level c) (lc_format c) (lc_args c) (lc_time c) (lc_usec c) True lg) (\<lambda>lg'.
       Inr \<lparr>lt_log = lg', lt_pc = [Outside], lt_todo = [[]], lt_hist = [(0, c)]\<rparr>)"
  by (auto simp: lt_run_def lt_start_def lt_step_def write_log_def bind_res_def split: sum.splits)

section \<open>Invariant\<close>

definition call_ok :: "lcall \<Rightarrow> bool" where
  "call_ok c \<longleftrightarrow>
     message_fits (lc_format c) (lc_args c) \<and> wf_tm (lc_time c) \<and> 0 \<le> lc_usec c \<and> lc_usec c < 1000000"

definition call_line :: "lcall \<Rightarrow> string" where
  "call_line c = message_line (lc_level c) (lc_format c) (lc_args c) (lc_time c) (lc_usec c)"

fun in_flight :: "lpc \<Rightarrow> lcall list" where
  "in_flight Outside = []"
| "in_flight (Counted c) = [c]"
| "in_flight (Composed c l) = [c]"

text \<open>The calls of a thread whose lines have been written.\<close>

definition written_by :: "nat \<Rightarrow> (nat \<times> lcall) list \<Rightarrow> lcall list" where
  "written_by i hist = map snd (filter (\<lambda>h. fst h = i) hist)"

lemma written_by_snoc [simp]:
  "written_by i [] = []" "written_by i (hist @ [(j, c)]) = written_by i hist @ (if j = i then [c] else [])"
  by (simp_all add: written_by_def)

definition lt_inv :: "lcall list list \<Rightarrow> lthreads \<Rightarrow> bool" where
  "lt_inv progs s \<longleftrightarrow>
     log_ready (lt_log s) \<and> length (lt_pc s) = length progs \<and> length (lt_todo s) = length progs \<and>
     (\<forall>i < length progs.
        progs ! i = written_by i (lt_hist s) @ in_flight (lt_pc s ! i) @ lt_todo s ! i \<and>
        (\<forall>c l. lt_pc s ! i = Composed c l \<longrightarrow> l = call_line c))"

text \<open>Within a day and before the next split: the open file has gained the lines written.\<close>

definition lt_same_file :: "log \<Rightarrow> lthreads \<Rightarrow> bool" where
  "lt_same_file lg s \<longleftrightarrow>
     same_stream lg (lt_log s) \<and> 0 \<le> m_count (lt_log s) \<and>
     m_count (lt_log s) + int (sum_list (map length (lt_todo s))) < m_split_lines lg \<and>
     log_content (lt_log s) = log_content lg @ concat (map (call_line \<circ> snd) (lt_hist s))"

lemma lt_step_inv:
  assumes "lt_inv progs s" "\<forall>cs \<in> set progs. \<forall>c \<in> set cs. call_ok c"
  shows "\<exists>s'. lt_step i s = Inr s' \<and> lt_inv progs s' \<and>
    (lt_same_file lg s \<and> (\<forall>cs \<in> set progs. \<forall>c \<in> set cs. tm_mday (lc_time c) = m_today lg) \<longrightarrow>
       lt_same_file lg s')"
proof (cases "i < length progs")
  case False
  then show ?thesis using assms(1) by (simp add: lt_step_def lt_inv_def)
next
  case i: True
  note inv = assms(1) [unfolded lt_inv_def]
  have calls: "set (in_flight (lt_pc s ! i)) \<union> set (lt_todo s ! i) \<subseteq> set (progs ! i)"
    using inv i by auto
  have ok: "call_ok c" if "c \<in> set (in_flight (lt_pc s ! i)) \<union> set (lt_todo s ! i)" for c
    using that calls assms(2) i nth_mem by blast
  show ?thesis
  proof (cases "lt_pc s ! i")
    case Outside
    show ?thesis
    proof (cases "lt_todo s ! i")
      case Nil
      then show ?thesis using Outside assms(1) inv i by (simp add: lt_step_def)
    next
      case (Cons c cs)
      then obtain s1 where s1: "count_line (lc_time c) True (lt_log s) = Inr s1" "log_ready s1"
        using ready_count [of "lt_log s" "lc_time c"] inv ok [of c] by (auto simp: call_ok_def)
      have "lt_same_file lg (s\<lparr>lt_log := s1, lt_pc := (lt_pc s)[i := Counted c], lt_todo := (lt_todo s)[i := cs]\<rparr>)"
        if old: "lt_same_file lg s" and day: "\<forall>cs \<in> set progs. \<forall>c \<in> set cs. tm_mday (lc_time c) = m_today lg"
      proof -
        have sum: "sum_list (map length (lt_todo s)) = Suc (sum_list (map length ((lt_todo s)[i := cs])))"
          using Cons i inv elem_le_sum_list [of i "map length (lt_todo s)"]
          by (simp add: map_update sum_list_update)
        have "c \<in> set (progs ! i)" using calls Cons by auto
        then have "tm_mday (lc_time c) = m_today lg" using day nth_mem [OF i] by blast
        then have "m_today (lt_log s) = tm_mday (lc_time c)"
          using old by (simp add: lt_same_file_def same_stream_def)
        moreover have "(m_count (lt_log s) + 1) smod m_split_lines (lt_log s) \<noteq> 0"
          using old sum by (simp add: signed_modulo_int_def lt_same_file_def same_stream_def)
        ultimately have "s1 = (lt_log s)\<lparr>m_count := m_count (lt_log s) + 1\<rparr>"
          using s1(1) by (intro ready_no_rotation)
        then show ?thesis using old sum by (simp add: lt_same_file_def same_stream_def)
      qed
      then show ?thesis using s1 Cons Outside inv i
        by (auto simp: lt_step_def lt_inv_def nth_list_update)
    qed
  next
    case (Counted c)
    then obtain s1 where "compose_line (lc_level c) (lc_format c) (lc_args c) (lc_time c) (lc_usec c) (lt_log s) =
        Inr (call_line c, s1)" "log_ready s1" "m_count s1 = m_count (lt_log s)" "same_stream (lt_log s) s1"
      "log_content s1 = log_content (lt_log s)"
      using ready_compose [of "lt_log s" "lc_format c" "lc_args c" "lc_time c" "lc_usec c" "lc_level c"] inv ok [of c]
      by (auto simp: call_ok_def call_line_def)
    then show ?thesis using Counted inv i
      by (auto simp: lt_step_def lt_inv_def lt_same_file_def nth_list_update intro: same_stream_trans)
  next
    case (Composed c l)
    then obtain s1 where "emit_line l (lt_log s) = Inr s1" "log_ready s1" "m_count s1 = m_count (lt_log s)"
      "same_stream (lt_log s) s1" "log_content s1 = log_content (lt_log s) @ call_line c"
      using ready_emit [of "lt_log s" l] inv i by auto
    then show ?thesis using Composed inv i
      by (auto simp: lt_step_def lt_inv_def lt_same_file_def nth_list_update intro: same_stream_trans)
  qed
qed

lemma lt_run_inv:
  assumes "lt_inv progs s" "\<forall>cs \<in> set progs. \<forall>c \<in> set cs. call_ok c"
  shows "\<exists>s'. lt_run sched s = Inr s' \<and> lt_inv progs s' \<and>
    (lt_same_file lg s \<and> (\<forall>cs \<in> set progs. \<forall>c \<in> set cs. tm_mday (lc_time c) = m_today lg) \<longrightarrow>
       lt_same_file lg s')"
  using assms(1)
proof (induction sched arbitrary: s)
  case (Cons i sched)
  from lt_step_inv [OF Cons.prems assms(2), of i lg] obtain s1 where
    "lt_step i s = Inr s1" "lt_inv progs s1"
    "lt_same_file lg s \<and> (\<forall>cs \<in> set progs. \<forall>c \<in> set cs. tm_mday (lc_time c) = m_today lg) \<longrightarrow>
       lt_same_file lg s1" by blast
  with Cons.IH [of s1] show ?case by (auto simp: lt_run_def)
qed (simp add: lt_run_def)

section \<open>Properties\<close>

text \<open>
  C18. The logger can be shared. Any number of threads log messages that fit, their sections
  scheduled in any order: no section ever faults, across any rotations; the calls of each thread
  are written in the order the thread makes them, none twice and none lost; and, within a day
  and before the next split, the log gains exactly the lines of the calls, each in one piece,
  in the order in which their last sections run, although all are composed in one buffer.
\<close>

theorem log_threads_safe:
  assumes "log_ready lg" "\<forall>cs \<in> set progs. \<forall>c \<in> set cs. call_ok c"
  shows "\<exists>s. lt_run sched (lt_start progs lg) = Inr s \<and> log_ready (lt_log s) \<and>
     (\<forall>i < length progs. progs ! i = written_by i (lt_hist s) @ in_flight (lt_pc s ! i) @ lt_todo s ! i) \<and>
     ((\<forall>cs \<in> set progs. \<forall>c \<in> set cs. tm_mday (lc_time c) = m_today lg) \<and> 0 \<le> m_count lg \<and>
        m_count lg + int (sum_list (map length progs)) < m_split_lines lg \<longrightarrow>
      log_content (lt_log s) = log_content lg @ concat (map (call_line \<circ> snd) (lt_hist s)))"
proof -
  have "lt_inv progs (lt_start progs lg)" using assms(1) by (simp add: lt_inv_def lt_start_def)
  from lt_run_inv [OF this assms(2), of sched lg] obtain s where
    "lt_run sched (lt_start progs lg) = Inr s" "lt_inv progs s"
    "lt_same_file lg (lt_start progs lg) \<and> (\<forall>cs \<in> set progs. \<forall>c \<in> set cs. tm_mday (lc_time c) = m_today lg) \<longrightarrow>
       lt_same_file lg s" by blast
  then show ?thesis by (auto simp: lt_inv_def lt_same_file_def lt_start_def same_stream_def)
qed

definition ready_sample :: log where
  "ready_sample = log_sample\<lparr>m_log_buf_size := 800, m_buf := c_memset 800, m_split_lines := 2000000\<rparr>"

definition call_sample :: "string \<Rightarrow> lcall" where
  "call_sample msg = \<lparr>lc_level = 1, lc_format = msg, lc_args = [], lc_time = tm_sample, lc_usec = 5\<rparr>"

lemma log_threads_safe_witness:
  "\<exists>s. lt_run [0, 1, 0, 1, 1, 0] (lt_start [[call_sample ''a''], [call_sample ''b'']] ready_sample) = Inr s \<and>
     log_content (lt_log s) = ''2024-03-07 01:02:03.000005 [info]: b'' @ newline #
       ''2024-03-07 01:02:03.000005 [info]: a'' @ [newline]"
proof -
  let ?progs = "[[call_sample ''a''], [call_sample ''b'']]" and ?sched = "[0, 1, 0, 1, 1, 0]"
  have ready: "log_ready ready_sample"
    by (simp add: log_ready_def ready_sample_def log_buf_ok_def log_sample_ok) (simp add: c_memset_def)
  have "c_format ''a'' [] = Inr ''a''" "c_format ''b'' [] = Inr ''b''" by code_simp+
  then have ok: "\<forall>cs \<in> set ?progs. \<forall>c \<in> set cs. call_ok c"
    by (simp add: call_ok_def call_sample_def message_fits_def log_sample_ok)
  have day: "\<forall>cs \<in> set ?progs. \<forall>c \<in> set cs. tm_mday (lc_time c) = m_today ready_sample"
    by (simp add: call_sample_def ready_sample_def log_sample_ok)
  from log_threads_safe [OF ready ok, of ?sched] obtain s where
    s: "lt_run ?sched (lt_start ?progs ready_sample) = Inr s"
    and c: "log_content (lt_log s) = log_content ready_sample @ concat (map (call_line \<circ> snd) (lt_hist s))"
    using day by (auto simp: ready_sample_def log_sample_ok)
  have "lt_hist s = [(1, call_sample ''b''), (0, call_sample ''a'')]"
    using s by (auto simp: lt_run_def lt_start_def lt_step_def bind_res_eq_Inr)
  moreover have "call_line (call_sample ''b'') = ''2024-03-07 01:02:03.000005 [info]: b'' @ [newline]"
    "call_line (call_sample ''a'') = ''2024-03-07 01:02:03.000005 [info]: a'' @ [newline]"
    "log_content ready_sample = []"
    by code_simp+
  ultimately show ?thesis using s c by auto
qed

end
