(* ===== verification/Server_Log.thy ===== *)
theory Server_Log
  imports Server_Types Log_Threads
begin

text \<open>
  The server and its logger together. The model of the server lists its calls to the logger
  (\<open>LOG_DEBUG\<close> to \<open>LOG_ERROR\<close> and \<open>flush\<close> of \<open>server/log/log.h\<close>); here they are played back
  through \<open>Log::write_log\<close>. That needs a bound on every message a run can produce, which is an
  invariant of the runs: descriptors are of type \<open>int\<close>, and paths come from the array
  \<open>backup_f_name\<close> of 512 bytes.
\<close>

section \<open>Messages that fit\<close>

definition call_fits :: "log_event \<Rightarrow> bool" where
  "call_fits e =
     (case e of
        Flushed \<Rightarrow> True
      | Logged _ fmt args \<Rightarrow> message_fits fmt args)"

definition logs_fit :: "server \<Rightarrow> bool" where
  "logs_fit w \<longleftrightarrow> (\<forall>e \<in> set (logs w). call_fits e)"

lemma logs_fit_call [simp]:
  "logs_fit (log_call level fmt args w) \<longleftrightarrow> logs_fit w \<and> call_fits (Logged level fmt args)"
  "logs_fit (flush_call w) \<longleftrightarrow> logs_fit w"
  by (auto simp: logs_fit_def log_call_def flush_call_def call_fits_def)

lemma logs_fit_update [simp]:
  "logs_fit (w\<lparr>fs := f\<rparr>) \<longleftrightarrow> logs_fit w" "logs_fit (w\<lparr>dirs := d\<rparr>) \<longleftrightarrow> logs_fit w"
  "logs_fit (w\<lparr>epoll := e\<rparr>) \<longleftrightarrow> logs_fit w" "logs_fit (w\<lparr>open_fds := n\<rparr>) \<longleftrightarrow> logs_fit w"
  "logs_fit (w\<lparr>nonblocking := n\<rparr>) \<longleftrightarrow> logs_fit w" "logs_fit (w\<lparr>sent := t\<rparr>) \<longleftrightarrow> logs_fit w"
  "logs_fit (w\<lparr>hearts := hs\<rparr>) \<longleftrightarrow> logs_fit w"
  by (simp_all add: logs_fit_def)

lemma show_int_short: "is_int x \<Longrightarrow> length (show_int False 0 x) \<le> 11"
  using digits_of_length_le [of "nat \<bar>x\<bar>" 9]
  by (cases "x < 0") (auto simp: show_int_def Let_def is_int_def nat_less_iff)

lemma is_int_c_int: "is_int (c_int x)"
  unfolding is_int_def c_int_def
  using signed_take_bit_int_greater_eq_minus_exp [of 31 x] signed_take_bit_int_less_exp [of 31 x] by blast

text \<open>The calls of the sources, one by one.\<close>

lemma fits_int:
  assumes "is_int x"
  shows "call_fits (Logged l '' accept errno [fd=%d]'' [PInt x])"
    "call_fits (Logged l ''EPOLLREHUO|EPOLLHUP|EPOLLERR  sockfd =%d'' [PInt x])"
    "call_fits (Logged l ''deal with the client(%d)'' [PInt x])"
    "call_fits (Logged l ''[backup]client exit fd : %d'' [PInt x])"
    "call_fits (Logged l (''##[back up]>>PTHREAD ID = %d'' @ [newline]) [PInt x])"
    "call_fits (Logged l (''##[back up]>>IN backup() before memecpy'' @ [newline]) [PInt x])"
  using show_int_short [OF assms] by (simp_all add: call_fits_def message_fits_def format_eval)

lemmas fits_lines = fits_int(5,6) [simplified]

lemma fits_path:
  assumes "no_nul path" "length path < 512"
  shows "call_fits (Logged l ''[backup]open errno!open return -1 |file_name:%s|'' [PStr path])"
    "call_fits (Logged l ''[backup]open success!|file_name:%s|'' [PStr path])"
    "call_fits (Logged l ''[recover]open errno!open return -1 |file_name:%s|'' [PStr path])"
    "call_fits (Logged l ''[recover]open success |file_name:&s|'' [PStr path])"
  using assms by (simp_all add: call_fits_def message_fits_def format_eval)

section \<open>The operations of a monitor\<close>

definition obj_ok :: "monitor \<Rightarrow> bool" where
  "obj_ok mon \<longleftrightarrow> wf_mon mon \<and> is_int (m_sockfd mon)"

text \<open>What an operation that answers an object and a world must keep.\<close>

definition keeps_log :: "monitor \<times> server \<Rightarrow> bool" where
  "keeps_log r \<longleftrightarrow> obj_ok (fst r) \<and> logs_fit (snd r)"

lemma keeps_log_simp [simp]: "keeps_log (mon, w) \<longleftrightarrow> obj_ok mon \<and> logs_fit w"
  by (simp add: keeps_log_def)

lemma sound_conj: "sound P r \<Longrightarrow> sound Q r \<Longrightarrow> sound (\<lambda>x. P x \<and> Q x) r"
  by (cases r) auto

lemma sound_read_short: "length b \<le> n \<Longrightarrow> sound (\<lambda>s. no_nul s \<and> length s < n) (c_read b)"
  using cstr_length_less [of b] by (auto simp: c_read_def)

lemma logs_fit_write: "write_block fd m w = Inr w' \<Longrightarrow> logs_fit w \<Longrightarrow> logs_fit w'"
  by (auto simp: write_block_def pwrite_file_def Let_def split: option.splits if_splits)

lemma logs_fit_mkdir [simp]: "logs_fit (sys_mkdir p w) \<longleftrightarrow> logs_fit w"
  by (simp add: sys_mkdir_def)

lemma logs_fit_open [simp]: "logs_fit (snd (open_creat p w)) \<longleftrightarrow> logs_fit w"
  by (auto simp: open_creat_def split: option.splits)

lemma logs_fit_send [simp]: "logs_fit (send_to fd bs w) \<longleftrightarrow> logs_fit w"
  by (simp add: send_to_def)

lemma log_backup:
  assumes "obj_ok mon" "logs_fit w"
  shows "sound keeps_log (mon_backup pth mon w)"
proof -
  from assms(1) obtain m where m: "masg mon = Some m" "wf_TAG m" "length (backup_f_name mon) = BACKUP_F_NAME"
    by (auto simp: obj_ok_def wf_mon_def)
  have name: "sound (\<lambda>b. length b = BACKUP_F_NAME) (build_path m' (backup_f_name mon))" for m'
    by (rule sound_build_path [OF m(3)])
  have after: "obj_ok (mon\<lparr>masg := Some (transf_file_name m), backup_f_name := name\<rparr>)"
    if "length name = BACKUP_F_NAME" for name
    using assms(1) m(2) that by (simp add: obj_ok_def wf_mon_def)
  have rest: "sound keeps_log (bind_res (write_block fd m' w5) (\<lambda>w6. Inr (mon', w6)))"
    if "obj_ok mon'" "logs_fit w5" for fd m' w5 mon'
    using that logs_fit_write [of fd m' w5] sound_write_block [of fd m' w5]
    by (cases "write_block fd m' w5") auto
  have path: "sound (\<lambda>s. no_nul s \<and> length s < 512) (c_read b)" if "length b = BACKUP_F_NAME" for b
    by (rule sound_read_short) (use that in \<open>simp add: BACKUP_F_NAME_def\<close>)
  show ?thesis unfolding mon_backup_def Let_def m(1) deref_simps bind_res_Inr
    by (rule sound_bind [OF sound_c_read], rule sound_bind [OF name], rule sound_bind [OF path], assumption)
      (use assms(2) in \<open>auto split: prod.splits option.splits intro!: rest after fits_int fits_lines fits_path is_int_c_int
         simp: is_int_def dest!: arg_cong [of "open_creat _ _" _ snd]\<close>)
qed

lemma log_recover:
  assumes "obj_ok mon" "logs_fit w"
  shows "sound_run keeps_log (mon_recover mon w)"
proof -
  have "sound_run (\<lambda>(mon', w'). logs_fit w') (mon_recover mon w)"
  proof -
    from assms(1) obtain m r where m: "masg mon = Some m" "rebag mon = Some r"
        "length (backup_f_name mon) = BACKUP_F_NAME"
      by (auto simp: obj_ok_def wf_mon_def)
    have loop: "sound_run (\<lambda>(mon', w'). logs_fit w')
        (case recover_loop fd rest r1 w1 of None \<Rightarrow> None | Some (r2, w2) \<Rightarrow> Some (Inr (f r2, w2)))"
      if "logs_fit w1" for fd rest r1 w1 and f :: "RECOVER \<Rightarrow> monitor"
      using that recover_loop_file [of fd "the rest" r1 w1] recover_loop_stuck [of fd r1 w1] by (cases rest) auto
    have path: "sound (\<lambda>s. no_nul s \<and> length s < 512) (c_read b)" if "length b = BACKUP_F_NAME" for b
      by (rule sound_read_short) (use that in \<open>simp add: BACKUP_F_NAME_def\<close>)
    show ?thesis unfolding mon_recover_def Let_def m(1,2) deref_simps bind_run_simps
      by (rule sound_bind_run, simp, rule sound_build_path [OF m(3)],
          rule sound_bind_run, simp, rule path, assumption,
          (rule sound_bind_run, simp, rule sound_c_strcpy)+)
        (rule loop, use assms(2) in \<open>auto split: opened.splits intro: fits_path\<close>)
  qed
  moreover have "sound_run (\<lambda>(mon', _). wf_mon mon') (mon_recover mon w)"
    using sound_recover assms(1) by (simp add: obj_ok_def)
  moreover have "m_sockfd (fst r) = m_sockfd mon" if "mon_recover mon w = Some (Inr r)" for r
    using recover_keeps [of mon w "fst r" "snd r"] that by (simp add: same_object_def)
  ultimately show ?thesis using assms(1)
    by (cases "mon_recover mon w"; cases "the (mon_recover mon w)")
      (simp_all add: keeps_log_def obj_ok_def split_beta)
qed

lemma log_process:
  assumes "obj_ok mon" "logs_fit w" "\<forall>bs. Rv_bytes bs \<in> set evs \<longrightarrow> length bs \<le> sizeof_data"
  shows "sound_run (\<lambda>(mon', w', _). keeps_log (mon', w')) (mon_process pth evs mon w)"
  using assms
proof (induction pth evs mon w rule: mon_process.induct)
  case (4 pth evs mon w)
  then show ?case by (auto simp: obj_ok_def intro: fits_int)
next
  case (5 pth bs evs mon w)
  from "5.prems" obtain m0 where m0: "masg mon = Some m0" "wf_TAG m0" by (auto simp: obj_ok_def wf_mon_def)
  let ?mon = "mon\<lparr>masg := Some (recv_into bs m0)\<rparr>"
  have ok: "obj_ok ?mon" using "5.prems" m0 by (simp add: obj_ok_def wf_mon_def wf_recv_into)
  consider "t_sign (recv_into bs m0) = 0" | "t_sign (recv_into bs m0) = 1"
    | "t_sign (recv_into bs m0) \<noteq> 0" "t_sign (recv_into bs m0) \<noteq> 1" by blast
  then show ?case
  proof cases
    case 1
    have later: "sound_run (\<lambda>(mon', w', _). keeps_log (mon', w')) (case r of (m2, w2) \<Rightarrow> mon_process pth evs m2 w2)"
      if "keeps_log r" for r
      using "5.IH"(1) [OF refl refl, of m0 "fst r" "snd r"] 1 that "5.prems"(3) by (cases r) auto
    have "sound_run keeps_log (Some (mon_backup pth ?mon w))" using log_backup [OF ok "5.prems"(2)] by simp
    from sound_bind_run [OF this later] show ?thesis using m0 1 by (simp add: Let_def)
  next
    case 2
    have later: "sound_run (\<lambda>(mon', w', _). keeps_log (mon', w')) (case r of (m2, w2) \<Rightarrow> mon_process pth evs m2 w2)"
      if "keeps_log r" for r
      using "5.IH"(2) [OF refl refl, of m0 "fst r" "snd r"] 2 that "5.prems"(3) by (cases r) auto
    from sound_bind_run [OF log_recover [OF ok "5.prems"(2)] later]
    show ?thesis using m0 2 by (simp add: Let_def)
  next
    case 3
    with "5.IH"(3) [OF refl refl, of m0] "5.prems" m0 ok show ?thesis by (simp add: Let_def)
  qed
qed auto

section \<open>Runs\<close>

definition log_inv :: "ser \<Rightarrow> bool" where
  "log_inv s \<longleftrightarrow>
     length (users s) = MAX_FD \<and> (\<forall>mon \<in> set (users s). obj_ok mon) \<and> is_int (listenfd s) \<and> logs_fit (world s)"

definition log_next :: "ser option \<Rightarrow> bool" where
  "log_next r \<longleftrightarrow> (case r of None \<Rightarrow> True | Some s \<Rightarrow> log_inv s)"

lemma log_next_simps [simp]: "log_next None" "log_next (Some s) \<longleftrightarrow> log_inv s"
  by (simp_all add: log_next_def)

lemma log_inv_update [simp]:
  "log_inv (s\<lparr>pool_of := p\<rparr>) \<longleftrightarrow> log_inv s" "log_inv (s\<lparr>conns := n\<rparr>) \<longleftrightarrow> log_inv s"
  by (simp_all add: log_inv_def)

lemma log_inv_world: "log_inv s \<Longrightarrow> logs_fit w \<Longrightarrow> log_inv (s\<lparr>world := w\<rparr>)"
  by (simp add: log_inv_def)

lemma log_inv_object:
  "log_inv s \<Longrightarrow> logs_fit w \<Longrightarrow> obj_ok mon \<Longrightarrow> log_inv (s\<lparr>world := w, users := (users s)[i := mon]\<rparr>)"
  using users_update_ok [of "users s" MAX_FD obj_ok mon i] by (simp add: log_inv_def)

lemma log_inv_fit: "log_inv s \<Longrightarrow> logs_fit (world s)"
  by (simp add: log_inv_def)

text \<open>An index of \<open>users\<close> is a small descriptor.\<close>

lemma sound_user: "log_inv s \<Longrightarrow> sound (\<lambda>mon. obj_ok mon \<and> is_int i) (arr_get (users s) i)"
  by (auto simp: arr_get_def log_inv_def is_int_def MAX_FD_def)

lemma logs_fit_addfd [simp]: "logs_fit (addfd fd one w) \<longleftrightarrow> logs_fit w"
  by (simp add: addfd_def Let_def)

lemma log_init_object:
  assumes "obj_ok mon" "logs_fit w" "is_int fd"
  shows "sound (\<lambda>r. case r of None \<Rightarrow> True | Some r' \<Rightarrow> keeps_log r') (mon_init fd addr tid mon w)"
  using sound_init [of mon fd addr tid w] assms
  by (auto simp: obj_ok_def mon_init_def mon_init_private_def Let_def sound_def bind_res_def
      split: option.splits sum.splits)

lemma log_accept:
  assumes "log_inv s"
  shows "sound log_next (handle_accept addr tid s)"
proof (cases "accept_fd (fd_limit s) (world s)")
  case None
  with assms fits_int(1) [of "listenfd s"] show ?thesis
    by (auto simp: handle_accept_def log_inv_def)
next
  case (Some c)
  let ?w = "(world s)\<lparr>open_fds := insert c (open_fds (world s))\<rparr>"
  have "sound log_next (bind_res (mon_init c addr tid mon ?w) (\<lambda>r. case r of
      None \<Rightarrow> Inr None
    | Some (mon', w2) \<Rightarrow>
        Inr (Some (s\<lparr>world := w2, users := (users s)[nat c := mon'], conns := conns s + 1\<rparr>))))"
    if "obj_ok mon \<and> is_int c" for mon
    by (rule sound_bind [OF log_init_object [of mon ?w c addr tid]])
      (use that log_inv_fit [OF assms] in \<open>auto intro: log_inv_object [OF assms] split: option.splits\<close>)
  then show ?thesis unfolding handle_accept_def Some option.case Let_def
    by (rule sound_bind [OF sound_user [OF assms]])
qed

lemma log_dispatch:
  assumes "log_inv s"
  shows "sound log_next (handle_event fd events addr tid s)"
proof -
  have "sound log_inv (handle_hangup fd s)" unfolding handle_hangup_def Let_def
    by (rule sound_bind [OF sound_user [OF assms]])
      (use log_inv_fit [OF assms] in \<open>auto simp: sys_close_def intro!: log_inv_world [OF assms] fits_int split: option.splits\<close>)
  moreover have "sound log_inv (handle_input fd s)" unfolding handle_input_def Let_def
    by (rule sound_bind [OF sound_user [OF assms]])
      (use log_inv_fit [OF assms] in \<open>auto intro!: log_inv_world [OF assms] fits_int\<close>)
  ultimately show ?thesis using assms log_accept [OF assms]
    by (auto simp: handle_event_def intro!: sound_bind)
qed

lemma log_do:
  assumes "log_inv s" "legal_act a"
  shows "sound_run log_next (ser_do a s)"
proof (cases a)
  case (Event fd ready addr tid)
  have "logs_fit w" if "epoll_report fd ready (world s) = Some (events, w)" for events w
    using that log_inv_fit [OF assms(1)] by (auto simp: epoll_report_def split: option.splits if_splits)
  with assms Event show ?thesis
    by (auto simp: do_event_def split: option.splits intro: log_dispatch log_inv_world)
next
  case (Work pth evs)
  have evs: "\<forall>bs. Rv_bytes bs \<in> set evs \<longrightarrow> length bs \<le> sizeof_data" using assms(2) Work by simp
  have "sound_run log_inv (do_work pth evs s)"
  proof (cases "tp_take (pool_of s)")
    case (Some rp)
    obtain r p where rp: "rp = (r, p)" by (cases rp)
    have "sound_run log_inv (bind_run (mon_process pth evs mon (world s)) (\<lambda>(mon', w, _).
        Some (Inr (s\<lparr>world := w, users := (users s)[i := mon'], pool_of := p\<rparr>))))" if "obj_ok mon" for mon i
      by (rule sound_bind_run [OF log_process [OF that log_inv_fit [OF assms(1)] evs]])
        (auto intro: log_inv_object [OF assms(1)])
    moreover have "sound_run obj_ok (Some (arr_get (users s) (int i)))" for i
      using sound_weaken [OF sound_user [OF assms(1)]] by simp
    ultimately show ?thesis using assms(1) Some rp
      by (cases r) (simp_all add: do_work_def sound_bind_run [of obj_ok]
          del: sound_run_simps(2), simp)
  qed (use assms(1) in \<open>simp add: do_work_def\<close>)
  then show ?thesis using Work by (auto intro!: sound_bind_run)
next
  case (Beat t)
  have "sound log_inv (do_beat t s)"
  proof (cases "map_of (hearts (world s)) t")
    case (Some i)
    have "sound log_inv (bind_res (send_heart c (world s)) (\<lambda>(c', w).
        Inr (s\<lparr>world := w, users := (users s)[nat i := c']\<rparr>)))" if "obj_ok c \<and> is_int i" for c
    proof -
      have "sound keeps_log (send_heart c (world s))"
        using that sound_send_heart [of c "world s"] log_inv_fit [OF assms(1)]
        by (auto simp: send_heart_def obj_ok_def wf_mon_def Let_def)
      then show ?thesis by (rule sound_bind) (auto simp: keeps_log_def intro: log_inv_object [OF assms(1)])
    qed
    then show ?thesis unfolding do_beat_def Some option.case
      by (rule sound_bind [OF sound_user [OF assms(1)]])
  qed (use assms(1) in \<open>simp add: do_beat_def\<close>)
  then show ?thesis using Beat by (auto intro!: sound_bind)
qed (use assms in simp)

lemma log_run:
  "log_inv s \<Longrightarrow> \<forall>a \<in> set acts. legal_act a \<Longrightarrow> sound_run log_next (ser_run acts s)"
proof (induction acts arbitrary: s)
  case (Cons a acts)
  have "sound_run log_next (case r of None \<Rightarrow> Some (Inr None) | Some s' \<Rightarrow> ser_run acts s')" if "log_next r" for r
    using that Cons by (cases r) auto
  with Cons.prems log_do show ?case by (auto intro!: sound_bind_run [of log_next])
qed simp

section \<open>Playing the calls\<close>

text \<open>
  One call of the server, at the time \<open>t\<close> and \<open>usec\<close>; the \<open>fopen\<close> of a rotation succeeds.
\<close>

definition log_play :: "tm \<times> int \<Rightarrow> log_event \<Rightarrow> log \<Rightarrow> log res" where
  "log_play now e lg =
     (case e of
        Flushed \<Rightarrow> Inr (log_flush lg)
      | Logged level fmt args \<Rightarrow> write_log level fmt args (fst now) (snd now) True lg)"

fun log_replay :: "(nat \<Rightarrow> tm \<times> int) \<Rightarrow> log_event list \<Rightarrow> log \<Rightarrow> log res" where
  "log_replay clock [] lg = Inr lg"
| "log_replay clock (e # es) lg =
     bind_res (log_play (clock 0) e lg) (log_replay (\<lambda>k. clock (Suc k)) es)"

definition wf_clock :: "(nat \<Rightarrow> tm \<times> int) \<Rightarrow> bool" where
  "wf_clock clock \<longleftrightarrow> (\<forall>k. wf_tm (fst (clock k)) \<and> 0 \<le> snd (clock k) \<and> snd (clock k) < 1000000)"

text \<open>The lines that the calls should leave.\<close>

definition event_text :: "tm \<times> int \<Rightarrow> log_event \<Rightarrow> string" where
  "event_text now e =
     (case e of
        Flushed \<Rightarrow> []
      | Logged level fmt args \<Rightarrow> message_line level fmt args (fst now) (snd now))"

fun log_text :: "(nat \<Rightarrow> tm \<times> int) \<Rightarrow> log_event list \<Rightarrow> string" where
  "log_text clock [] = []"
| "log_text clock (e # es) = event_text (clock 0) e @ log_text (\<lambda>k. clock (Suc k)) es"

lemma ready_play:
  assumes "log_ready s" "call_fits e" "wf_tm (fst now)" "0 \<le> snd now" "snd now < 1000000"
  shows "\<exists>s'. log_play now e s = Inr s' \<and> log_ready s' \<and>
    (m_today s = tm_mday (fst now) \<and> (m_count s + 1) smod m_split_lines s \<noteq> 0 \<longrightarrow>
       m_count s \<le> m_count s' \<and> m_count s' \<le> m_count s + 1 \<and> same_stream s s' \<and>
       log_content s' = log_content s @ event_text now e)"
proof (cases e)
  case Flushed
  then show ?thesis using ready_flush [OF assms(1)]
    by (auto simp: log_play_def event_text_def same_stream_def log_flush_def fflush_log_def split: option.splits)
next
  case (Logged level fmt args)
  obtain s1 where s1: "count_line (fst now) True s = Inr s1" "log_ready s1"
    using ready_count [OF assms(1,3)] by blast
  obtain s2 where s2: "compose_line level fmt args (fst now) (snd now) s1 =
      Inr (message_line level fmt args (fst now) (snd now), s2)" "log_ready s2"
    "m_count s2 = m_count s1" "same_stream s1 s2" "log_content s2 = log_content s1"
    using ready_compose [OF s1(2), of fmt args "fst now" "snd now" level] assms Logged
    by (auto simp: call_fits_def)
  obtain s' where "emit_line (message_line level fmt args (fst now) (snd now)) s2 = Inr s'" "log_ready s'"
    "m_count s' = m_count s2" "same_stream s2 s'"
    "log_content s' = log_content s2 @ message_line level fmt args (fst now) (snd now)"
    using ready_emit [OF s2(2)] by blast
  then have s': "log_play now e s = Inr s'" "log_ready s'" "m_count s' = m_count s1" "same_stream s1 s'"
      "log_content s' = log_content s1 @ event_text now e"
    using s1(1) s2 Logged by (auto simp: log_play_def write_log_def event_text_def intro: same_stream_trans)
  note same = ready_no_rotation [OF s1(1)]
  with s' show ?thesis by (auto simp: same_stream_def dest: same)
qed

lemma ready_replay:
  assumes "log_ready s" "\<forall>e \<in> set es. call_fits e" "wf_clock clock"
  shows "\<exists>s'. log_replay clock es s = Inr s' \<and> log_ready s' \<and>
    ((\<forall>k. tm_mday (fst (clock k)) = m_today s) \<and> 0 \<le> m_count s \<and>
       m_count s + int (length es) < m_split_lines s \<longrightarrow>
     same_stream s s' \<and> log_content s' = log_content s @ log_text clock es)"
  using assms
proof (induction es arbitrary: s clock)
  case (Cons e es)
  from Cons.prems(3) have clock: "wf_tm (fst (clock 0))" "0 \<le> snd (clock 0)" "snd (clock 0) < 1000000"
      "wf_clock (\<lambda>k. clock (Suc k))"
    by (auto simp: wf_clock_def)
  obtain s1 where s1: "log_play (clock 0) e s = Inr s1" "log_ready s1"
    "m_today s = tm_mday (fst (clock 0)) \<Longrightarrow> (m_count s + 1) smod m_split_lines s \<noteq> 0 \<Longrightarrow>
       m_count s \<le> m_count s1 \<and> m_count s1 \<le> m_count s + 1 \<and> same_stream s s1 \<and>
       log_content s1 = log_content s @ event_text (clock 0) e"
    using ready_play [OF Cons.prems(1) _ clock(1-3), of e] Cons.prems(2) by auto
  obtain s' where s': "log_replay (\<lambda>k. clock (Suc k)) es s1 = Inr s'" "log_ready s'"
    "(\<forall>k. tm_mday (fst (clock (Suc k))) = m_today s1) \<and> 0 \<le> m_count s1 \<and>
       m_count s1 + int (length es) < m_split_lines s1 \<Longrightarrow>
     same_stream s1 s' \<and> log_content s' = log_content s1 @ log_text (\<lambda>k. clock (Suc k)) es"
    using Cons.IH [OF s1(2) _ clock(4)] Cons.prems(2) by auto
  have "same_stream s s' \<and> log_content s' = log_content s @ log_text clock (e # es)"
    if day: "\<forall>k. tm_mday (fst (clock k)) = m_today s" and count: "0 \<le> m_count s"
      "m_count s + int (length (e # es)) < m_split_lines s"
  proof -
    have "(m_count s + 1) smod m_split_lines s \<noteq> 0" using count by (simp add: signed_modulo_int_def)
    with s1(3) day have one: "m_count s \<le> m_count s1" "m_count s1 \<le> m_count s + 1" "same_stream s s1"
        "log_content s1 = log_content s @ event_text (clock 0) e"
      by auto
    moreover have "same_stream s1 s' \<and> log_content s' = log_content s1 @ log_text (\<lambda>k. clock (Suc k)) es"
      using one day count by (intro s'(3)) (auto simp: same_stream_def)
    ultimately show ?thesis by (simp add: same_stream_def)
  qed
  with s1(1) s'(1,2) show ?case by auto
qed (simp add: same_stream_def)

section \<open>Properties\<close>

definition server_log_name :: "tm \<Rightarrow> string" where
  "server_log_name t = ''var/log/'' @ date_text t ''_'' @ ''_mylog.log''"

lemma flushed_content:
  assumes "same_stream lg lg'" "m_fp lg = Some st"
  shows "file_text (log_flush lg') (s_name st) = log_content lg'"
proof -
  obtain st' where "m_fp lg' = Some st'" "s_name st' = s_name st"
    using assms by (auto simp: same_stream_def)
  then show ?thesis by (simp add: log_content_def log_flush_def fflush_log_def file_text_def)
qed

lemma opened_log:
  assumes "wf_tm t"
  obtains lg where "log_init ''var/log/mylog.log'' 8192 2000000 0 t True garbage (log_new files0) = Inr (True, lg)"
    "log_ready lg" "m_count lg = 0" "m_today lg = tm_mday t" "m_split_lines lg = 2000000"
    "m_fp lg = Some \<lparr>s_name = server_log_name t, s_pending = []\<rparr>" "file_text lg = file_text (log_new files0)"
proof -
  obtain lg where lg: "log_init ''var/log/mylog.log'' 8192 2000000 0 t True garbage (log_new files0) = Inr (True, lg)"
    "\<not> m_is_async lg" "m_fp lg = Some \<lparr>s_name = take 254 (server_log_name t), s_pending = []\<rparr>"
    "m_log_buf_size lg = 8192" "length (m_buf lg) = 8192" "m_split_lines lg = 2000000" "m_count lg = 0"
    "m_today lg = tm_mday t" "terminated (dir_name lg)" "terminated (log_name lg)"
    "file_text lg = file_text (log_new files0)"
    using log_init_server [of 8192 2000000 t True garbage files0] by (auto simp: server_log_name_def)
  moreover have "take 254 (server_log_name t) = server_log_name t"
    using date_text_length [OF assms, of "''_''"] by (simp add: server_log_name_def)
  ultimately show thesis by (intro that [of lg]) (simp_all add: log_ready_def log_buf_ok_def)
qed

lemma started_log:
  assumes "ser_main args t True garbage (log_new files0) os mons limit w0 = Inr (Started s, lg)" "wf_tm t"
  shows "log_ready lg" "m_count lg = 0" "m_today lg = tm_mday t" "m_split_lines lg = 2000000"
    "m_fp lg = Some \<lparr>s_name = server_log_name t, s_pending = []\<rparr>"
    "file_text lg = file_text (log_new files0)"
    "users s = mons" "listenfd s = os_socket os" "logs (world s) = logs w0"
proof -
  obtain lg0 where lg0: "log_init ''var/log/mylog.log'' 8192 2000000 0 t True garbage (log_new files0) = Inr (True, lg0)"
      "log_ready lg0" "m_count lg0 = 0" "m_today lg0 = tm_mday t" "m_split_lines lg0 = 2000000"
      "m_fp lg0 = Some \<lparr>s_name = server_log_name t, s_pending = []\<rparr>" "file_text lg0 = file_text (log_new files0)"
    by (rule opened_log [OF assms(2)])
  have "lg = lg0 \<and> users s = mons \<and> listenfd s = os_socket os \<and> logs (world s) = logs w0"
  proof (cases "tp_ctor 20 10000 (os_threads os) 0 [] :: nat tp_ctor_result res")
    case (Inr r)
    with assms(1) show ?thesis unfolding ser_main_def lg0(1)
      by (cases r) (auto simp: Let_def addfd_def start_fails_def bind_res_eq_Inr split: if_splits option.splits)
  qed (use assms(1) in \<open>simp add: ser_main_def lg0(1) split: if_splits option.splits\<close>)
  then show "log_ready lg" "m_count lg = 0" "m_today lg = tm_mday t" "m_split_lines lg = 2000000"
    "m_fp lg = Some \<lparr>s_name = server_log_name t, s_pending = []\<rparr>"
    "file_text lg = file_text (log_new files0)" "users s = mons" "listenfd s = os_socket os" "logs (world s) = logs w0"
    using lg0 by simp_all
qed

text \<open>
  A start that fails leaves its reason in the log, or crashes when the log is not open.
\<close>

definition start_reason :: "os_results \<Rightarrow> string \<times> parg list" where
  "start_reason os =
     (if os_socket os < 0 then (''Creat Socket Failed'', [PInt 0])
      else if os_bind os = - 1 then (''Server Bind Failed!'', [PInt 0])
      else (''Server Listen Failed! [fd=%d]'', [PInt (os_socket os)]))"

lemma start_reason_fits: "is_int (os_socket os) \<Longrightarrow> call_fits (Logged 3 (fst (start_reason os)) (snd (start_reason os)))"
  using show_int_short [of "os_socket os"]
  by (simp add: start_reason_def call_fits_def message_fits_def format_eval)

lemma server_start_fails:
  assumes "2 \<le> length args" "os_sigaction os \<noteq> - 1" "fst (tp_start_threads (take 20 (os_threads os)) 0)"
    and "os_socket os < 0 \<or> os_bind os = - 1 \<or> os_listen os = - 1" "is_int (os_socket os)"
    and "os_now os = (t, usec)" "wf_tm t" "0 \<le> usec" "usec < 1000000" "os_reopen os = fopen_ok"
  shows "if fopen_ok
     then \<exists>lg. ser_main args t True garbage (log_new files0) os mons limit w0 = Inr (Exited 1, lg) \<and>
            file_text lg (server_log_name t) = file_text (log_new files0) (server_log_name t) @
              message_line 3 (fst (start_reason os)) (snd (start_reason os)) t usec
     else \<exists>e. ser_main args t False garbage (log_new files0) os mons limit w0 = Inl e"
proof -
  obtain n where n: "tp_start_threads (take 20 (os_threads os)) 0 = (True, n)"
    using assms(3) by (cases "tp_start_threads (take 20 (os_threads os)) 0") auto
  have main: "ser_main args t ok garbage (log_new files0) os mons limit w0 =
      start_fails (fst (start_reason os)) (snd (start_reason os)) os lg"
    if "log_init ''var/log/mylog.log'' 8192 2000000 0 t ok garbage (log_new files0) = Inr (ok, lg)" for ok lg
    unfolding ser_main_def that using n assms(1,2,4)
    by (auto simp: addsig_def tp_ctor_def start_reason_def)
  show ?thesis
  proof (cases fopen_ok)
    case False
    obtain lg where lg: "log_init ''var/log/mylog.log'' 8192 2000000 0 t False garbage (log_new files0) = Inr (False, lg)"
      "\<not> m_is_async lg" "m_fp lg = None"
      using log_init_server [of 8192 2000000 t False garbage files0] by auto
    from write_log_no_stream [OF lg(3,2)] False assms(10) show ?thesis unfolding main [OF lg(1)] start_fails_def
      by (metis bind_res_Inl)
  next
    case True
    obtain lg where lg: "log_init ''var/log/mylog.log'' 8192 2000000 0 t True garbage (log_new files0) = Inr (True, lg)"
        "log_ready lg" "m_count lg = 0" "m_today lg = tm_mday t" "m_split_lines lg = 2000000"
        "m_fp lg = Some \<lparr>s_name = server_log_name t, s_pending = []\<rparr>" "file_text lg = file_text (log_new files0)"
      using opened_log [OF assms(7)] by blast
    from ready_play [OF lg(2) start_reason_fits [OF assms(5)], of "(t, usec)"] assms(7-9) lg(3-5)
    obtain s' where "write_log 3 (fst (start_reason os)) (snd (start_reason os)) t usec True lg = Inr s'"
        "same_stream lg s'"
        "log_content s' = log_content lg @ message_line 3 (fst (start_reason os)) (snd (start_reason os)) t usec"
      by (auto simp: log_play_def event_text_def signed_modulo_int_def)
    note s' = this flushed_content [OF this(2) lg(6)]
    have "ser_main args t True garbage (log_new files0) os mons limit w0 = Inr (Exited 1, log_flush s')"
      using True assms(6,10) s'(1) unfolding main [OF lg(1)] start_fails_def by simp
    moreover have "log_content lg = file_text (log_new files0) (server_log_name t)"
      using lg(6) by (simp add: log_content_def lg(7))
    ultimately show ?thesis using True s'(3,4) by simp
  qed
qed

text \<open>
  C13. The server never overruns its log. A line that does not fit the
  buffer would be written beyond it, whatever \<open>vsnprintf\<close> is told; the server's own messages always fit:
  after a start that opened the log, in every run that comes to a state, with whatever clients,
  file names and descriptors, all calls to the logger go through \<open>write_log\<close> without a fault, across
  any number of rotations (while \<open>fopen\<close> succeeds). Within a day and below 2000000 calls the log
  file has gained exactly the stamped messages, in the order of the calls, once flushed.
\<close>

theorem server_log_never_faults:
  assumes "ser_main args t True garbage (log_new files0) os mons limit w0 = Inr (Started s, lg)" "wf_tm t"
    and "length mons = MAX_FD" "\<forall>mon \<in> set mons. wf_mon mon \<and> is_int (m_sockfd mon)"
    and "is_int (os_socket os)" "logs w0 = []"
    and "\<forall>a \<in> set acts. legal_act a" "ser_run acts s = Some (Inr (Some s'))" "wf_clock clock"
  shows "\<exists>lg'. log_replay clock (logs (world s')) lg = Inr lg' \<and>
           ((\<forall>k. tm_mday (fst (clock k)) = tm_mday t) \<and> length (logs (world s')) < 2000000 \<longrightarrow>
              file_text (log_flush lg') (server_log_name t) =
                file_text (log_new files0) (server_log_name t) @ log_text clock (logs (world s')))"
proof -
  note start = started_log [OF assms(1,2)]
  have "log_inv s" using start(7-9) assms(3-6) by (simp add: log_inv_def obj_ok_def logs_fit_def)
  from log_run [OF this assms(7)] assms(8) have "\<forall>e \<in> set (logs (world s')). call_fits e"
    by (simp add: log_inv_def logs_fit_def)
  from ready_replay [OF start(1) this assms(9)] obtain lg' where lg':
      "log_replay clock (logs (world s')) lg = Inr lg'"
      "(\<forall>k. tm_mday (fst (clock k)) = tm_mday t) \<Longrightarrow> length (logs (world s')) < 2000000 \<Longrightarrow>
         same_stream lg lg' \<and> log_content lg' = log_content lg @ log_text clock (logs (world s'))"
    using start(2-4) by auto
  show ?thesis
  proof (intro exI [of _ lg'] conjI impI, rule lg'(1), elim conjE)
    assume "\<forall>k. tm_mday (fst (clock k)) = tm_mday t" "length (logs (world s')) < 2000000"
    note more_log = lg'(2) [OF this]
    have "log_content lg = file_text (log_new files0) (server_log_name t)"
      using start(5) by (simp add: log_content_def start(6))
    with more_log flushed_content [OF _ start(5), of lg'] show "file_text (log_flush lg') (server_log_name t) =
        file_text (log_new files0) (server_log_name t) @ log_text clock (logs (world s'))"
      by simp
  qed
qed

lemma server_log_never_faults_witness:
  "\<exists>s lg s' lg'.
     ser_main [''127.0.0.1'', ''8888''] tm_sample True (\<lambda>_. NUL) (log_new (\<lambda>_. None))
       \<lparr>os_sigaction = 0, os_socket = 3, os_bind = 0, os_listen = 0, os_epoll = 4, os_threads = [],
        os_now = (tm_sample, 5), os_reopen = True\<rparr>
       (replicate MAX_FD (sample_monitor (sample_data 0 0 0 []))) 3
       (sample_server\<lparr>open_fds := {0, 1, 2}\<rparr>) = Inr (Started s, lg) \<and>
     ser_run [Event 3 EPOLLIN [] None] s = Some (Inr (Some s')) \<and>
     log_replay (\<lambda>_. (tm_sample, 5)) (logs (world s')) lg = Inr lg' \<and>
     file_text (log_flush lg') ''var/log/2024_03_07_mylog.log'' =
       ''2024-03-07 01:02:03.000005 [erro]:  accept errno [fd=3]'' @ [newline]"
proof -
  let ?os = "\<lparr>os_sigaction = 0, os_socket = 3, os_bind = 0, os_listen = 0, os_epoll = 4, os_threads = [],
        os_now = (tm_sample, 5), os_reopen = True\<rparr>"
  let ?mons = "replicate MAX_FD (sample_monitor (sample_data 0 0 0 []))"
  let ?w = "sample_server\<lparr>open_fds := {0, 1, 2}\<rparr>" and ?clock = "\<lambda>_ :: nat. (tm_sample, 5 :: int)"
  obtain lg where lg: "log_init ''var/log/mylog.log'' 8192 2000000 0 tm_sample True (\<lambda>_. NUL)
      (log_new (\<lambda>_. None)) = Inr (True, lg)"
    using log_init_server [of 8192 2000000 tm_sample True "\<lambda>_. NUL" "\<lambda>_. None"] by auto
  obtain p :: "nat tp" where p: "tp_ctor 20 10000 [] 0 [] = Inr (Tp_built p 0 [(Array_block, 0)])"
    by (simp add: tp_ctor_def)
  define W where "W = addfd 3 False (?w\<lparr>open_fds := {3, 4} \<union> open_fds ?w\<rparr>)"
  let ?s = "\<lparr>world = W, users = ?mons, pool_of = p,
    listenfd = 3, fd_limit = 3, conns = 0,
    signals = [SIGPIPE \<mapsto> \<lparr>sa_handler = SIG_IGN, sa_restart = True\<rparr>]\<rparr>"
  have main: "ser_main [''127.0.0.1'', ''8888''] tm_sample True (\<lambda>_. NUL) (log_new (\<lambda>_. None)) ?os ?mons 3 ?w =
      Inr (Started ?s, lg)"
    unfolding ser_main_def lg by (simp add: p W_def addsig_def)
  have W: "accept_fd 3 W = None" "epoll_report 3 EPOLLIN W = Some (EPOLLIN, W)" "logs W = []"
    by (simp_all add: W_def accept_fd_def numeral_eq_Suc)
      (simp_all add: W_def epoll_report_def addfd_def reportable_def sample_server_def epoll_flags)
  obtain s' where s': "ser_run [Event 3 EPOLLIN [] None] ?s = Some (Inr (Some s'))"
    "logs (world s') = [Logged 3 '' accept errno [fd=%d]'' [PInt 3], Flushed]"
    by (simp add: do_event_def W handle_event_def handle_accept_def log_call_def flush_call_def)
  have mons: "\<forall>mon \<in> set ?mons. wf_mon mon \<and> is_int (m_sockfd mon)"
    by (simp add: wf_mon_def sample_monitor_def sample_data_def wf_data_def is_long_def is_int_def
        sample_RECOVER_def wf_RECOVER_def c_memset_def BACKUP_F_NAME_def)
  have clock: "wf_clock ?clock" using log_sample_ok(1) by (simp add: wf_clock_def)
  have name: "server_log_name tm_sample = ''var/log/2024_03_07_mylog.log''" by code_simp
  have line: "log_text ?clock (logs (world s')) =
      ''2024-03-07 01:02:03.000005 [erro]:  accept errno [fd=3]'' @ [newline]"
    unfolding s'(2) by code_simp
  show ?thesis
    using server_log_never_faults [OF main log_sample_ok(1) _ mons _ _ _ s'(1) clock] main s'(1)
    unfolding name line by (auto simp: is_int_def s'(2) sample_server_def log_new_def file_text_def)
qed

end
