(* ===== verification/Config.thy ===== *)
theory Config
  imports Readn C_Format
begin

text \<open>
  The two readers of \<open>/etc/file_watch/init.conf\<close>: \<open>get_path\<close> of the hook (\<open>hook/hook.c\<close>) and
  \<open>get_ip_addr\<close> of the client (\<open>client/get_message.h\<close>). Both read the file into an array, turn
  the ends of lines into NULs and look at every position for a key. The hook reads up to 300
  bytes with \<open>readn\<close> and knows only \<open>path:\<close>; the client makes one \<open>read\<close> of 200 bytes, knows
  \<open>addr:\<close>, \<open>port:\<close> and \<open>path:\<close>, and also ends values at carriage returns and tabs.
\<close>

section \<open>The scan\<close>

text \<open>\<open>step\<close> is the loop's body at \<open>&c[i]\<close>; the loop runs \<open>n\<close> times.\<close>

fun scan :: "(string \<Rightarrow> 's \<Rightarrow> 's res) \<Rightarrow> nat \<Rightarrow> string \<Rightarrow> 's \<Rightarrow> 's res" where
  "scan step 0 c st = Inr st"
| "scan step (Suc n) c st = bind_res (step c st) (scan step n (tl c))"

text \<open>The first loop: the line ends among the first \<open>j\<close> characters become NULs.\<close>

definition cut_lines :: "(char \<Rightarrow> bool) \<Rightarrow> nat \<Rightarrow> string \<Rightarrow> string" where
  "cut_lines ends j c = map (\<lambda>x. if ends x then NUL else x) (take j c) @ drop j c"

definition read_config ::
    "(char \<Rightarrow> bool) \<Rightarrow> (string \<Rightarrow> 's \<Rightarrow> 's res) \<Rightarrow> string \<Rightarrow> 's \<Rightarrow> 's res" where
  "read_config ends step c st =
     bind_res (c_read c) (\<lambda>s. scan step (length s - 1) (cut_lines ends (length s) c) st)"

definition at_key :: "string \<Rightarrow> string \<Rightarrow> bool" where
  "at_key key c \<longleftrightarrow> strncmp_eq (cstr c) key 5"

section \<open>The hook's reader\<close>

definition hook_step :: "string \<Rightarrow> string \<Rightarrow> string res" where
  "hook_step c filename_path =
     (if at_key ''path:'' c then c_strcpy filename_path (drop 5 c) else Inr filename_path)"

text \<open>What the file delivers is an argument, \<open>None\<close> when it cannot be opened.\<close>

definition get_path :: "read_event list option \<Rightarrow> string \<Rightarrow> string res" where
  "get_path file filename_path =
     (let got = (case file of None \<Rightarrow> [] | Some evs \<Rightarrow> fst (snd (readn 300 evs))) in
      read_config (\<lambda>x. x = newline) hook_step (got @ replicate (300 - length got) NUL) filename_path)"

section \<open>The client's reader\<close>

record config =
  cf_ip :: string
  cf_port :: int
  cf_path :: string

definition client_step :: "string \<Rightarrow> config \<Rightarrow> config res" where
  "client_step c cf =
     (if at_key ''addr:'' c
      then bind_res (c_strcpy (cf_ip cf) (drop 5 c)) (\<lambda>b. Inr (cf\<lparr>cf_ip := b\<rparr>))
      else if at_key ''port:'' c
      then bind_res (c_read (drop 5 c)) (\<lambda>s. Inr (cf\<lparr>cf_port := c_atoi s\<rparr>))
      else if at_key ''path:'' c
      then bind_res (c_strcpy (cf_path cf) (drop 5 c)) (\<lambda>b. Inr (cf\<lparr>cf_path := b\<rparr>))
      else Inr cf)"

definition client_line_end :: "char \<Rightarrow> bool" where
  "client_line_end x \<longleftrightarrow> x = newline \<or> x = CHR 0x0D \<or> x = CHR 0x09"

text \<open>What one \<open>read\<close> stores.\<close>

fun read_once :: "nat \<Rightarrow> read_event list \<Rightarrow> string" where
  "read_once n (Rd_data d # _) = take n d"
| "read_once n _ = []"

text \<open>\<open>None\<close>: the file cannot be opened and the process exits.\<close>

definition get_ip_addr :: "read_event list option \<Rightarrow> config \<Rightarrow> config option res" where
  "get_ip_addr file cf =
     (case file of
        None \<Rightarrow> Inr None
      | Some evs \<Rightarrow>
          (let got = read_once 200 evs in
           bind_res (read_config client_line_end client_step (got @ replicate (200 - length got) NUL) cf)
             (\<lambda>cf'. Inr (Some cf'))))"

section \<open>Scanning lines\<close>

text \<open>
  The contract of a loop body: away from a key, that is where no colon is at index 4 of the
  string, it does nothing.
\<close>

locale key_scanner =
  fixes step :: "string \<Rightarrow> 's \<Rightarrow> 's res"
  assumes quiet: "length (cstr c) < 5 \<or> cstr c ! 4 \<noteq> CHR '':'' \<Longrightarrow> step c st = Inr st"

text \<open>A line: five characters of which the last is the colon, a value, and no other colon.\<close>

definition wf_line :: "string \<times> string \<Rightarrow> bool" where
  "wf_line kv \<longleftrightarrow>
     length (fst kv) = 5 \<and> last (fst kv) = CHR '':'' \<and> CHR '':'' \<notin> set (butlast (fst kv)) \<and>
     CHR '':'' \<notin> set (snd kv) \<and> no_nul (fst kv) \<and> no_nul (snd kv)"

definition line_text :: "string \<times> string \<Rightarrow> string" where
  "line_text kv = fst kv @ snd kv"

lemma wf_line_colon:
  assumes "wf_line kv" "0 < p" "p + 4 < length (line_text kv)"
  shows "line_text kv ! (p + 4) \<noteq> CHR '':''"
proof -
  have "line_text kv ! (p + 4) = snd kv ! (p - 1)"
    using assms by (simp add: line_text_def wf_line_def nth_append)
  moreover have "p - 1 < length (snd kv)" using assms by (simp add: line_text_def wf_line_def)
  then have "snd kv ! (p - 1) \<in> set (snd kv)" by simp
  ultimately show ?thesis using assms(1) by (metis wf_line_def)
qed

lemma wf_line_no_nul: "wf_line kv \<Longrightarrow> no_nul (line_text kv)"
  by (simp add: wf_line_def line_text_def)

context key_scanner
begin

lemma scan_skip:
  "\<forall>p < m. \<forall>st. step (drop p c) st = Inr st \<Longrightarrow> scan step (m + n) c st = scan step n (drop m c) st"
proof (induction m arbitrary: c)
  case (Suc m)
  have "step c st = Inr st" using Suc.prems by (auto dest: spec [of _ 0])
  moreover have "\<forall>p < m. \<forall>st. step (drop p (tl c)) st = Inr st"
    using Suc.prems by (auto simp: drop_Suc [symmetric])
  ultimately show ?case using Suc.IH [of "tl c"] by (simp add: drop_Suc)
qed simp

text \<open>Inside a line, behind its key, nothing happens.\<close>

lemma quiet_inside:
  assumes "wf_line kv" "0 < p" "p \<le> length (line_text kv)"
  shows "step (drop p (line_text kv @ NUL # rest)) st = Inr st"
proof -
  let ?u = "line_text kv"
  have "cstr (drop p (?u @ NUL # rest)) = drop p ?u"
    using assms(3) wf_line_no_nul [OF assms(1)] by simp
  moreover have "drop p ?u ! 4 \<noteq> CHR '':''" if "5 \<le> length (drop p ?u)"
    using wf_line_colon [OF assms(1,2)] that by simp
  ultimately show ?thesis by (intro quiet) auto
qed

lemma scan_line:
  assumes "wf_line kv"
  shows "scan step (Suc (length (line_text kv)) + n) (line_text kv @ NUL # rest) st =
     bind_res (step (line_text kv @ NUL # rest) st) (\<lambda>st'. scan step n rest st')"
proof -
  let ?c = "line_text kv @ NUL # rest"
  have "\<forall>p < length (line_text kv). \<forall>st. step (drop p (tl ?c)) st = Inr st"
    using quiet_inside [OF assms, of "Suc _" rest] by (simp add: drop_Suc [symmetric])
  from scan_skip [OF this, of n] have "scan step (length (line_text kv) + n) (tl ?c) st' = scan step n rest st'" for st'
    by (simp add: drop_Suc [symmetric])
  then show ?thesis by (cases "step ?c st") simp_all
qed

text \<open>The loop stops one character before the end of the text, so it misses no line.\<close>

lemma scan_last_line:
  assumes "wf_line kv"
  shows "scan step (length (line_text kv)) (line_text kv @ NUL # rest) st =
     step (line_text kv @ NUL # rest) st"
proof -
  let ?c = "line_text kv @ NUL # rest"
  obtain m where m: "length (line_text kv) = Suc m"
    using assms by (cases "length (line_text kv)") (auto simp: wf_line_def line_text_def)
  have "\<forall>p < m. \<forall>st. step (drop p (tl ?c)) st = Inr st"
    using quiet_inside [OF assms, of "Suc _" rest] m by (simp add: drop_Suc [symmetric])
  from scan_skip [OF this, of 0] have "scan step m (tl ?c) st' = Inr st'" for st' by simp
  then show ?thesis using m by (cases "step ?c st") simp_all
qed

end

section \<open>Files made of lines\<close>

text \<open>The text of a configuration file, and its bytes once the line ends are NULs.\<close>

definition file_of :: "(string \<times> string) list \<Rightarrow> string" where
  "file_of kvs = concat (map (\<lambda>kv. line_text kv @ [newline]) kvs)"

definition cut_file :: "(string \<times> string) list \<Rightarrow> string" where
  "cut_file kvs = concat (map (\<lambda>kv. line_text kv @ [NUL]) kvs)"

text \<open>A reader whose loop body does \<open>line\<close> at the start of a line.\<close>

locale line_reader = key_scanner step
  for step :: "string \<Rightarrow> 's \<Rightarrow> 's res" +
  fixes line :: "string \<times> string \<Rightarrow> 's \<Rightarrow> 's res"
    and ends :: "char \<Rightarrow> bool"
  assumes step_line: "wf_line kv \<Longrightarrow> step (line_text kv @ NUL # rest) st = line kv st"
    and ends_newline: "ends newline"

context line_reader
begin

lemma scan_lines:
  "\<forall>kv \<in> set kvs. wf_line kv \<Longrightarrow> kvs \<noteq> [] \<Longrightarrow>
     scan step (length (cut_file kvs) - 1) (cut_file kvs @ rest) st = fold_res line kvs st"
proof (induction kvs arbitrary: st)
  case (Cons kv kvs)
  show ?case
  proof (cases "kvs = []")
    case True
    with Cons.prems scan_last_line [of kv rest st] step_line [of kv rest st] show ?thesis
      by (cases "line kv st") (simp_all add: cut_file_def)
  next
    case False
    then obtain kv' kvs' where "kvs = kv' # kvs'" by (cases kvs) auto
    then have shape: "length (cut_file (kv # kvs)) - 1 = Suc (length (line_text kv)) + (length (cut_file kvs) - 1)"
      by (simp add: cut_file_def)
    have joined: "cut_file (kv # kvs) @ rest = line_text kv @ NUL # (cut_file kvs @ rest)"
      by (simp add: cut_file_def)
    have wf: "wf_line kv" using Cons.prems by simp
    show ?thesis
      unfolding shape joined scan_line [OF wf] step_line [OF wf]
      using Cons.IH Cons.prems False by (cases "line kv st") simp_all
  qed
qed simp

lemma read_lines:
  assumes "\<forall>kv \<in> set kvs. wf_line kv \<and> (\<forall>x \<in> set (line_text kv). \<not> ends x)" "length (file_of kvs) < n"
  shows "read_config ends step (file_of kvs @ replicate (n - length (file_of kvs)) NUL) st =
     fold_res line kvs st"
proof -
  let ?T = "file_of kvs"
  have nn: "no_nul ?T"
    using assms(1) wf_line_no_nul by (induction kvs) (auto simp: file_of_def)
  obtain k where k: "n - length ?T = Suc k" using assms(2) by (cases "n - length ?T") auto
  have "cut_lines ends (length ?T) (?T @ rest) = cut_file kvs @ rest" for rest
    using assms(1)
  proof (induction kvs)
    case (Cons kv kvs)
    then have "map (\<lambda>x. if ends x then NUL else x) (line_text kv) = line_text kv"
      by (intro map_idI) auto
    with Cons show ?case
      by (simp add: cut_lines_def file_of_def cut_file_def ends_newline)
  qed (simp add: cut_lines_def file_of_def cut_file_def)
  moreover have "length ?T = length (cut_file kvs)"
    by (induction kvs) (auto simp: file_of_def cut_file_def)
  ultimately show ?thesis
    using k nn scan_lines [of kvs "replicate (Suc k) NUL" st] assms(1)
    by (cases "kvs = []") (simp_all add: read_config_def file_of_def cut_file_def cstr_Cons)
qed

end

section \<open>The two readers as line readers\<close>

lemma at_key_quiet:
  assumes "length key = 5" "key ! 4 = CHR '':''" "length (cstr c) < 5 \<or> cstr c ! 4 \<noteq> CHR '':''"
  shows "\<not> at_key key c"
proof
  assume "at_key key c"
  then have "take 5 (cstr c) = key" using assms(1) by (simp add: at_key_def strncmp_eq_def)
  then have "length (cstr c) \<ge> 5" "cstr c ! 4 = key ! 4" using assms(1) by auto
  with assms(2,3) show False by simp
qed

lemma at_key_line: "wf_line kv \<Longrightarrow> length key = 5 \<Longrightarrow> at_key key (line_text kv @ NUL # rest) \<longleftrightarrow> fst kv = key"
  using wf_line_no_nul [of kv]
  by (simp add: at_key_def strncmp_eq_def) (simp add: line_text_def wf_line_def)

lemma drop_line: "wf_line kv \<Longrightarrow> drop 5 (line_text kv @ NUL # rest) = snd kv @ NUL # rest"
  by (simp add: line_text_def wf_line_def)

lemma wf_line_value: "wf_line kv \<Longrightarrow> no_nul (snd kv)"
  by (simp add: wf_line_def)

definition hook_line :: "string \<times> string \<Rightarrow> string \<Rightarrow> string res" where
  "hook_line kv b = (if fst kv = ''path:'' then store_at b 0 (snd kv) else Inr b)"

definition client_line :: "string \<times> string \<Rightarrow> config \<Rightarrow> config res" where
  "client_line kv cf =
     (if fst kv = ''addr:'' then bind_res (store_at (cf_ip cf) 0 (snd kv)) (\<lambda>b. Inr (cf\<lparr>cf_ip := b\<rparr>))
      else if fst kv = ''port:'' then Inr (cf\<lparr>cf_port := c_atoi (snd kv)\<rparr>)
      else if fst kv = ''path:'' then bind_res (store_at (cf_path cf) 0 (snd kv)) (\<lambda>b. Inr (cf\<lparr>cf_path := b\<rparr>))
      else Inr cf)"

lemma line_keys:
  assumes "wf_line kv"
  shows "at_key ''path:'' (line_text kv @ NUL # rest) \<longleftrightarrow> fst kv = ''path:''"
    "at_key ''addr:'' (line_text kv @ NUL # rest) \<longleftrightarrow> fst kv = ''addr:''"
    "at_key ''port:'' (line_text kv @ NUL # rest) \<longleftrightarrow> fst kv = ''port:''"
  by (rule at_key_line [OF assms]; simp)+

lemma hook_step_line: "wf_line kv \<Longrightarrow> hook_step (line_text kv @ NUL # rest) b = hook_line kv b"
  unfolding hook_step_def hook_line_def line_keys drop_line c_strcpy_def
  by (simp add: wf_line_value)

lemma client_step_line: "wf_line kv \<Longrightarrow> client_step (line_text kv @ NUL # rest) cf = client_line kv cf"
  unfolding client_step_def client_line_def line_keys drop_line c_strcpy_def
  by (simp add: wf_line_value)

interpretation hook_reader: line_reader hook_step hook_line "\<lambda>x. x = newline"
  by unfold_locales (simp_all add: hook_step_line, simp add: hook_step_def at_key_quiet)

interpretation client_reader: line_reader client_step client_line client_line_end
  by unfold_locales
    (simp_all add: client_step_line client_line_end_def, simp add: client_step_def at_key_quiet)

text \<open>The last value of a key, or what was there before.\<close>

fun last_value :: "string \<Rightarrow> (string \<times> string) list \<Rightarrow> 'v \<Rightarrow> (string \<Rightarrow> 'v) \<Rightarrow> 'v" where
  "last_value key [] v f = v"
| "last_value key (kv # kvs) v f = last_value key kvs (if fst kv = key then f (snd kv) else v) f"

lemma hook_lines:
  "\<forall>kv \<in> set kvs. wf_line kv \<and> (fst kv = ''path:'' \<longrightarrow> length (snd kv) < length b) \<Longrightarrow>
     \<exists>b'. fold_res hook_line kvs b = Inr b' \<and> length b' = length b \<and>
       cstr b' = last_value ''path:'' kvs (cstr b) id"
proof (induction kvs arbitrary: b)
  case (Cons kv kvs)
  show ?case
  proof (cases "fst kv = ''path:''")
    case True
    let ?b = "snd kv @ NUL # drop (Suc (length (snd kv))) b"
    have "hook_line kv b = Inr ?b" "length ?b = length b" "cstr ?b = snd kv"
      using True Cons.prems by (auto simp: hook_line_def store_at_room wf_line_value)
    with Cons.IH [of ?b] Cons.prems True show ?thesis by auto
  next
    case False
    with Cons show ?thesis by (simp add: hook_line_def)
  qed
qed simp

lemma client_lines:
  "\<forall>kv \<in> set kvs. wf_line kv \<and> (fst kv = ''path:'' \<longrightarrow> length (snd kv) < length (cf_path cf)) \<and>
      (fst kv = ''addr:'' \<longrightarrow> length (snd kv) < length (cf_ip cf)) \<Longrightarrow>
     \<exists>cf'. fold_res client_line kvs cf = Inr cf' \<and>
       cstr (cf_path cf') = last_value ''path:'' kvs (cstr (cf_path cf)) id \<and>
       cstr (cf_ip cf') = last_value ''addr:'' kvs (cstr (cf_ip cf)) id \<and>
       cf_port cf' = last_value ''port:'' kvs (cf_port cf) c_atoi"
proof (induction kvs arbitrary: cf)
  case (Cons kv kvs)
  have "\<exists>cf1. client_line kv cf = Inr cf1 \<and> length (cf_path cf1) = length (cf_path cf) \<and>
      length (cf_ip cf1) = length (cf_ip cf) \<and>
      cstr (cf_path cf1) = (if fst kv = ''path:'' then snd kv else cstr (cf_path cf)) \<and>
      cstr (cf_ip cf1) = (if fst kv = ''addr:'' then snd kv else cstr (cf_ip cf)) \<and>
      cf_port cf1 = (if fst kv = ''port:'' then c_atoi (snd kv) else cf_port cf)"
    using Cons.prems by (auto simp: client_line_def store_at_room wf_line_value)
  then obtain cf1 where cf1: "client_line kv cf = Inr cf1" "length (cf_path cf1) = length (cf_path cf)"
      "length (cf_ip cf1) = length (cf_ip cf)"
      "cstr (cf_path cf1) = (if fst kv = ''path:'' then snd kv else cstr (cf_path cf))"
      "cstr (cf_ip cf1) = (if fst kv = ''addr:'' then snd kv else cstr (cf_ip cf))"
      "cf_port cf1 = (if fst kv = ''port:'' then c_atoi (snd kv) else cf_port cf)"
    by blast
  with Cons.IH [of cf1] Cons.prems show ?case by simp
qed simp

lemma line_shorter:
  assumes "kv \<in> set kvs" "length (file_of kvs) < 200"
  shows "length (snd kv) < 200"
proof -
  have "length (line_text kv @ [newline]) \<le> length (file_of kvs)"
    unfolding file_of_def length_concat by (rule member_le_sum_list) (use assms(1) in auto)
  with assms(2) show ?thesis by (simp add: line_text_def)
qed

text \<open>The hook's reader, however its reads are cut.\<close>

lemma hook_reads:
  assumes "\<forall>kv \<in> set kvs. wf_line kv \<and> (\<forall>x \<in> set (line_text kv). \<not> client_line_end x)"
    and "length (file_of kvs) < 200" "delivered evs = file_of kvs" "length fp = 200"
  shows "\<exists>fp'. get_path (Some evs) fp = Inr fp' \<and> length fp' = 200 \<and>
    cstr fp' = last_value ''path:'' kvs (cstr fp) id"
proof -
  have "fst (snd (readn 300 evs)) = file_of kvs"
    using assms(2,3) by (simp add: readn_bytes)
  then have "get_path (Some evs) fp = fold_res hook_line kvs fp"
    using hook_reader.read_lines [of kvs 300 fp] assms(1,2)
    by (auto simp: get_path_def client_line_end_def)
  with hook_lines [of kvs fp] assms(1,2,4) line_shorter [of _ kvs] show ?thesis by auto
qed

section \<open>Properties\<close>



text \<open>The file the repository ships, \<open>etc/init.conf\<close>, byte for byte.\<close>

definition shipped_conf :: string where
  "shipped_conf =
     ''port:8888'' @ [CHR 0x0D, CHR 0x0A] @ ''addr:127.0.0.1'' @ [CHR 0x0D, CHR 0x0A] @ ''/*''
     @ [CHR 0xE6, CHR 0x9C, CHR 0x8D, CHR 0xE5, CHR 0x8A, CHR 0xA1, CHR 0xE5, CHR 0x99, CHR 0xA8]
     @ ''ip/'' @ [CHR 0x0D, CHR 0x0A] @ ''path:/home/ '' @ [CHR 0x0D, CHR 0x0A] @ ''#path''
     @ [CHR 0xE4, CHR 0xBD, CHR 0xBF, CHR 0xE7, CHR 0x94, CHR 0xA8, CHR 0xE7, CHR 0xBB, CHR 0x9D, CHR 0xE5, CHR 0xAF, CHR 0xB9, CHR 0xE8, CHR 0xB7, CHR 0xAF, CHR 0xE5, CHR 0xBE, CHR 0x84]
     @ ''(''
     @ [CHR 0xE6, CHR 0xB3, CHR 0xA8, CHR 0xE6, CHR 0x84, CHR 0x8F, CHR 0xE8, CHR 0xA2, CHR 0xAB, CHR 0xE7, CHR 0x9B, CHR 0x91, CHR 0xE6, CHR 0x8E, CHR 0xA7, CHR 0xE7, CHR 0x9B, CHR 0xAE, CHR 0xE5, CHR 0xBD, CHR 0x95, CHR 0xE7, CHR 0x9A, CHR 0x84, CHR 0xE6, CHR 0x9D, CHR 0x83, CHR 0xE9, CHR 0x99, CHR 0x90]
     @ '')'' @ [CHR 0x0D, CHR 0x0A]"

lemma shipped_client:
  "(case get_ip_addr (Some [Rd_data shipped_conf])
      \<lparr>cf_ip = c_memset 32, cf_port = 0, cf_path = c_memset 256\<rparr> of
      Inr (Some cf) \<Rightarrow> cstr (cf_ip cf) = ''127.0.0.1'' \<and> cf_port cf = 8888 \<and> cstr (cf_path cf) = ''/home/ ''
    | _ \<Rightarrow> False)"
  by code_simp

lemma shipped_hook:
  "(case get_path (Some [Rd_data shipped_conf]) (c_memset 200) of
      Inr fp \<Rightarrow> cstr fp = ''/home/ '' @ [CHR 0x0D]
    | _ \<Rightarrow> False)"
  by code_simp

lemma shipped_config:
  "(\<exists>cf. get_ip_addr (Some [Rd_data shipped_conf]) \<lparr>cf_ip = c_memset 32, cf_port = 0, cf_path = c_memset 256\<rparr> =
       Inr (Some cf) \<and> cstr (cf_ip cf) = ''127.0.0.1'' \<and> cf_port cf = 8888 \<and>
       cstr (cf_path cf) = ''/home/ '') \<and>
   (\<exists>fp. get_path (Some [Rd_data shipped_conf]) (c_memset 200) = Inr fp \<and>
       cstr fp = ''/home/ '' @ [CHR 0x0D])"
  using shipped_client shipped_hook by (auto split: sum.splits option.splits)

end
