(* ===== verification/Host.thy ===== *)
theory Host
  imports C_Format
begin

text \<open>
  The client's machine, as far as the hook (in every process that preloads it) and the
  monitoring client share it: System V message queues, POSIX shared memory and the
  semaphore, the files, and the descriptors of one process. Then the code that talks over
  the queues: \<open>recv_keep_valie\<close> and \<open>send_link\<close> of \<open>hook/hook.c\<close>, \<open>Send_keep_alive\<close> of
  \<open>client/main.hpp\<close>, and the choice of the segment's name, which both sides make alike.
\<close>

section \<open>State\<close>

text \<open>
  A message is its type and its 1024 bytes. A segment has a size; bytes past \<open>seg_data\<close> are
  NUL. \<open>q_limit\<close> is the number of such messages a queue holds (the kernel's 16384 bytes by
  default). The members called \<open>denied\<close> say which calls the kernel refuses: \<open>msgget\<close>,
  \<open>shm_open\<close>, \<open>sem_open\<close>, \<open>ftruncate\<close> and \<open>mmap\<close>.
\<close>

record segment =
  seg_data :: string
  seg_size :: nat

record host =
  queues :: "int \<Rightarrow> (int \<times> string) list option"
  q_denied :: "int \<Rightarrow> bool"
  q_limit :: nat
  shm :: "string \<Rightarrow> segment option"
  shm_denied :: "string \<Rightarrow> bool"
  sem_value :: "nat option"
  sem_denied :: bool
  trunc_denied :: bool
  map_denied :: bool
  h_files :: "string \<Rightarrow> string option"
  h_dirs :: "string set"
  h_dir_size :: "string \<Rightarrow> nat"
  h_readonly :: "string \<Rightarrow> bool"
  h_fds :: "int \<Rightarrow> string option"

section \<open>Message queues\<close>

text \<open>\<open>msgget(key, IPC_CREAT | 0666)\<close>: whether it gives a queue, creating it when missing.\<close>

definition msgget :: "int \<Rightarrow> host \<Rightarrow> bool \<times> host" where
  "msgget key h =
     (if q_denied h key then (False, h)
      else (True, case queues h key of
                    None \<Rightarrow> h\<lparr>queues := (queues h)(key \<mapsto> [])\<rparr>
                  | Some _ \<Rightarrow> h))"

text \<open>\<open>msgsnd\<close> with \<open>IPC_NOWAIT\<close>: a type below 1 and a full queue are errors.\<close>

definition msgsnd :: "int \<Rightarrow> int \<times> string \<Rightarrow> host \<Rightarrow> host" where
  "msgsnd key msg h =
     (case queues h key of
        None \<Rightarrow> h
      | Some q \<Rightarrow>
          (if fst msg < 1 \<or> length q \<ge> q_limit h then h
           else h\<lparr>queues := (queues h)(key \<mapsto> q @ [msg])\<rparr>))"

text \<open>\<open>msgrcv\<close> of any type with \<open>IPC_NOWAIT\<close>: the oldest message, or -1.\<close>

definition msgrcv :: "int \<Rightarrow> host \<Rightarrow> ((int \<times> string) \<times> host) option" where
  "msgrcv key h =
     (case queues h key of
        Some (msg # q) \<Rightarrow> Some (msg, h\<lparr>queues := (queues h)(key \<mapsto> q)\<rparr>)
      | _ \<Rightarrow> None)"

definition msgctl_rmid :: "int \<Rightarrow> host \<Rightarrow> host" where
  "msgctl_rmid key h = h\<lparr>queues := (queues h)(key := None)\<rparr>"

section \<open>Permission to open files\<close>

text \<open>The client tells the hook whether the server is there.\<close>

definition Send_keep_alive :: "char \<Rightarrow> host \<Rightarrow> host" where
  "Send_keep_alive flag h =
     (case msgget 1000 h of
        (False, h1) \<Rightarrow> h1
      | (True, h1) \<Rightarrow> msgsnd 1000 (1, flag # replicate 1023 NUL) h1)"

text \<open>The hook takes one message; either answer removes the queue and all that is in it.\<close>

definition recv_keep_valie :: "host \<Rightarrow> int \<times> host" where
  "recv_keep_valie h =
     (case msgget 1000 h of
        (False, h1) \<Rightarrow> (- 1, h1)
      | (True, h1) \<Rightarrow>
          (case msgrcv 1000 h1 of
             None \<Rightarrow> (- 1, h1)
           | Some ((_, mtext), h2) \<Rightarrow>
               (if cstr mtext = ''1'' then (1, msgctl_rmid 1000 h2)
                else if cstr mtext = ''0'' then (0, msgctl_rmid 1000 h2)
                else (- 1, h2))))"

section \<open>Announcing a file\<close>

text \<open>
  \<open>get_file_size\<close>: the size (of a directory, what its file system says), or -1 as
  \<open>unsigned long\<close> when \<open>stat\<close> fails.
\<close>

definition get_file_size :: "string \<Rightarrow> host \<Rightarrow> int" where
  "get_file_size path h =
     (if path \<in> h_dirs h then int (h_dir_size h path)
      else (case h_files h path of None \<Rightarrow> c_ulong (- 1) | Some bs \<Rightarrow> int (length bs)))"

text \<open>\<open>mtype\<close> is a \<open>long long\<close>.\<close>

definition c_long :: "int \<Rightarrow> int" where
  "c_long x = signed_take_bit 63 x"

definition send_link :: "string \<Rightarrow> int \<Rightarrow> host \<Rightarrow> host res" where
  "send_link path t h =
     bind_res (c_strcpy (c_memset 1024) (lit path)) (\<lambda>mtext.
       case msgget t h of
         (False, h1) \<Rightarrow> Inr h1
       | (True, h1) \<Rightarrow> Inr (msgsnd t (c_long (get_file_size path h1), mtext) h1))"

section \<open>The segment's name\<close>

text \<open>
  The last component of the path, from its slash on, is copied over the start of the global
  \<open>SHM_NAME\<close> without a terminator, and nothing clears what was there. With no slash nothing
  is copied (the index is -1, which the comparison with \<open>strlen\<close> takes as a huge number).
\<close>

definition base_of :: "string \<Rightarrow> string" where
  "base_of path = (case strrchr path CHR ''/'' of None \<Rightarrow> [] | Some g \<Rightarrow> drop g path)"

definition copy_name :: "string \<Rightarrow> string \<Rightarrow> string res" where
  "copy_name path buf =
     (let b = base_of path in
      if length b \<le> length buf then Inr (b @ drop (length b) buf) else Inl Out_of_bounds)"

text \<open>The client's copy of the same loops, in \<open>Send_img\<close>.\<close>

definition client_copy_name :: "string \<Rightarrow> string \<Rightarrow> string res" where
  "client_copy_name path buf = copy_name path buf"

section \<open>Lemmas\<close>

lemma base_of_split: "CHR ''/'' \<notin> set b \<Longrightarrow> base_of (a @ CHR ''/'' # b) = CHR ''/'' # b"
  by (simp add: base_of_def strrchr_last)

lemma base_of_no_nul [simp]: "no_nul path \<Longrightarrow> no_nul (base_of path)"
  by (simp add: base_of_def split: option.splits)

lemma length_base_of: "length (base_of path) \<le> length path"
  by (simp add: base_of_def split: option.splits)

lemma copy_name_result:
  assumes "no_nul path" "length (base_of path) \<le> length buf"
  shows "\<exists>buf'. copy_name path buf = Inr buf' \<and> length buf' = length buf \<and>
     cstr buf' = base_of path @ cstr (drop (length (base_of path)) buf)"
  using assms by (simp add: copy_name_def Let_def cstr_no_nul_append)

lemma cstr_drop: "cstr (drop n buf) = drop n (cstr buf)" if "n \<le> length (cstr buf)"
  using that
proof (induction n arbitrary: buf)
  case (Suc n)
  then show ?case by (cases buf) (auto simp: cstr_Cons split: if_splits)
qed simp

lemma c_long_id: "- (2 ^ 63) \<le> x \<Longrightarrow> x < 2 ^ 63 \<Longrightarrow> c_long x = x"
  by (simp add: c_long_def signed_take_bit_int_eq_self)

lemma c_long_huge: "c_long (c_ulong (- 1)) = - 1"
  unfolding c_long_def c_ulong_def signed_take_bit_take_bit by simp

text \<open>The flags the client sends.\<close>

definition flag_text :: "char \<Rightarrow> string" where
  "flag_text c = c # replicate 1023 NUL"

lemma cstr_flag_text: "c \<noteq> NUL \<Longrightarrow> cstr (flag_text c) = [c]"
  by (simp add: flag_text_def cstr_Cons)

lemma keep_alive_result:
  "\<not> q_denied h 1000 \<Longrightarrow>
     Send_keep_alive c h =
       (let q = (case queues h 1000 of None \<Rightarrow> [] | Some q \<Rightarrow> q) in
        h\<lparr>queues := (queues h)(1000 \<mapsto> (if length q < q_limit h then q @ [(1, flag_text c)] else q))\<rparr>)"
  by (cases "queues h 1000")
    (auto simp: Send_keep_alive_def msgget_def msgsnd_def flag_text_def Let_def fun_upd_idem)

text \<open>Any number of questions, one after the other.\<close>

fun ask :: "nat \<Rightarrow> host \<Rightarrow> int list \<times> host" where
  "ask 0 h = ([], h)"
| "ask (Suc n) h = (let (r, h1) = recv_keep_valie h; (rs, h2) = ask n h1 in (r # rs, h2))"

lemma recv_empty:
  "\<not> q_denied h 1000 \<Longrightarrow> queues h 1000 = None \<or> queues h 1000 = Some [] \<Longrightarrow>
     recv_keep_valie h = (- 1, h\<lparr>queues := (queues h)(1000 \<mapsto> [])\<rparr>)"
  by (auto simp: recv_keep_valie_def msgget_def msgrcv_def fun_upd_idem)

lemma recv_first:
  "\<not> q_denied h 1000 \<Longrightarrow> queues h 1000 = Some ((k, flag_text c) # q) \<Longrightarrow> c = CHR ''0'' \<or> c = CHR ''1'' \<Longrightarrow>
     recv_keep_valie h = (if c = CHR ''0'' then 0 else 1, h\<lparr>queues := (queues h)(1000 := None)\<rparr>)"
  by (auto simp: recv_keep_valie_def msgget_def msgrcv_def msgctl_rmid_def cstr_flag_text)

lemma ask_empty:
  "\<not> q_denied h 1000 \<Longrightarrow> queues h 1000 = None \<or> queues h 1000 = Some [] \<Longrightarrow>
     fst (ask n h) = replicate n (- 1)"
proof (induction n arbitrary: h)
  case (Suc n)
  have "fst (ask n (h\<lparr>queues := (queues h)(1000 \<mapsto> [])\<rparr>)) = replicate n (- 1)"
    by (rule Suc.IH) (use Suc.prems in auto)
  with recv_empty [OF Suc.prems] show ?case by (simp add: Let_def case_prod_beta)
qed simp

lemma keep_alive_head:
  "queues g 1000 = Some (m # q) \<Longrightarrow> \<not> q_denied g 1000 \<Longrightarrow>
     \<exists>q'. queues (fold Send_keep_alive cs g) 1000 = Some (m # q') \<and>
       \<not> q_denied (fold Send_keep_alive cs g) 1000"
proof (induction cs arbitrary: g q)
  case (Cons c cs)
  have "\<exists>q1. queues (Send_keep_alive c g) 1000 = Some (m # q1)" "\<not> q_denied (Send_keep_alive c g) 1000"
    using keep_alive_result [OF Cons.prems(2)] Cons.prems by (auto simp: Let_def)
  with Cons.IH show ?case by auto
qed simp

definition sample_host :: host where
  "sample_host =
     \<lparr>queues = (\<lambda>_. None), q_denied = (\<lambda>_. False), q_limit = 16, shm = (\<lambda>_. None),
      shm_denied = (\<lambda>_. False), sem_value = None, sem_denied = False, trunc_denied = False,
      map_denied = False, h_files = (\<lambda>_. None), h_dirs = {}, h_dir_size = (\<lambda>_. 4096),
      h_readonly = (\<lambda>_. False), h_fds = (\<lambda>_. None)\<rparr>"

section \<open>Properties\<close>

text \<open>
  C29. How the permission channel behaves: whatever flags the client has queued, the first
  question of any hooked process answers the oldest flag and removes the queue with all the
  others, and every later question gets no answer until the client speaks again. So after
  "the server is gone" exactly one open or close is refused, and none at all when an older
  "the server is there" was still unread.
\<close>

theorem keep_alive_channel:
  assumes "\<not> q_denied h 1000" "queues h 1000 = None"
    and "\<forall>c \<in> set flags. c = CHR ''0'' \<or> c = CHR ''1''" "0 < q_limit h"
  shows "fst (ask n (fold Send_keep_alive flags h)) =
    (case flags of
       [] \<Rightarrow> replicate n (- 1)
     | c # _ \<Rightarrow> take n ((if c = CHR ''0'' then 0 else 1) # replicate (n - 1) (- 1)))"
proof (cases flags)
  case Nil
  with ask_empty [of h n] assms show ?thesis by simp
next
  case (Cons c cs)
  let ?h1 = "Send_keep_alive c h" and ?h2 = "fold Send_keep_alive flags h"
  have "queues ?h1 1000 = Some [(1, flag_text c)]" "\<not> q_denied ?h1 1000"
    using keep_alive_result [OF assms(1)] assms by (simp_all add: Let_def)
  from keep_alive_head [OF this, of cs] Cons obtain q where
    q: "queues ?h2 1000 = Some ((1, flag_text c) # q)" "\<not> q_denied ?h2 1000"
    by auto
  let ?h3 = "?h2\<lparr>queues := (queues ?h2)(1000 := None)\<rparr>"
  have c: "c = CHR ''0'' \<or> c = CHR ''1''" using assms(3) Cons by simp
  have first: "recv_keep_valie ?h2 = (if c = CHR ''0'' then 0 else 1, ?h3)"
    by (rule recv_first [OF q(2,1) c])
  have rest: "fst (ask m ?h3) = replicate m (- 1)" for m
    by (rule ask_empty) (use q in auto)
  show ?thesis
  proof (cases n)
    case (Suc m)
    then show ?thesis using first rest [of m] \<open>flags = c # cs\<close> by (simp add: Let_def case_prod_beta)
  qed (use Cons in simp)
qed

lemma keep_alive_channel_witness:
  "fst (ask 3 (fold Send_keep_alive ''0'' sample_host)) = [0, - 1, - 1] \<and>
   fst (ask 3 (fold Send_keep_alive ''10'' sample_host)) = [1, - 1, - 1]"
  using keep_alive_channel [of sample_host "''0''" 3] keep_alive_channel [of sample_host "''10''" 3]
  by (simp add: sample_host_def eval_nat_numeral)

text \<open>All bytes of the name's array that were ever written hold no NUL below the longest name.\<close>

lemma copy_names_result:
  assumes "\<forall>p \<in> set ps. no_nul p \<and> length (base_of p) < n"
  shows "\<exists>buf. fold_res copy_name ps (replicate n NUL) = Inr buf \<and>
     (\<exists>name. no_nul name \<and> buf = name @ replicate (n - length name) NUL \<and>
       length name = fold max (map (\<lambda>q. length (base_of q)) ps) 0 \<and>
       (ps \<noteq> [] \<longrightarrow> take (length (base_of (last ps))) name = base_of (last ps)))"
  using assms
proof (induction ps rule: rev_induct)
  case Nil
  then show ?case by simp
next
  case (snoc p ps)
  then obtain name where name: "fold_res copy_name ps (replicate n NUL) = Inr (name @ replicate (n - length name) NUL)"
      "no_nul name" "length name = fold max (map (\<lambda>q. length (base_of q)) ps) 0"
    by auto
  let ?b = "base_of p"
  have b: "no_nul ?b" "length ?b < n" using snoc.prems by auto
  have bound: "fold max (map (\<lambda>q. length (base_of q)) qs) m \<le> max m (n - 1)"
    if "\<forall>q \<in> set qs. length (base_of q) < n" for qs m
    using that
  proof (induction qs arbitrary: m)
    case (Cons q qs)
    from Cons.IH [of "max (length (base_of q)) m"] Cons.prems show ?case by auto
  qed simp
  have "length name \<le> n - 1" using name(3) bound [of ps 0] snoc.prems by simp
  let ?name = "?b @ drop (length ?b) name"
  have "copy_name p (name @ replicate (n - length name) NUL) = Inr (?name @ replicate (n - length ?name) NUL)"
    using b \<open>length name \<le> n - 1\<close> by (simp add: copy_name_def Let_def max_def)
  moreover have "fold_res copy_name (ps @ [p]) st = bind_res (fold_res copy_name ps st) (copy_name p)" for st
    by (induction ps arbitrary: st) (auto simp: bind_res_def split: sum.splits)
  ultimately have "fold_res copy_name (ps @ [p]) (replicate n NUL) =
      Inr (?name @ replicate (n - length ?name) NUL)"
    using name(1) by simp
  moreover have "length ?name = max (length ?b) (length name)" by simp
  then have "length ?name = fold max (map (\<lambda>q. length (base_of q)) (ps @ [p])) 0"
    using name(3) by simp
  moreover have "no_nul ?name" using name(2) b by simp
  moreover have "take (length (base_of (last (ps @ [p])))) ?name = base_of (last (ps @ [p]))" by simp
  ultimately show ?case by blast
qed

text \<open>
  C30. The name of the shared segment: a process that has hooked no file yet uses the last
  component of the path; the client, which goes through the announced paths \<open>ps\<close> with the
  same array, uses it for the last of them if and only if none of the earlier names was
  longer; otherwise the rest of a longer name stays behind the shorter one and the client
  looks for a segment that no process made.
\<close>

theorem segment_names:
  assumes "ps \<noteq> []" "\<forall>p \<in> set ps. no_nul p \<and> length (base_of p) < 256"
  shows "\<exists>hook_buf client_buf.
     copy_name (last ps) (c_memset 1024) = Inr hook_buf \<and> cstr hook_buf = base_of (last ps) \<and>
     fold_res client_copy_name ps (c_memset 256) = Inr client_buf \<and>
     (cstr client_buf = base_of (last ps) \<longleftrightarrow>
       (\<forall>p \<in> set ps. length (base_of p) \<le> length (base_of (last ps))))"
proof -
  let ?b = "base_of (last ps)"
  have b: "no_nul ?b" "length ?b < 256" using assms by auto
  have c: "client_copy_name = copy_name" by (simp add: client_copy_name_def fun_eq_iff)
  obtain name where name: "no_nul name" "length name = fold max (map (\<lambda>q. length (base_of q)) ps) 0"
      "take (length ?b) name = ?b"
      "fold_res copy_name ps (c_memset 256) = Inr (name @ replicate (256 - length name) NUL)"
    using copy_names_result [OF assms(2)] assms(1) by (auto simp: c_memset_def)
  have "name = ?b \<longleftrightarrow> length name = length ?b" using name(3) by (metis take_all order_refl)
  moreover have "length name = Max (insert 0 (set (map (\<lambda>q. length (base_of q)) ps)))"
    using name(2) Max.set_eq_fold [of "0 :: nat" "map (\<lambda>q. length (base_of q)) ps"] by simp
  moreover have "Max (insert 0 (set (map (\<lambda>q. length (base_of q)) ps))) = length ?b \<longleftrightarrow>
      (\<forall>p \<in> set ps. length (base_of p) \<le> length ?b)"
    using assms(1) by (subst Max_eq_iff) auto
  moreover have "cstr (name @ replicate (256 - length name) NUL) = name"
    using name(1) by (simp add: cstr_no_nul_append)
  moreover have "copy_name (last ps) (c_memset 1024) = Inr (?b @ replicate (1024 - length ?b) NUL)"
    "cstr (?b @ replicate (1024 - length ?b) NUL) = ?b"
    using b by (simp_all add: copy_name_def Let_def c_memset_def cstr_no_nul_append)
  ultimately show ?thesis using name(4) c by metis
qed

lemma segment_names_witness:
  "\<exists>buf. fold_res client_copy_name [''/home/notes.txt'', ''/home/a.c''] (c_memset 256) = Inr buf \<and>
     cstr buf \<noteq> base_of ''/home/a.c''"
proof -
  have "base_of ''/home/notes.txt'' = ''/notes.txt''" "base_of ''/home/a.c'' = ''/a.c''"
    by code_simp+
  with segment_names [of "[''/home/notes.txt'', ''/home/a.c'']"] show ?thesis by auto
qed

end
