(* ===== verification/Hook.thy ===== *)
theory Hook
  imports Host Config
begin

text \<open>
  The preloaded library, \<open>hook/hook.c\<close>: \<open>open\<close> and \<open>close\<close> as every process of the machine
  sees them. \<open>hook\<close> is the library's global data in one process, and the bytes that lie behind
  the array \<open>buf\<close> of \<open>set_map\<close> on its stack; \<open>None\<close> as a result is a loop that never ends. What the configuration file delivers and what \<open>realpath\<close> leaves in
  its buffer are arguments.
\<close>

section \<open>State\<close>

record hook =
  shm_name :: string
  filename_path :: string
  per_flag :: bool
  buf_tail :: string

definition hook_start :: hook where
  "hook_start = \<lparr>shm_name = c_memset 1024, filename_path = c_memset 200, per_flag = False, buf_tail = []\<rparr>"

section \<open>The original open and close\<close>

text \<open>
  On the flags of Linux: the two low bits are the access mode, bit 6 is \<open>O_CREAT\<close> and bit 9
  is \<open>O_TRUNC\<close>. A read-only file can only be opened for reading.
\<close>

definition free_fds :: "host \<Rightarrow> int list" where
  "free_fds h = filter (\<lambda>fd. h_fds h fd = None) (map int [0..<1024])"

definition lowest_fd :: "host \<Rightarrow> int option" where
  "lowest_fd h = (case free_fds h of [] \<Rightarrow> None | fd # _ \<Rightarrow> Some fd)"

definition orig_open :: "string \<Rightarrow> int \<Rightarrow> host \<Rightarrow> int \<times> host" where
  "orig_open path flags h =
     (case lowest_fd h of
        None \<Rightarrow> (- 1, h)
      | Some fd \<Rightarrow>
          (let writes = flags mod 4 \<noteq> 0; h' = h\<lparr>h_fds := (h_fds h)(fd \<mapsto> path)\<rparr> in
           if path \<in> h_dirs h then (if writes then (- 1, h) else (fd, h'))
           else (case h_files h path of
                   None \<Rightarrow>
                     (if bit flags 6 \<and> \<not> h_readonly h path
                      then (fd, h'\<lparr>h_files := (h_files h)(path \<mapsto> [])\<rparr>) else (- 1, h))
                 | Some _ \<Rightarrow>
                     (if writes \<and> h_readonly h path then (- 1, h)
                      else if bit flags 9 \<and> writes
                      then (fd, h'\<lparr>h_files := (h_files h)(path \<mapsto> [])\<rparr>)
                      else (fd, h')))))"

definition orig_close :: "int \<Rightarrow> host \<Rightarrow> host" where
  "orig_close fd h = h\<lparr>h_fds := (h_fds h)(fd := None)\<rparr>"

section \<open>set_map\<close>

text \<open>A POSIX segment's name: a slash and then at least one character, none of them a slash.\<close>

definition valid_shm_name :: "string \<Rightarrow> bool" where
  "valid_shm_name name \<longleftrightarrow>
     2 \<le> length name \<and> length name \<le> 255 \<and> hd name = CHR ''/'' \<and> CHR ''/'' \<notin> set (tl name)"

text \<open>\<open>shm_open(name, O_RDWR | O_CREAT)\<close>, which takes a descriptor; nothing ever closes it.\<close>

definition shm_create :: "string \<Rightarrow> host \<Rightarrow> host option" where
  "shm_create name h =
     (if \<not> valid_shm_name name \<or> shm_denied h name then None
      else (case lowest_fd h of
              None \<Rightarrow> None
            | Some fd \<Rightarrow>
                (let h' = h\<lparr>h_fds := (h_fds h)(fd \<mapsto> ''/dev/shm'' @ name)\<rparr> in
                 Some (case shm h name of
                         None \<Rightarrow> h'\<lparr>shm := (shm h)(name \<mapsto> \<lparr>seg_data = [], seg_size = 0\<rparr>)\<rparr>
                       | Some _ \<Rightarrow> h'))))"

text \<open>
  \<open>sem_open(..., O_CREAT, 0666, 0)\<close>: a semaphore that is not there starts at 0. The answer is
  whether there is one.
\<close>

definition sem_create :: "host \<Rightarrow> bool \<times> host" where
  "sem_create h =
     (if sem_denied h then (False, h)
      else (True, h\<lparr>sem_value := Some (case sem_value h of None \<Rightarrow> 0 | Some v \<Rightarrow> v)\<rparr>))"

definition map_size :: nat where
  "map_size = 1024 * 1024 * 1024"

text \<open>
  \<open>ftruncate\<close> and \<open>mmap\<close>, whose failures are only printed: the segment keeps its size, and an
  access past its end faults; the mapping's address is -1, and every access faults. The
  sizes are 0 and \<open>map_size\<close>, whole pages.
\<close>

definition set_length :: "host \<Rightarrow> segment \<Rightarrow> segment" where
  "set_length h seg = (if trunc_denied h then seg else seg\<lparr>seg_size := map_size\<rparr>)"

definition map_view :: "host \<Rightarrow> segment \<Rightarrow> segment" where
  "map_view h seg = (if map_denied h then seg\<lparr>seg_size := 0\<rparr> else seg)"

text \<open>\<open>memmove(memPtr, ...)\<close> at an offset of the mapping.\<close>

definition seg_write :: "int \<Rightarrow> string \<Rightarrow> segment \<Rightarrow> segment res" where
  "seg_write off bs seg =
     (if off < 0 \<or> off + int (length bs) > int (seg_size seg) then Inl Out_of_bounds
      else Inr (seg\<lparr>seg_data := splice_at NUL (seg_data seg) (nat off) bs\<rparr>))"

text \<open>
  The copying loop. Each turn reads up to 1024 bytes into a zeroed array; appends the empty
  string to it, which looks for the first NUL, in \<open>tail\<close> behind the array when 1024 bytes
  without one were read, and writes a NUL there; copies 1023 bytes (\<open>sizeof(buf) - 1\<close>) to
  the current place; and moves on by the number of bytes read, which for -1 is a step back.
\<close>

partial_function (option) copy_loop ::
    "string \<Rightarrow> int \<Rightarrow> int \<Rightarrow> read_event list \<Rightarrow> int \<Rightarrow> segment \<Rightarrow> segment run" where
  "copy_loop tail number numbern evs off seg =
     (if numbern = number then Some (Inr seg)
      else
        (let r = fst (readn 1024 evs); got = fst (snd (readn 1024 evs));
             evs' = snd (snd (readn 1024 evs));
             buf = got @ replicate (1024 - length got) NUL in
         if \<not> terminated (buf @ tail) then Some (Inl Not_terminated)
         else case seg_write off (take 1023 buf) seg of
           Inl e \<Rightarrow> Some (Inl e)
         | Inr seg' \<Rightarrow> copy_loop tail number (c_ulong (numbern + c_ulong r)) evs' (off + r) seg'))"

definition secret :: string where
  "secret = ''It is a secret''"

text \<open>
  The second descriptor of the file, never closed either, and what reading it delivers: the
  whole file, or errors when it cannot be opened.
\<close>

definition open_again :: "string \<Rightarrow> host \<Rightarrow> read_event list \<times> host" where
  "open_again path h =
     (case orig_open path 0 h of
        (fd, h') \<Rightarrow>
          (if fd < 0 then ([Rd_error, Rd_error], h')
           else case h_files h path of
                  None \<Rightarrow> ([Rd_error, Rd_error], h')
                | Some bs \<Rightarrow> ([Rd_data bs], h')))"

text \<open>The end: the file is truncated, opened for writing, and gets the constant text.\<close>

definition replace_file :: "string \<Rightarrow> host \<Rightarrow> host" where
  "replace_file path h =
     (case orig_open path 0x202 h of
        (fd, h1) \<Rightarrow>
          if fd < 0 then h1
          else orig_close fd (h1\<lparr>h_files := (h_files h1)(path \<mapsto> secret)\<rparr>))"

definition set_map :: "string \<Rightarrow> hook \<Rightarrow> host \<Rightarrow> (hook \<times> host) run" where
  "set_map path hk h =
     (if path \<in> h_dirs h then Some (Inr (hk, h))
      else if h_files h path = None then Some (Inl Indeterminate)
      else
        bind_run (Some (copy_name path (shm_name hk))) (\<lambda>name_buf.
        bind_run (Some (c_read name_buf)) (\<lambda>name.
        let hk1 = hk\<lparr>shm_name := name_buf\<rparr> in
        (case shm_create name h of
           None \<Rightarrow> Some (Inr (hk1, snd (sem_create h)))
         | Some h1 \<Rightarrow>
           (case sem_create h1 of
              (False, h2) \<Rightarrow> Some (Inr (hk1, h2))
            | (True, h2) \<Rightarrow>
             (let seg = set_length h2 (the (shm h2 name));
                  h3 = snd (open_again path h2) in
              bind_run (copy_loop (buf_tail hk1) (get_file_size path h3) 0 (fst (open_again path h2)) 0 (map_view h2 seg))
                (\<lambda>seg'.
                let h4 = h3\<lparr>shm := (shm h3)(name \<mapsto> seg'\<lparr>seg_size := seg_size seg\<rparr>),
                            sem_value := map_option Suc (sem_value h3)\<rparr> in
                Some (Inr (hk1, replace_file path h4)))))))))"

section \<open>open and close\<close>

text \<open>
  The prefix test: all but the last character of the configured path are compared (with an
  empty path the length wraps around and the whole strings are compared).
\<close>

definition watched :: "string \<Rightarrow> string \<Rightarrow> bool" where
  "watched conf path \<longleftrightarrow>
     (if conf = [] then path = [] else strncmp_eq conf path (length conf - 1))"

definition proc_fd_link :: "int \<Rightarrow> string res" where
  "proc_fd_link fd =
     bind_res (c_snprintf (c_memset 1024) 1024 ''/proc/self/fd/%d'' [PInt fd]) (\<lambda>(_, b). Inr (cstr b))"

text \<open>\<open>readlink\<close> of that name into an array of 1024 bytes of which the last stays.\<close>

definition read_fd_link :: "string \<Rightarrow> int \<Rightarrow> host \<Rightarrow> string res" where
  "read_fd_link initial fd h =
     bind_res (proc_fd_link fd) (\<lambda>_.
       case h_fds h fd of
         None \<Rightarrow> Inr (initial @ replicate (1024 - length initial) NUL)
       | Some path \<Rightarrow>
           (let p = take 1023 path in
            Inr (p @ drop (length p) (initial @ replicate (1024 - length initial) NUL))))"

definition hook_open ::
    "read_event list option \<Rightarrow> (string \<Rightarrow> string) \<Rightarrow> string \<Rightarrow> int \<Rightarrow> int \<Rightarrow> hook \<Rightarrow> host \<Rightarrow>
     (int \<times> hook \<times> host) run" where
  "hook_open conf realpath pathname flags third_agrs hk h =
     (case recv_keep_valie h of (answer, h1) \<Rightarrow>
      if answer = 0 then Some (Inr (- 1, hk, h1))
      else
        let hk1 = (if 0 \<le> third_agrs \<and> third_agrs \<le> 511 then hk\<lparr>per_flag := True\<rparr> else hk) in
        bind_run (Some (c_strcpy (c_memset 128) (lit (realpath pathname)))) (\<lambda>resolved.
        bind_run (Some (get_path conf (c_memset 200))) (\<lambda>fp.
        let hk2 = hk1\<lparr>filename_path := fp\<rparr>; path = cstr resolved in
        (case orig_open path flags h1 of (res, h2) \<Rightarrow>
         if watched (cstr fp) path
         then
           (if res > 0
            then
              bind_run (Some (read_fd_link [] res h2)) (\<lambda>link.
              bind_run (Some (send_link (cstr link) 1024 h2)) (\<lambda>h3.
              bind_run (set_map path hk2 h3) (\<lambda>(hk3, h4). Some (Inr (res, hk3, h4)))))
            else Some (Inr (res, hk2, h2)))
         else Some (Inr (res, hk2, h2))))))"

text \<open>
  \<open>close\<close>. The array for the link's target starts as the text \<open>0\<close>. On the path that closes
  the file the function ends without a \<open>return\<close>: its result is indeterminate (\<open>None\<close>).
\<close>

definition hook_close ::
    "read_event list option \<Rightarrow> int \<Rightarrow> hook \<Rightarrow> host \<Rightarrow> (int option \<times> hook \<times> host) res" where
  "hook_close conf fd hk h =
     (case recv_keep_valie h of (answer, h1) \<Rightarrow>
      if answer = 0 \<or> fd = - 1 then Inr (Some (- 1), hk, h1)
      else
        bind_res (read_fd_link ''0'' fd h1) (\<lambda>link.
        bind_res (get_path conf (filename_path hk)) (\<lambda>fp.
        let hk1 = hk\<lparr>filename_path := fp\<rparr> in
        bind_res
          (if watched (cstr fp) (cstr link) \<and> fd > 2 then send_link (cstr link) 1025 h1 else Inr h1)
          (\<lambda>h2. Inr (None, hk1, orig_close fd h2)))))"

section \<open>The copy\<close>

definition byte_at :: "string \<Rightarrow> nat \<Rightarrow> char" where
  "byte_at bs i = (if i < length bs then bs ! i else NUL)"

lemma byte_at_splice:
  "bs \<noteq> [] \<Longrightarrow> byte_at (splice_at NUL old off bs) i =
     (if off \<le> i \<and> i < off + length bs then bs ! (i - off) else byte_at old i)"
  using nth_splice_at [of i NUL old off bs] length_splice_at [of bs NUL old off]
  by (auto simp: byte_at_def)

lemma byte_at_pad: "i < 1024 \<Longrightarrow> (bs @ replicate (1024 - length bs) NUL) ! i = byte_at bs i"
  by (auto simp: byte_at_def nth_append)

lemma byte_at_take: "byte_at (take n bs) i = (if i < n then byte_at bs i else NUL)"
  by (auto simp: byte_at_def)

lemma byte_at_drop: "byte_at (drop n bs) i = byte_at bs (n + i)"
  by (auto simp: byte_at_def)

text \<open>One turn on a file: the bytes written, and what is left to read.\<close>

lemma copy_turn:
  assumes "number \<noteq> int n" "0 \<le> number" "int n + int (length rest) < 2 ^ 63" "n + 1023 \<le> seg_size seg"
    "rest \<noteq> []" "length rest < 1024 \<or> terminated tail"
  shows "\<exists>seg'. copy_loop tail number (int n) [Rd_data rest] (int n) seg =
       copy_loop tail number (int (n + min 1024 (length rest)))
         (if 1024 < length rest then [Rd_data (drop 1024 rest)] else [])
         (int (n + min 1024 (length rest))) seg' \<and>
     seg_size seg' = seg_size seg \<and>
     (\<forall>i. byte_at (seg_data seg') i =
        (if n \<le> i \<and> i < n + 1023 then byte_at rest (i - n) else byte_at (seg_data seg) i))"
proof -
  let ?buf = "take 1024 rest @ replicate (1024 - length (take 1024 rest)) NUL"
  let ?seg = "seg\<lparr>seg_data := splice_at NUL (seg_data seg) n (take 1023 ?buf)\<rparr>"
  have len: "length (take 1023 ?buf) = 1023" by simp
  have w: "seg_write (int n) (take 1023 ?buf) seg = Inr ?seg"
    using assms(4) by (simp add: seg_write_def)
  have c: "c_ulong (int (length (take 1024 rest))) = int (length (take 1024 rest))"
    by (rule c_ulong_id) auto
  have "c_ulong (int n + int (length (take 1024 rest))) = int n + int (length (take 1024 rest))"
    using assms(3) by (intro c_ulong_id) auto
  moreover have "terminated (?buf @ tail)"
    using assms(6) by (auto simp: terminated_def)
  ultimately have "copy_loop tail number (int n) [Rd_data rest] (int n) seg =
      copy_loop tail number (int (n + min 1024 (length rest)))
        (if 1024 < length rest then [Rd_data (drop 1024 rest)] else [])
        (int (n + min 1024 (length rest))) ?seg"
    using assms(1,6) w c by (subst copy_loop.simps) (auto simp: readn_file Let_def min.commute simp del: append_assoc)
  moreover have "byte_at (seg_data ?seg) i =
      (if n \<le> i \<and> i < n + 1023 then byte_at rest (i - n) else byte_at (seg_data seg) i)" for i
  proof (cases "n \<le> i \<and> i < n + 1023")
    case True
    then have "byte_at (seg_data ?seg) i = take 1023 ?buf ! (i - n)"
      using len byte_at_splice [of "take 1023 ?buf" "seg_data seg" n i] by (auto simp del: take_append)
    also have "\<dots> = byte_at rest (i - n)"
      using True byte_at_pad [of "i - n" "take 1024 rest"] byte_at_take [of 1024 rest "i - n"]
      by (auto simp del: take_append)
    finally show ?thesis using True by simp
  next
    case False
    then show ?thesis
      using len byte_at_splice [of "take 1023 ?buf" "seg_data seg" n i] by (auto simp del: take_append)
  qed
  ultimately show ?thesis by (intro exI [of _ ?seg]) simp
qed

text \<open>
  The whole loop: of every 1024 bytes the last is not copied, whatever was in the segment
  stays there.
\<close>

lemma copy_file:
  assumes "int n + int (length rest) < 2 ^ 63" "n + 1024 * ((length rest + 1023) div 1024) \<le> seg_size seg"
    "length rest < 1024 \<or> terminated tail"
  shows "\<exists>seg'. copy_loop tail (int (n + length rest)) (int n) [Rd_data rest] (int n) seg = Some (Inr seg') \<and>
     seg_size seg' = seg_size seg \<and>
     (\<forall>i < n. byte_at (seg_data seg') i = byte_at (seg_data seg) i) \<and>
     (\<forall>i. byte_at (seg_data seg') (n + i) =
        (if i div 1024 * 1024 < length rest \<and> i mod 1024 \<noteq> 1023 then byte_at rest i
         else byte_at (seg_data seg) (n + i)))"
  using assms
proof (induction "length rest" arbitrary: n rest seg rule: less_induct)
  case less
  let ?L = "length rest"
  show ?case
  proof (cases "rest = []")
    case True
    then show ?thesis by (subst copy_loop.simps) simp
  next
    case False
    then have "1 \<le> (?L + 1023) div 1024" by (cases rest) auto
    with less.prems(2) have "n + 1023 \<le> seg_size seg" by simp
    moreover have "int (n + ?L) \<noteq> int n" using False by simp
    ultimately obtain seg1 where turn: "copy_loop tail (int (n + ?L)) (int n) [Rd_data rest] (int n) seg =
         copy_loop tail (int (n + ?L)) (int (n + min 1024 ?L))
           (if 1024 < ?L then [Rd_data (drop 1024 rest)] else []) (int (n + min 1024 ?L)) seg1"
      and seg1: "seg_size seg1 = seg_size seg"
        "\<And>i. byte_at (seg_data seg1) i =
           (if n \<le> i \<and> i < n + 1023 then byte_at rest (i - n) else byte_at (seg_data seg) i)"
      using copy_turn [of "int (n + ?L)" n rest seg tail] less.prems(1,3) False by auto
    show ?thesis
    proof (cases "1024 < ?L")
      case False
      then have "copy_loop tail (int (n + ?L)) (int n) [Rd_data rest] (int n) seg = Some (Inr seg1)"
        unfolding turn by (subst copy_loop.simps) simp
      moreover have "(i div 1024 * 1024 < ?L \<and> i mod 1024 \<noteq> 1023) \<longleftrightarrow> i < 1023" for i
      proof (cases "i < 1024")
        case True
        then show ?thesis using \<open>rest \<noteq> []\<close> by auto
      next
        case big: False
        then have "1024 \<le> i div 1024 * 1024" by auto
        with False big show ?thesis by auto
      qed
      ultimately show ?thesis using seg1 by (intro exI [of _ seg1]) auto
    next
      case True
      let ?rest = "drop 1024 rest"
      have "(?L + 1023) div 1024 = Suc ((length ?rest + 1023) div 1024)" using True by auto
      then have "n + 1024 + 1024 * ((length ?rest + 1023) div 1024) \<le> seg_size seg1"
        using less.prems(2) seg1(1) by simp
      moreover have "length ?rest < ?L" "int (n + 1024) + int (length ?rest) < 2 ^ 63"
        using True less.prems(1) by auto
      moreover have "length ?rest < 1024 \<or> terminated tail" using less.prems(3) True by auto
      ultimately obtain seg' where
        run: "copy_loop tail (int (n + 1024 + length ?rest)) (int (n + 1024)) [Rd_data ?rest] (int (n + 1024)) seg1 =
           Some (Inr seg')" and seg': "seg_size seg' = seg_size seg1"
        "\<forall>i < n + 1024. byte_at (seg_data seg') i = byte_at (seg_data seg1) i"
        "\<forall>i. byte_at (seg_data seg') (n + 1024 + i) =
          (if i div 1024 * 1024 < length ?rest \<and> i mod 1024 \<noteq> 1023 then byte_at ?rest i
           else byte_at (seg_data seg1) (n + 1024 + i))"
        using less.hyps [of ?rest "n + 1024" seg1] by blast
      have "copy_loop tail (int (n + ?L)) (int n) [Rd_data rest] (int n) seg = Some (Inr seg')"
        using run True unfolding turn by simp
      moreover have "byte_at (seg_data seg') (n + i) =
          (if i div 1024 * 1024 < ?L \<and> i mod 1024 \<noteq> 1023 then byte_at rest i
           else byte_at (seg_data seg) (n + i))" for i
      proof (cases "i < 1024")
        case lo: True
        then have "byte_at (seg_data seg') (n + i) = byte_at (seg_data seg1) (n + i)" using seg'(2) by simp
        with lo True show ?thesis by (auto simp: seg1(2))
      next
        case hi: False
        define j where "j = i - 1024"
        have j: "i = 1024 + j" using hi by (simp add: j_def)
        have "byte_at (seg_data seg') (n + i) = byte_at (seg_data seg') (n + 1024 + j)"
          by (simp add: j ac_simps)
        also have "\<dots> = (if j div 1024 * 1024 < length ?rest \<and> j mod 1024 \<noteq> 1023 then byte_at ?rest j
           else byte_at (seg_data seg1) (n + 1024 + j))"
          using seg'(3) by blast
        finally have at: "byte_at (seg_data seg') (n + i) = \<dots>" .
        have "(j + 1024) div 1024 = j div 1024 + 1" by simp
        then have "j div 1024 * 1024 < length ?rest \<longleftrightarrow> i div 1024 * 1024 < ?L" "j mod 1024 = i mod 1024"
          using True by (auto simp: j add.commute)
        then have "(if j div 1024 * 1024 < length ?rest \<and> j mod 1024 \<noteq> 1023 then byte_at ?rest j
           else byte_at (seg_data seg1) (n + 1024 + j)) = (if i div 1024 * 1024 < ?L \<and> i mod 1024 \<noteq> 1023 then byte_at rest i
           else byte_at (seg_data seg) (n + i))"
          by (simp add: j seg1(2) byte_at_drop ac_simps)
        with at show ?thesis by simp
      qed
      ultimately show ?thesis using seg1 seg' by (intro exI [of _ seg']) auto
    qed
  qed
qed

text \<open>When the file ends before its size is reached, the loop turns for ever.\<close>

lemma copy_loop_at_end:
  assumes "numbern \<noteq> number" "0 \<le> off" "off + 1023 \<le> int (seg_size seg)" "0 \<le> numbern" "numbern < 2 ^ 64"
  shows "copy_loop tail number numbern [] off seg = None"
proof (rule ccontr)
  assume "copy_loop tail number numbern [] off seg \<noteq> None"
  then obtain y where y: "copy_loop tail number numbern [] off seg = Some y" by blast
  let ?P = "\<lambda>(tail :: string) (number :: int) (numbern :: int) (evs :: read_event list) (off :: int) (seg :: segment)
      (_ :: segment res). \<not> (evs = [] \<and> numbern \<noteq> number \<and> 0 \<le> off \<and>
      off + 1023 \<le> int (seg_size seg) \<and> 0 \<le> numbern \<and> numbern < 2 ^ 64)"
  have "?P tail number numbern [] off seg y"
  proof (rule copy_loop.raw_induct [where P = ?P, OF _ y])
    fix loop :: "string \<Rightarrow> int \<Rightarrow> int \<Rightarrow> read_event list \<Rightarrow> int \<Rightarrow> segment \<Rightarrow> segment res option"
    fix number numbern off :: int and evs :: "read_event list" and seg :: segment and y
    and tail :: string
    assume IH: "\<And>tail number numbern evs off seg y. loop tail number numbern evs off seg = Some y \<Longrightarrow>
        ?P tail number numbern evs off seg y"
      and body: "(if numbern = number then Some (Inr seg)
        else (let r = fst (readn 1024 evs); got = fst (snd (readn 1024 evs));
                  evs' = snd (snd (readn 1024 evs)); buf = got @ replicate (1024 - length got) NUL in
              if \<not> terminated (buf @ tail) then Some (Inl Not_terminated)
              else case seg_write off (take 1023 buf) seg of
                Inl e \<Rightarrow> Some (Inl e)
              | Inr seg' \<Rightarrow> loop tail number (c_ulong (numbern + c_ulong r)) evs' (off + r) seg')) = Some y"
    show "?P tail number numbern evs off seg y"
    proof
      assume at: "evs = [] \<and> numbern \<noteq> number \<and> 0 \<le> off \<and> off + 1023 \<le> int (seg_size seg) \<and>
          0 \<le> numbern \<and> numbern < 2 ^ 64"
      let ?seg = "seg\<lparr>seg_data := splice_at NUL (seg_data seg) (nat off) (replicate 1023 NUL)\<rparr>"
      have "readn 1024 [] = (0, [], [])" by (simp add: readn_def readn_loop_simps)
      then have "loop tail number numbern [] off ?seg = Some y"
        using body at by (simp add: Let_def seg_write_def c_ulong_id)
      from IH [OF this] at show False by simp
    qed
  qed
  with assms show False by blast
qed

section \<open>Opening, announcing, replacing\<close>

lemma orig_open_file:
  assumes "lowest_fd h = Some fd" "path \<notin> h_dirs h" "h_files h path = Some F" "\<not> h_readonly h path"
  shows "orig_open path flags h =
    (fd, if bit flags 9 \<and> flags mod 4 \<noteq> 0
         then h\<lparr>h_fds := (h_fds h)(fd \<mapsto> path), h_files := (h_files h)(path \<mapsto> [])\<rparr>
         else h\<lparr>h_fds := (h_fds h)(fd \<mapsto> path)\<rparr>)"
  using assms by (simp add: orig_open_def Let_def)

lemma free_fds_take:
  assumes "free_fds h = fd # rest"
  shows "free_fds (h\<lparr>h_fds := (h_fds h)(fd \<mapsto> p)\<rparr>) = rest" "0 \<le> fd" "h_fds h fd = None"
proof -
  have "distinct (free_fds h)" by (simp add: free_fds_def distinct_map)
  moreover have "free_fds (h\<lparr>h_fds := (h_fds h)(fd \<mapsto> p)\<rparr>) = filter (\<lambda>x. x \<noteq> fd) (free_fds h)"
    unfolding free_fds_def filter_filter by (rule filter_cong) auto
  ultimately show "free_fds (h\<lparr>h_fds := (h_fds h)(fd \<mapsto> p)\<rparr>) = rest"
    using assms by (auto simp: filter_id_conv)
  have "fd \<in> set (free_fds h)" using assms by simp
  then show "0 \<le> fd" "h_fds h fd = None" by (auto simp: free_fds_def)
qed

lemma free_fds_cong: "h_fds h = h_fds h' \<Longrightarrow> free_fds h = free_fds h'"
  by (simp add: free_fds_def)

lemma replace_file_result:
  assumes "free_fds h = fd # rest" "path \<notin> h_dirs h" "h_files h path = Some F" "\<not> h_readonly h path"
  shows "replace_file path h = h\<lparr>h_files := (h_files h)(path \<mapsto> secret)\<rparr>"
proof -
  have "bit (0x202 :: int) 9" by code_simp
  note fd = free_fds_take [OF assms(1)]
  then have "(h_fds h)(fd := None) = h_fds h" by (auto simp: fun_upd_idem)
  moreover have "lowest_fd h = Some fd" using assms(1) by (simp add: lowest_fd_def)
  ultimately show ?thesis using \<open>bit (0x202 :: int) 9\<close> fd(2)
    by (simp add: replace_file_def orig_open_file [OF _ assms(2-4)] orig_close_def)
qed

lemma open_again_result:
  assumes "free_fds h = fd # rest" "path \<notin> h_dirs h" "h_files h path = Some F" "\<not> h_readonly h path"
  shows "open_again path h = ([Rd_data F], h\<lparr>h_fds := (h_fds h)(fd \<mapsto> path)\<rparr>)"
proof -
  have "lowest_fd h = Some fd" using assms(1) by (simp add: lowest_fd_def)
  with free_fds_take(2) [OF assms(1)] assms(3) show ?thesis
    by (simp add: open_again_def orig_open_file [OF _ assms(2-4)])
qed

text \<open>
  A file the hook can take over: readable and writable, its name good for a new segment, and
  three descriptors left, of which two will stay open.
\<close>

definition hookable :: "string \<Rightarrow> string \<Rightarrow> host \<Rightarrow> bool" where
  "hookable path F h \<longleftrightarrow>
     no_nul path \<and> path \<notin> h_dirs h \<and> h_files h path = Some F \<and> \<not> h_readonly h path \<and>
     length F \<le> map_size \<and> valid_shm_name (base_of path) \<and> \<not> shm_denied h (base_of path) \<and>
     \<not> sem_denied h \<and> \<not> trunc_denied h \<and> \<not> map_denied h \<and>
     3 \<le> length (free_fds h)"

text \<open>
  The appending in the copying loop reads past the array when it holds 1024 bytes without a
  NUL; it then depends on what lies behind.
\<close>

definition copyable :: "string \<Rightarrow> hook \<Rightarrow> bool" where
  "copyable F hk \<longleftrightarrow> length F < 1024 \<or> terminated (buf_tail hk)"

text \<open>What a segment holds after the copy of \<open>F\<close> into a new one.\<close>

definition holds_copy :: "string \<Rightarrow> segment \<Rightarrow> bool" where
  "holds_copy F seg \<longleftrightarrow>
     seg_size seg = map_size \<and>
     (\<forall>i. byte_at (seg_data seg) i = (if i < length F \<and> i mod 1024 \<noteq> 1023 then F ! i else NUL))"

lemma copy_into_new:
  assumes "length F \<le> map_size" "length F < 1024 \<or> terminated tail"
  shows "\<exists>seg. copy_loop tail (int (length F)) 0 [Rd_data F] 0 \<lparr>seg_data = [], seg_size = map_size\<rparr> =
     Some (Inr seg) \<and> holds_copy F seg"
proof -
  have "1024 * ((length F + 1023) div 1024) \<le> map_size"
    using assms by (simp add: map_size_def)
  then obtain seg where seg: "copy_loop tail (int (length F)) 0 [Rd_data F] 0 \<lparr>seg_data = [], seg_size = map_size\<rparr> =
       Some (Inr seg)" "seg_size seg = map_size"
      "\<forall>i. byte_at (seg_data seg) i =
        (if i div 1024 * 1024 < length F \<and> i mod 1024 \<noteq> 1023 then byte_at F i else byte_at [] i)"
    using copy_file [where n = 0 and rest = F and seg = "\<lparr>seg_data = [], seg_size = map_size\<rparr>" and tail = tail] assms
    by (auto simp: map_size_def)
  have "i div 1024 * 1024 \<le> i" for i :: nat by simp
  then have "i div 1024 * 1024 < length F" if "i < length F" for i using that le_less_trans by blast
  with seg show ?thesis by (auto simp: holds_copy_def byte_at_def)
qed

lemma set_map_result:
  assumes "hookable path F h" "shm_name hk = c_memset 1024" "shm h (base_of path) = None" "copyable F hk"
    and "free_fds h = fd1 # fd2 # fd3 # rest"
  shows "\<exists>hk' seg. set_map path hk h = Some (Inr (hk',
       h\<lparr>shm := (shm h)(base_of path \<mapsto> seg),
         sem_value := Some (Suc (case sem_value h of None \<Rightarrow> 0 | Some v \<Rightarrow> v)),
         h_files := (h_files h)(path \<mapsto> secret),
         h_fds := (h_fds h)(fd1 \<mapsto> ''/dev/shm'' @ base_of path, fd2 \<mapsto> path)\<rparr>)) \<and> holds_copy F seg"
proof -
  let ?b = "base_of path" and ?v = "case sem_value h of None \<Rightarrow> 0 | Some v \<Rightarrow> v"
  have f: "path \<notin> h_dirs h" "h_files h path = Some F" "\<not> h_readonly h path" "length F \<le> map_size"
      "no_nul path" "length ?b \<le> 255" and ok: "\<not> sem_denied h" "\<not> trunc_denied h" "\<not> map_denied h"
    using assms(1) by (auto simp: hookable_def valid_shm_name_def)
  let ?buf = "?b @ drop (length ?b) (c_memset 1024)"
  have name: "copy_name path (shm_name hk) = Inr ?buf" "c_read ?buf = Inr ?b"
    using assms(2) f(5,6) by (simp_all add: copy_name_def Let_def c_memset_def c_read_def cstr_no_nul_append)
  let ?h1 = "h\<lparr>h_fds := (h_fds h)(fd1 \<mapsto> ''/dev/shm'' @ ?b)\<rparr>"
  let ?h2 = "?h1\<lparr>shm := (shm h)(?b \<mapsto> \<lparr>seg_data = [], seg_size = 0\<rparr>), sem_value := Some ?v\<rparr>"
  have create: "shm_create ?b h = Some (?h1\<lparr>shm := (shm h)(?b \<mapsto> \<lparr>seg_data = [], seg_size = 0\<rparr>)\<rparr>)"
    using assms(1,3,5) by (simp add: shm_create_def hookable_def lowest_fd_def)
  have fds1: "free_fds ?h1 = fd2 # fd3 # rest" by (rule free_fds_take(1) [OF assms(5)])
  have fds2: "free_fds ?h2 = fd2 # fd3 # rest"
    using fds1 free_fds_cong [of ?h1 ?h2] by simp
  have again: "open_again path ?h2 = ([Rd_data F], ?h2\<lparr>h_fds := (h_fds ?h2)(fd2 \<mapsto> path)\<rparr>)"
    by (rule open_again_result [OF fds2]) (use f in auto)
  let ?h3 = "?h2\<lparr>h_fds := (h_fds ?h2)(fd2 \<mapsto> path)\<rparr>"
  have size: "get_file_size path ?h3 = int (length F)" using f(1,2) by (simp add: get_file_size_def)
  obtain seg where seg: "copy_loop (buf_tail hk) (int (length F)) 0 [Rd_data F] 0 \<lparr>seg_data = [], seg_size = map_size\<rparr> =
      Some (Inr seg)" "holds_copy F seg"
    using copy_into_new [OF f(4) assms(4) [unfolded copyable_def]] by blast
  have same: "seg\<lparr>seg_size := map_size\<rparr> = seg" using seg(2) by (simp add: holds_copy_def)
  let ?h4 = "?h3\<lparr>shm := (shm h)(?b \<mapsto> seg), sem_value := Some (Suc ?v)\<rparr>"
  have "free_fds ?h3 = fd3 # rest" by (rule free_fds_take(1) [OF fds2])
  then have "free_fds ?h4 = fd3 # rest" using free_fds_cong [of ?h3 ?h4] by simp
  then have "replace_file path ?h4 = ?h4\<lparr>h_files := (h_files ?h4)(path \<mapsto> secret)\<rparr>"
    by (rule replace_file_result) (use f in auto)
  with name create again size seg f(1,2) show ?thesis
    by (intro exI [of _ "hk\<lparr>shm_name := ?buf\<rparr>"] exI [of _ seg]) (simp add: set_map_def Let_def sem_create_def set_length_def map_view_def ok same)
qed

lemma send_link_result:
  assumes "no_nul path" "length path < 1024" "\<not> q_denied h t"
  shows "send_link path t h =
    (let q = (case queues h t of None \<Rightarrow> [] | Some q \<Rightarrow> q);
         msg = (c_long (get_file_size path h), path @ replicate (1024 - length path) NUL) in
     Inr (h\<lparr>queues := (queues h)(t \<mapsto> (if fst msg < 1 \<or> q_limit h \<le> length q then q else q @ [msg]))\<rparr>))"
proof -
  have "c_strcpy (c_memset 1024) (lit path) = Inr (path @ replicate (1024 - length path) NUL)"
    using assms(1,2) by (simp add: c_strcpy_room c_memset_def Suc_diff_Suc flip: replicate_Suc)
  then show ?thesis using assms(3)
    by (cases "queues h t")
      (auto simp: send_link_def msgget_def msgsnd_def Let_def get_file_size_def fun_upd_idem)
qed

section \<open>Opening a watched file\<close>

text \<open>
  What it takes for \<open>open\<close> to take a file over: the resolved path is short and watched, the
  file can be hooked, a fourth descriptor is free, the call does not truncate the file, no
  flag of the client refuses it, and the announcement finds an empty queue.
\<close>

definition takes_over :: "string \<Rightarrow> string \<Rightarrow> int \<Rightarrow> string \<Rightarrow> hook \<Rightarrow> host \<Rightarrow> bool" where
  "takes_over fp path flags F hk h \<longleftrightarrow>
     length path < 128 \<and> watched fp path \<and> hookable path F h \<and> shm_name hk = c_memset 1024 \<and> copyable F hk \<and>
     shm h (base_of path) = None \<and> 4 \<le> length (free_fds h) \<and> 0 < hd (free_fds h) \<and>
     \<not> (bit flags 9 \<and> flags mod 4 \<noteq> 0) \<and> fst (recv_keep_valie h) \<noteq> 0 \<and>
     \<not> q_denied h 1024 \<and> queues h 1024 = None \<and> 0 < q_limit h"

text \<open>An empty file is not announced.\<close>

definition opens_watched :: "string \<Rightarrow> string \<Rightarrow> int \<Rightarrow> string \<Rightarrow> hook \<Rightarrow> host \<Rightarrow> bool" where
  "opens_watched fp path flags F hk h \<longleftrightarrow> takes_over fp path flags F hk h \<and> F \<noteq> []"

lemma recv_keep_valie_queues:
  "\<exists>qs. snd (recv_keep_valie h) = h\<lparr>queues := qs\<rparr> \<and> (\<forall>t. t \<noteq> 1000 \<longrightarrow> qs t = queues h t)"
proof -
  have "\<exists>qs. h = h\<lparr>queues := qs\<rparr> \<and> (\<forall>t. t \<noteq> 1000 \<longrightarrow> qs t = queues h t)"
    by (rule exI [of _ "queues h"]) simp
  then show ?thesis
    by (auto simp: recv_keep_valie_def msgget_def msgrcv_def msgctl_rmid_def split: option.splits list.splits)
qed

text \<open>The kernel gives the client the segment, the semaphore and the mapping.\<close>

definition grants :: "string \<Rightarrow> host \<Rightarrow> bool" where
  "grants name h \<longleftrightarrow>
     \<not> shm_denied h name \<and> sem_value h \<noteq> None \<and> \<not> sem_denied h \<and> \<not> map_denied h"

lemma hook_open_takes:
  assumes "no_nul (realpath p)" "get_path conf (c_memset 200) = Inr fp"
    and "takes_over (cstr fp) (realpath p) flags F hk h"
  shows "\<exists>hk' h' seg msg. hook_open conf realpath p flags third hk h = Some (Inr (hd (free_fds h), hk', h')) \<and>
     queues h' 1024 = Some (if F = [] then [] else [(int (length F), msg)]) \<and> length msg = 1024 \<and> terminated msg \<and>
     cstr msg = realpath p \<and> shm h' (base_of (realpath p)) = Some seg \<and> holds_copy F seg \<and>
     grants (base_of (realpath p)) h' \<and> \<not> q_denied h' 1024 \<and> h_files h' = (h_files h)(realpath p \<mapsto> secret)"
proof -
  let ?path = "realpath p"
  note w = assms(3) [unfolded takes_over_def]
  have f: "?path \<notin> h_dirs h" "h_files h ?path = Some F" "\<not> h_readonly h ?path" "length F \<le> map_size"
    using w by (auto simp: hookable_def)
  have flags: "\<not> (bit flags 9 \<and> flags mod 4 \<noteq> 0)" using w by blast
  obtain fd1 fd2 fd3 fd4 rest where fds: "free_fds h = fd1 # fd2 # fd3 # fd4 # rest"
    using w by (auto simp: eval_nat_numeral Suc_le_length_iff)
  obtain qs where h1: "snd (recv_keep_valie h) = h\<lparr>queues := qs\<rparr>" "qs 1024 = None"
    using recv_keep_valie_queues [of h] w by force
  let ?h1 = "h\<lparr>queues := qs\<rparr>" let ?h2 = "?h1\<lparr>h_fds := (h_fds h)(fd1 \<mapsto> ?path)\<rparr>"
  have low: "lowest_fd ?h1 = Some fd1" using fds by (simp add: lowest_fd_def free_fds_def)
  have orig: "orig_open ?path flags ?h1 = (fd1, ?h2)"
    using orig_open_file [OF low, of ?path F flags] f flags by (simp add: if_not_P [OF flags])
  obtain buf where buf: "c_strcpy (c_memset 128) (lit ?path) = Inr buf" "cstr buf = ?path"
    using assms(1) w by (simp add: c_strcpy_room c_memset_def)
  let ?link = "?path @ replicate (1024 - length ?path) NUL"
  have link: "read_fd_link [] fd1 ?h2 = Inr ?link" "cstr ?link = ?path"
  proof -
    obtain b where "proc_fd_link fd1 = Inr b"
      by (simp add: proc_fd_link_def c_snprintf_def format_eval store_at_room c_memset_def)
    then show "read_fd_link [] fd1 ?h2 = Inr ?link" using w by (simp add: read_fd_link_def Let_def)
    show "cstr ?link = ?path" using assms(1) by (simp add: cstr_no_nul_append)
  qed
  have size: "get_file_size ?path ?h2 = int (length F)" using f(1,2) by (simp add: get_file_size_def)
  have long: "c_long (int (length F)) = int (length F)" using f(4) by (simp add: c_long_id map_size_def)
  let ?h3 = "?h2\<lparr>queues := qs(1024 \<mapsto> (if F = [] then [] else [(int (length F), ?link)]))\<rparr>"
  have send: "send_link ?path 1024 ?h2 = Inr ?h3"
    using send_link_result [of ?path ?h2 1024] assms(1) w h1(2) size long
    by (cases F) (simp_all add: Let_def)
  define hk1 where "hk1 = (if 0 \<le> third \<and> third \<le> 511 then hk\<lparr>per_flag := True\<rparr> else hk)"
  have fds3: "free_fds ?h3 = fd2 # fd3 # fd4 # rest"
    using free_fds_take(1) [OF fds, of ?path] free_fds_cong [of ?h3 "h\<lparr>h_fds := (h_fds h)(fd1 \<mapsto> ?path)\<rparr>"] by simp
  have hk: "hookable ?path F ?h3" using w fds3 by (simp add: hookable_def)
  have nm: "shm_name (hk1\<lparr>filename_path := fp\<rparr>) = c_memset 1024" using w by (simp add: hk1_def)
  have sh: "shm ?h3 (base_of ?path) = None" "copyable F (hk1\<lparr>filename_path := fp\<rparr>)"
    using w by (simp_all add: hk1_def copyable_def)
  obtain hk' seg where map: "set_map ?path (hk1\<lparr>filename_path := fp\<rparr>) ?h3 = Some (Inr (hk',
       ?h3\<lparr>shm := (shm ?h3)(base_of ?path \<mapsto> seg),
         sem_value := Some (Suc (case sem_value ?h3 of None \<Rightarrow> 0 | Some v \<Rightarrow> v)),
         h_files := (h_files ?h3)(?path \<mapsto> secret),
         h_fds := (h_fds ?h3)(fd2 \<mapsto> ''/dev/shm'' @ base_of ?path, fd3 \<mapsto> ?path)\<rparr>))"
    (is "_ = Some (Inr (hk', ?h4))") and seg: "holds_copy F seg"
    using set_map_result [OF hk nm sh fds3] by blast
  obtain a where recv: "recv_keep_valie h = (a, ?h1)" "a \<noteq> 0" using h1(1) w by (metis prod.collapse)
  have "hook_open conf realpath p flags third hk h = Some (Inr (fd1, hk', ?h4))"
    unfolding hook_open_def recv(1) hk1_def [symmetric]
    using recv(2) buf assms(2) orig link send map w fds by (simp add: Let_def)
  with seg assms(1) w fds show ?thesis
    by (intro exI [of _ hk'] exI [of _ ?h4] exI [of _ seg] exI [of _ ?link]) (simp add: cstr_no_nul_append grants_def hookable_def)
qed

lemma hook_open_result:
  assumes "no_nul (realpath p)" "get_path conf (c_memset 200) = Inr fp"
    and "opens_watched (cstr fp) (realpath p) flags F hk h"
  shows "\<exists>hk' h' seg msg. hook_open conf realpath p flags third hk h = Some (Inr (hd (free_fds h), hk', h')) \<and>
     queues h' 1024 = Some [(int (length F), msg)] \<and> length msg = 1024 \<and> terminated msg \<and>
     cstr msg = realpath p \<and> shm h' (base_of (realpath p)) = Some seg \<and> holds_copy F seg \<and>
     grants (base_of (realpath p)) h' \<and> \<not> q_denied h' 1024 \<and> h_files h' = (h_files h)(realpath p \<mapsto> secret)"
  using hook_open_takes [of realpath p conf fp flags F hk h third] assms by (auto simp: opens_watched_def)

section \<open>Closing a watched file\<close>

text \<open>
  What it takes for \<open>close\<close> to announce a file: the descriptor is one of a watched file that
  is not empty, no flag of the client refuses the call, and the queue is empty.
\<close>

definition closes_watched :: "string \<Rightarrow> string \<Rightarrow> int \<Rightarrow> string \<Rightarrow> host \<Rightarrow> bool" where
  "closes_watched fp path fd F h \<longleftrightarrow>
     2 < fd \<and> h_fds h fd = Some path \<and> length path < 1024 \<and> watched fp path \<and> path \<noteq> [] \<and> path \<notin> h_dirs h \<and>
     h_files h path = Some F \<and> F \<noteq> [] \<and> length F \<le> map_size \<and> fst (recv_keep_valie h) \<noteq> 0 \<and>
     \<not> q_denied h 1025 \<and> queues h 1025 = None \<and> 0 < q_limit h"

lemma hook_close_result:
  assumes "no_nul path" "get_path conf (filename_path hk) = Inr fp" "closes_watched (cstr fp) path fd F h"
  shows "\<exists>h' msg. hook_close conf fd hk h = Inr (None, hk\<lparr>filename_path := fp\<rparr>, h') \<and>
     queues h' 1025 = Some [(int (length F), msg)] \<and> length msg = 1024 \<and> terminated msg \<and> cstr msg = path \<and>
     \<not> q_denied h' 1025 \<and> h_files h' = h_files h \<and> h_dirs h' = h_dirs h \<and> h_readonly h' = h_readonly h"
proof -
  note w = assms(3) [unfolded closes_watched_def]
  obtain qs where h1: "snd (recv_keep_valie h) = h\<lparr>queues := qs\<rparr>" "qs 1025 = None"
    using recv_keep_valie_queues [of h] w by force
  obtain a where recv: "recv_keep_valie h = (a, h\<lparr>queues := qs\<rparr>)" "a \<noteq> 0"
    using h1(1) w by (metis prod.collapse)
  let ?link = "path @ replicate (1024 - length path) NUL"
  have "drop (length path) (''0'' @ replicate (1024 - length ''0'') NUL) = replicate (1024 - length path) NUL"
    using w by (cases path) simp_all
  moreover obtain b where "proc_fd_link fd = Inr b"
    by (simp add: proc_fd_link_def c_snprintf_def format_eval store_at_room c_memset_def)
  ultimately have link: "read_fd_link ''0'' fd (h\<lparr>queues := qs\<rparr>) = Inr ?link"
    using w by (simp add: read_fd_link_def Let_def)
  have path: "cstr ?link = path" using assms(1) by (simp add: cstr_no_nul_append)
  have size: "c_long (get_file_size path (h\<lparr>queues := qs\<rparr>)) = int (length F)"
    using w by (simp add: get_file_size_def c_long_id map_size_def)
  let ?h2 = "h\<lparr>queues := qs(1025 \<mapsto> [(int (length F), ?link)])\<rparr>"
  have send: "send_link path 1025 (h\<lparr>queues := qs\<rparr>) = Inr ?h2"
    using send_link_result [of path "h\<lparr>queues := qs\<rparr>" 1025] assms(1) w h1(2) size
    by (cases F) (simp_all add: Let_def)
  have "hook_close conf fd hk h = Inr (None, hk\<lparr>filename_path := fp\<rparr>, orig_close fd ?h2)"
    unfolding hook_close_def recv(1) prod.case using recv(2) link send path assms(2) w by (simp add: Let_def)
  with assms(1) w show ?thesis
    by (intro exI [of _ "orig_close fd ?h2"] exI [of _ ?link]) (simp add: orig_close_def path)
qed

section \<open>Properties\<close>

text \<open>
  C4. What opening a watched file does to it: in a process that has hooked no file before,
  \<open>set_map\<close> returns; the file's content is in the new segment except for the last of every
  1024 bytes, which are lost; the semaphore is raised; and the file holds the constant text
  instead, so the segment is the only copy. Two descriptors stay open.
\<close>

theorem hook_takes_file:
  assumes "hookable path F h" "shm_name hk = c_memset 1024" "shm h (base_of path) = None" "copyable F hk"
  shows "\<exists>hk' h' seg. set_map path hk h = Some (Inr (hk', h')) \<and>
           shm h' (base_of path) = Some seg \<and>
           (\<forall>i < length F. byte_at (seg_data seg) i = (if i mod 1024 = 1023 then NUL else F ! i)) \<and>
           (\<forall>i \<ge> length F. byte_at (seg_data seg) i = NUL) \<and>
           h_files h' = (h_files h)(path \<mapsto> ''It is a secret'') \<and> queues h' = queues h \<and>
           sem_value h' = Some (Suc (case sem_value h of None \<Rightarrow> 0 | Some v \<Rightarrow> v)) \<and>
           free_fds h' = drop 2 (free_fds h)"
proof -
  have "3 \<le> length (free_fds h)" using assms(1) by (simp add: hookable_def)
  then obtain fd1 fd2 fd3 rest where fds: "free_fds h = fd1 # fd2 # fd3 # rest"
    by (auto simp: eval_nat_numeral Suc_le_length_iff)
  obtain hk' seg where run: "set_map path hk h = Some (Inr (hk',
       h\<lparr>shm := (shm h)(base_of path \<mapsto> seg),
         sem_value := Some (Suc (case sem_value h of None \<Rightarrow> 0 | Some v \<Rightarrow> v)),
         h_files := (h_files h)(path \<mapsto> secret),
         h_fds := (h_fds h)(fd1 \<mapsto> ''/dev/shm'' @ base_of path, fd2 \<mapsto> path)\<rparr>))"
    (is "_ = Some (Inr (_, ?h'))") "holds_copy F seg"
    using set_map_result [OF assms fds] by blast
  note free_fds_take(1) [OF free_fds_take(1) [OF fds, of "''/dev/shm'' @ base_of path"], of path]
  then have "free_fds ?h' = drop 2 (free_fds h)"
    using free_fds_cong [of ?h' "h\<lparr>h_fds := (h_fds h)(fd1 \<mapsto> ''/dev/shm'' @ base_of path, fd2 \<mapsto> path)\<rparr>"] fds
    by simp
  with run show ?thesis
    by (intro exI [of _ hk'] exI [of _ ?h'] exI [of _ seg]) (simp add: holds_copy_def secret_def)
qed

definition sample_file_host :: host where
  "sample_file_host = sample_host\<lparr>h_files := [''/home/a.c'' \<mapsto> ''int x;'', ''/home/e'' \<mapsto> []]\<rparr>"

lemma sample_free: "free_fds sample_file_host = map int [0..<1024]"
  unfolding free_fds_def by (rule filter_True) (simp add: sample_file_host_def sample_host_def)

lemma sample_base: "base_of ''/home/a.c'' = ''/a.c''"
  by code_simp

lemma sample_hookable: "hookable ''/home/a.c'' ''int x;'' sample_file_host"
  using sample_base sample_free
  by (simp add: hookable_def) (simp add: sample_file_host_def sample_host_def map_size_def valid_shm_name_def)

lemma hook_takes_file_witness:
  "\<exists>hk' h' seg. set_map ''/home/a.c'' hook_start sample_file_host = Some (Inr (hk', h')) \<and>
     shm h' ''/a.c'' = Some seg \<and> byte_at (seg_data seg) 5 = CHR '';'' \<and>
     h_files h' ''/home/a.c'' = Some ''It is a secret''"
  using hook_takes_file [OF sample_hookable, of hook_start] sample_base
  by (auto simp: copyable_def hook_start_def sample_file_host_def sample_host_def)

lemma copy_loop_first:
  assumes "number \<noteq> 0"
    and "\<not> terminated (take 1024 F @ replicate (1024 - length F) NUL @ tail) \<or> seg_size seg = 0"
  shows "\<exists>e. copy_loop tail number 0 [Rd_data F] 0 seg = Some (Inl e)"
  using assms by (subst copy_loop.simps) (auto simp: readn_file Let_def seg_write_def)

text \<open>
  C27. The kernel's refusals, and a file that fills the array: when it gives no segment or no
  semaphore, \<open>set_map\<close> returns and the file is as it was, but when there is a segment its
  descriptor is lost; when it does not give the segment its length or does not map it, the
  process that opened the file crashes; and so it can when the file has 1024 bytes without a
  NUL, since the search for one goes past the array.
\<close>

theorem set_map_refused:
  assumes "no_nul path" "path \<notin> h_dirs h" "h_files h path = Some F" "\<not> h_readonly h path" "F \<noteq> []"
    and "valid_shm_name (base_of path)" "shm h (base_of path) = None" "shm_name hk = c_memset 1024"
    and "free_fds h = fd1 # fd2 # rest"
  shows "(shm_denied h (base_of path) \<longrightarrow>
       (\<exists>hk' h'. set_map path hk h = Some (Inr (hk', h')) \<and> h_files h' = h_files h \<and> shm h' = shm h \<and>
          free_fds h' = free_fds h)) \<and>
     (\<not> shm_denied h (base_of path) \<longrightarrow> sem_denied h \<longrightarrow>
       (\<exists>hk' h'. set_map path hk h = Some (Inr (hk', h')) \<and> h_files h' = h_files h \<and>
          shm h' (base_of path) = Some \<lparr>seg_data = [], seg_size = 0\<rparr> \<and> free_fds h' = fd2 # rest)) \<and>
     (\<not> shm_denied h (base_of path) \<longrightarrow> \<not> sem_denied h \<longrightarrow>
       trunc_denied h \<or> map_denied h \<or>
         1024 \<le> length F \<and> no_nul (take 1024 F) \<and> \<not> terminated (buf_tail hk) \<longrightarrow>
       (\<exists>e. set_map path hk h = Some (Inl e)))"
proof -
  let ?b = "base_of path"
  let ?buf = "?b @ drop (length ?b) (c_memset 1024)"
  have len: "length ?b \<le> 255" using assms(6) by (simp add: valid_shm_name_def)
  have name: "copy_name path (shm_name hk) = Inr ?buf" "c_read ?buf = Inr ?b"
    using assms(1,8) len by (simp_all add: copy_name_def Let_def c_memset_def c_read_def cstr_no_nul_append)
  let ?h1 = "h\<lparr>h_fds := (h_fds h)(fd1 \<mapsto> ''/dev/shm'' @ ?b), shm := (shm h)(?b \<mapsto> \<lparr>seg_data = [], seg_size = 0\<rparr>)\<rparr>"
  let ?h2 = "?h1\<lparr>sem_value := Some (case sem_value h of None \<Rightarrow> 0 | Some v \<Rightarrow> v)\<rparr>"
  have fds1: "free_fds ?h1 = fd2 # rest" "free_fds ?h2 = fd2 # rest"
    using free_fds_take(1) [OF assms(9), of "''/dev/shm'' @ ?b"]
      free_fds_cong [of ?h1 "h\<lparr>h_fds := (h_fds h)(fd1 \<mapsto> ''/dev/shm'' @ ?b)\<rparr>"]
      free_fds_cong [of ?h2 "h\<lparr>h_fds := (h_fds h)(fd1 \<mapsto> ''/dev/shm'' @ ?b)\<rparr>"] by simp_all
  show ?thesis
  proof (cases "shm_denied h ?b")
    case True
    then have "shm_create ?b h = None" by (simp add: shm_create_def)
    moreover have "free_fds (snd (sem_create h)) = free_fds h"
      by (rule free_fds_cong) (simp add: sem_create_def)
    ultimately show ?thesis using True name assms(2,3)
      by (simp add: set_map_def Let_def) (simp add: sem_create_def)
  next
    case given: False
    have create: "shm_create ?b h = Some ?h1"
      using given assms(6,7,9) by (simp add: shm_create_def lowest_fd_def Let_def)
    show ?thesis
    proof (cases "sem_denied h")
      case True
      then show ?thesis using given name create fds1(1) assms(2,3)
        by (simp add: set_map_def Let_def sem_create_def)
    next
      case False
      have again: "fst (open_again path ?h2) = [Rd_data F]"
        using open_again_result [OF fds1(2), of path F] assms(2-4) by simp
      have size: "get_file_size path (snd (open_again path ?h2)) = int (length F)"
        using open_again_result [OF fds1(2), of path F] assms(2-4) by (simp add: get_file_size_def)
      let ?seg = "map_view ?h2 (set_length ?h2 \<lparr>seg_data = [], seg_size = 0\<rparr>)"
      have "\<exists>e. copy_loop (buf_tail hk) (int (length F)) 0 [Rd_data F] 0 ?seg = Some (Inl e)"
        if "trunc_denied h \<or> map_denied h \<or> 1024 \<le> length F \<and> no_nul (take 1024 F) \<and> \<not> terminated (buf_tail hk)"
        using that assms(5)
        by (intro copy_loop_first) (auto simp: map_view_def set_length_def terminated_def no_nul_def)
      then show ?thesis using given False name create again size assms(2,3)
        by (auto simp: set_map_def Let_def sem_create_def)
    qed
  qed
qed

lemma set_map_refused_witness:
  "(\<exists>hk' h'. set_map ''/home/a.c'' hook_start (sample_file_host\<lparr>sem_denied := True\<rparr>) = Some (Inr (hk', h')) \<and>
      h_files h' ''/home/a.c'' = Some ''int x;'' \<and> shm h' ''/a.c'' = Some \<lparr>seg_data = [], seg_size = 0\<rparr>) \<and>
   (\<exists>e. set_map ''/home/a.c'' hook_start (sample_file_host\<lparr>map_denied := True\<rparr>) = Some (Inl e))"
proof -
  let ?a = "sample_file_host\<lparr>sem_denied := True\<rparr>" and ?b = "sample_file_host\<lparr>map_denied := True\<rparr>"
  have two: "map int [0..<n] = 0 # 1 # map int [2..<n]" if "2 \<le> n" for n
    using that by (simp add: upt_conv_Cons numeral_2_eq_2)
  have "(2 :: nat) \<le> 1024" by simp
  from two [OF this] have fds: "free_fds sample_file_host = 0 # 1 # map int [2..<1024]"
    by (simp only: sample_free)
  obtain rest where "free_fds sample_file_host = 0 # 1 # rest" by (rule that [OF fds])
  then have f: "free_fds ?a = 0 # 1 # rest" "free_fds ?b = 0 # 1 # rest" by (simp_all add: free_fds_def)
  have h: "no_nul ''/home/a.c''" "''/home/a.c'' \<notin> h_dirs ?a" "h_files ?a ''/home/a.c'' = Some ''int x;''"
      "\<not> h_readonly ?a ''/home/a.c''" "''int x;'' \<noteq> []" "valid_shm_name (base_of ''/home/a.c'')"
      "shm ?a (base_of ''/home/a.c'') = None" "shm_name hook_start = c_memset 1024"
      "''/home/a.c'' \<notin> h_dirs ?b" "h_files ?b ''/home/a.c'' = Some ''int x;''"
      "\<not> h_readonly ?b ''/home/a.c''" "shm ?b (base_of ''/home/a.c'') = None"
    using sample_base by (simp_all add: hook_start_def sample_file_host_def sample_host_def valid_shm_name_def)
  have d: "\<not> shm_denied ?a (base_of ''/home/a.c'')" "sem_denied ?a" "\<not> shm_denied ?b (base_of ''/home/a.c'')"
      "\<not> sem_denied ?b" "map_denied ?b" by (simp_all add: sample_file_host_def sample_host_def)
  from set_map_refused [OF h(1-8) f(1)] d(1,2) obtain hk' h' where
    a: "set_map ''/home/a.c'' hook_start ?a = Some (Inr (hk', h'))" "h_files h' = h_files ?a"
      "shm h' (base_of ''/home/a.c'') = Some \<lparr>seg_data = [], seg_size = 0\<rparr>"
    by blast
  have "\<exists>e. set_map ''/home/a.c'' hook_start ?b = Some (Inl e)"
    using set_map_refused [OF h(1,9,10,11,5,6,12,8) f(2)] d(3-5) by blast
  with a h(3) show ?thesis unfolding sample_base by auto
qed

text \<open>
  Announcing a file: a message with its size and path is queued if the queue has room; but
  the size is the message's type, so an empty or missing file is never announced, and in a
  full queue the announcement is dropped.
\<close>

lemma hook_announces:
  assumes "no_nul path" "length path < 1024" "\<not> q_denied h t" "queues h t = Some q"
    and "path \<notin> h_dirs h" "\<forall>F. h_files h path = Some F \<longrightarrow> int (length F) < 2 ^ 63"
  shows "\<exists>h'. send_link path t h = Inr h' \<and> h_files h' = h_files h \<and>
           (case h_files h path of
              Some (b # bs) \<Rightarrow>
                if length q < q_limit h
                then \<exists>text. queues h' t = Some (q @ [(int (length (b # bs)), text)]) \<and> cstr text = path
                else queues h' t = Some q
            | _ \<Rightarrow> queues h' t = Some q)"
proof (cases "h_files h path")
  case None
  then have "c_long (get_file_size path h) = - 1" using assms(5) by (simp add: get_file_size_def c_long_huge)
  with None assms show ?thesis by (simp add: send_link_result Let_def)
next
  case (Some F)
  then have "c_long (get_file_size path h) = int (length F)"
    using assms(5,6) by (simp add: get_file_size_def c_long_id)
  with Some assms show ?thesis
    by (cases F) (auto simp: send_link_result Let_def cstr_no_nul_append)
qed

lemma hook_announces_example:
  "\<exists>h'. send_link ''/home/e'' 1024 (sample_file_host\<lparr>queues := [1024 \<mapsto> []]\<rparr>) = Inr h' \<and>
     queues h' 1024 = Some []"
  using hook_announces [of "''/home/e''" "sample_file_host\<lparr>queues := [1024 \<mapsto> []]\<rparr>" 1024 "[]"]
  by (auto simp: sample_file_host_def sample_host_def)

text \<open>
  C28. The hooked \<open>open\<close> on every branch that does not take the file over: it refuses, touching
  nothing but the queue, when the oldest flag says that the server is gone; for a path
  outside the configured one it is the original \<open>open\<close> of the resolved path and touches
  nothing else; and when the original fails on a watched path it only reports that.
\<close>

theorem hook_open_transparent:
  assumes "no_nul (realpath p)" "length (realpath p) < 128" "get_path conf (c_memset 200) = Inr fp"
    and "recv_keep_valie h = (answer, h1)"
    and "orig_open (realpath p) flags h1 = (res, h2)"
    and "answer = 0 \<or> \<not> watched (cstr fp) (realpath p) \<or> res \<le> 0"
  shows "\<exists>hk'. hook_open conf realpath p flags third hk h =
           Some (Inr (if answer = 0 then (- 1, hk', h1) else (res, hk', h2))) \<and>
         shm_name hk' = shm_name hk \<and>
         h_files h1 = h_files h \<and> shm h1 = shm h \<and> h_fds h1 = h_fds h"
proof -
  have h1: "h_files h1 = h_files h" "shm h1 = shm h" "h_fds h1 = h_fds h"
    using assms(4)
    by (auto simp: recv_keep_valie_def msgget_def msgrcv_def msgctl_rmid_def
        split: if_splits option.splits list.splits)
  show ?thesis
  proof (cases "answer = 0")
    case True
    with assms(4) h1 show ?thesis by (intro exI [of _ hk]) (simp add: hook_open_def)
  next
    case False
    obtain rest where "c_strcpy (c_memset 128) (lit (realpath p)) = Inr (realpath p @ NUL # rest)"
      using assms(1,2) by (simp add: c_strcpy_room c_memset_def)
    with False assms h1 show ?thesis
      by (intro exI [of _ "(if 0 \<le> third \<and> third \<le> 511 then hk\<lparr>per_flag := True\<rparr> else hk)
            \<lparr>filename_path := fp\<rparr>"]) (auto simp: hook_open_def Let_def)
  qed
qed

lemma hook_open_transparent_witness:
  "\<exists>hk' h'. hook_open None (\<lambda>x. x) ''/home/a.c'' 0 0 hook_start (Send_keep_alive CHR ''0'' sample_file_host) =
     Some (Inr (- 1, hk', h')) \<and> shm_name hk' = c_memset 1024"
proof -
  let ?h = "Send_keep_alive CHR ''0'' sample_file_host"
  have "queues ?h 1000 = Some [(1, flag_text CHR ''0'')]" "\<not> q_denied ?h 1000"
    using keep_alive_result [of sample_file_host "CHR ''0''"]
    by (simp_all add: sample_file_host_def sample_host_def Let_def)
  from recv_first [OF this(2,1)] obtain h1 where r: "recv_keep_valie ?h = (0, h1)" by simp
  obtain res h2 where o: "orig_open ''/home/a.c'' 0 h1 = (res, h2)" by fastforce
  have g: "get_path None (c_memset 200) = Inr (c_memset 200)"
    by (simp add: get_path_def read_config_def cstr_Cons numeral_eq_Suc)
  show ?thesis
    using hook_open_transparent [where realpath = "\<lambda>x. x" and p = "''/home/a.c''" and hk = hook_start and third = 0, OF _ _ g r o]
    by (auto simp: hook_start_def)
qed

text \<open>
  With the configuration the repository ships nothing below \<open>/home\<close> is watched: the path
  the hook reads ends in a blank and a carriage return, all but the last character are
  compared, so only paths that go on with a blank match; and the client watches a directory
  whose name ends in that blank.
\<close>

lemma shipped_config_watches_nothing:
  "\<exists>fp cf. get_path (Some [Rd_data shipped_conf]) (c_memset 200) = Inr fp \<and>
     (\<forall>path. watched (cstr fp) path \<longleftrightarrow> take 7 path = ''/home/ '') \<and>
     \<not> watched (cstr fp) ''/home/user/notes.txt'' \<and>
     get_ip_addr (Some [Rd_data shipped_conf]) \<lparr>cf_ip = c_memset 32, cf_port = 0, cf_path = c_memset 256\<rparr> =
       Inr (Some cf) \<and>
     cstr (cf_ip cf) = ''127.0.0.1'' \<and> cf_port cf = 8888 \<and> cstr (cf_path cf) = ''/home/ ''"
proof -
  have "watched (''/home/ '' @ [CHR 0x0D]) path \<longleftrightarrow> take 7 path = ''/home/ ''" for path
    by (auto simp: watched_def strncmp_eq_def eval_nat_numeral)
  with shipped_config show ?thesis by auto
qed

section \<open>A machine to look at\<close>

definition sample_open_host :: host where
  "sample_open_host = sample_file_host\<lparr>h_fds := [0 \<mapsto> ''/dev/tty'']\<rparr>"

definition sample_conf :: "read_event list option" where
  "sample_conf = Some [Rd_data (''path:/home/'' @ [newline])]"

lemma sample_get_path:
  obtains fp where "get_path sample_conf (c_memset 200) = Inr fp" "cstr fp = ''/home/''"
proof -
  have "(case get_path sample_conf (c_memset 200) of Inr fp \<Rightarrow> cstr fp = ''/home/'' | _ \<Rightarrow> False)"
    by code_simp
  with that show thesis by (auto split: sum.splits)
qed

lemma sample_opens: "opens_watched ''/home/'' ''/home/a.c'' 0 ''int x;'' hook_start sample_open_host"
proof -
  have fds: "free_fds sample_open_host = map int [1..<1024]"
  proof -
    have "map int [0..<1024] = 0 # map int [1..<1024]" by (subst upt_conv_Cons) simp_all
    moreover have "filter (\<lambda>fd. h_fds sample_open_host fd = None) (map int [1..<1024]) = map int [1..<1024]"
      by (rule filter_True) (auto simp: sample_open_host_def sample_file_host_def sample_host_def)
    ultimately show ?thesis unfolding free_fds_def
      by (simp only: filter.simps) (simp add: sample_open_host_def)
  qed
  have len: "4 \<le> length (free_fds sample_open_host)"
    unfolding fds length_map length_upt by simp
  have hd: "hd (free_fds sample_open_host) = 1"
    unfolding fds by (subst upt_conv_Cons) simp_all
  have "hookable ''/home/a.c'' ''int x;'' sample_open_host"
    using sample_base len unfolding hookable_def
    by (simp add: sample_open_host_def sample_file_host_def sample_host_def map_size_def valid_shm_name_def)
  moreover have "fst (recv_keep_valie sample_open_host) = - 1"
    using recv_empty [of sample_open_host] by (simp add: sample_open_host_def sample_file_host_def sample_host_def)
  moreover have "watched ''/home/'' ''/home/a.c''" by code_simp
  moreover have "\<not> q_denied sample_open_host 1024" "queues sample_open_host 1024 = None" "0 < q_limit sample_open_host"
    "shm sample_open_host ''/a.c'' = None" "shm_name hook_start = c_memset 1024" "copyable ''int x;'' hook_start"
    by (simp_all add: copyable_def sample_open_host_def sample_file_host_def sample_host_def hook_start_def)
  ultimately show ?thesis using hd len sample_base by (simp add: opens_watched_def takes_over_def)
qed

end
