(* ===== verification/Client_Ip.thy ===== *)
theory Client_Ip
  imports C_Format
begin

text \<open>
  The address the client identifies itself with: the class \<open>IP\<close> of \<open>client/ip.hpp\<close>. What the
  kernel answers for each interface is an argument: whether its flags can be read, its
  hardware address and its protocol address, where it has one.
\<close>

section \<open>The class\<close>

record iface =
  if_flags_ok :: bool
  if_hwaddr :: "int list option"
  if_addr :: "string option"

record IP =
  real_mac :: string
  real_ip :: string

definition IP_new :: IP where
  "IP_new = \<lparr>real_mac = c_memset 20, real_ip = c_memset 30\<rparr>"

text \<open>The hardware address as text: six bytes in hexadecimal with colons.\<close>

definition mac_format :: string where
  "mac_format = ''%02x:%02x:%02x:%02x:%02x:%02x''"

definition read_mac :: "int list option \<Rightarrow> IP \<Rightarrow> IP res" where
  "read_mac hw ip =
     (case hw of
        None \<Rightarrow> Inr ip
      | Some bytes \<Rightarrow>
          bind_res (c_snprintf (c_memset 20) 20 mac_format (map PInt bytes)) (\<lambda>(_, mac).
            if cstr mac \<noteq> ''00:00:00:00:00:00''
            then bind_res (c_strcpy (real_mac ip) mac) (\<lambda>b. Inr (ip\<lparr>real_mac := b\<rparr>))
            else Inr ip))"

definition read_addr :: "string option \<Rightarrow> IP \<Rightarrow> IP res" where
  "read_addr addr ip =
     (case addr of
        None \<Rightarrow> Inr ip
      | Some a \<Rightarrow>
          bind_res (c_snprintf (c_memset 32) 32 ''%s'' [PStr a]) (\<lambda>(_, b).
            if cstr b \<noteq> ''127.0.0.1''
            then bind_res (c_strcpy (real_ip ip) b) (\<lambda>b'. Inr (ip\<lparr>real_ip := b'\<rparr>))
            else Inr ip))"

text \<open>The loop over the interfaces still to visit, in the order in which it visits them.\<close>

fun local_loop :: "iface list \<Rightarrow> IP \<Rightarrow> (int \<times> IP) res" where
  "local_loop [] ip = Inr (0, ip)"
| "local_loop (i # is) ip =
     (if \<not> if_flags_ok i then Inr (- 1, ip)
      else bind_res (read_mac (if_hwaddr i) ip) (\<lambda>ip1.
           bind_res (read_addr (if_addr i) ip1) (local_loop is)))"

text \<open>
  \<open>getLocalInfo\<close>: the socket may fail, and so may the listing (\<open>None\<close>), which the function
  takes for an empty one. At most 16 interfaces fit the array; it goes from the last down.
\<close>

definition getLocalInfo :: "bool \<Rightarrow> iface list option \<Rightarrow> IP \<Rightarrow> (int \<times> IP) res" where
  "getLocalInfo socket_ok listing ip =
     (if \<not> socket_ok then Inr (- 1, ip)
      else (case listing of
              None \<Rightarrow> Inr (0, ip)
            | Some ifs \<Rightarrow> local_loop (rev (take 16 ifs)) ip))"

section \<open>The text of an address\<close>

definition is_hwaddr :: "int list \<Rightarrow> bool" where
  "is_hwaddr bs \<longleftrightarrow> length bs = 6 \<and> (\<forall>b \<in> set bs. 0 \<le> b \<and> b < 256)"

definition mac_text :: "int list \<Rightarrow> string" where
  "mac_text bs =
     (let x = map (show_hex True 2) bs in
      x ! 0 @ '':'' @ x ! 1 @ '':'' @ x ! 2 @ '':'' @ x ! 3 @ '':'' @ x ! 4 @ '':'' @ x ! 5)"

lemma hwaddr_bytes:
  assumes "is_hwaddr bs"
  obtains a b c d e f where "bs = [a, b, c, d, e, f]"
    "\<forall>x \<in> {a, b, c, d, e, f}. 0 \<le> x \<and> x < 256"
proof -
  have "\<exists>a b c d e f. bs = [a, b, c, d, e, f]"
    using assms by (auto simp: is_hwaddr_def eval_nat_numeral length_Suc_conv)
  with assms that show ?thesis by (auto simp: is_hwaddr_def)
qed

lemma mac_format_result: "is_hwaddr bs \<Longrightarrow> c_format mac_format (map PInt bs) = Inr (mac_text bs)"
  by (erule hwaddr_bytes)
    (simp add: mac_format_def format_eval mac_text_def Let_def eval_nat_numeral)

lemma show_hex_byte:
  assumes "0 \<le> x" "x < 256"
  shows "length (show_hex True 2 x) = 2" "no_nul (show_hex True 2 x)"
proof -
  have "take_bit 32 x = x" using assms by (intro take_bit_int_eq_self) auto
  then have *: "show_hex True 2 x = zero_pad 2 (digits_of 16 (nat x))" by (simp add: show_hex_def)
  have n: "nat x < 256" using assms by simp
  have "length (digits_of 16 (nat x)) \<le> 2"
    using n by (subst digits_of.simps, subst digits_of.simps) (auto simp: div_less_iff_less_mult)
  then show "length (show_hex True 2 x) = 2" using * by simp
  have "no_nul (replicate k CHR ''0'')" for k by (auto simp: no_nul_def)
  then show "no_nul (show_hex True 2 x)" using * by (simp add: zero_pad_def)
qed

lemma mac_text_facts: "is_hwaddr bs \<Longrightarrow> length (mac_text bs) = 17 \<and> no_nul (mac_text bs)"
  by (erule hwaddr_bytes) (simp add: mac_text_def Let_def show_hex_byte)

lemma read_mac_result:
  assumes "is_hwaddr bs" "length (real_mac ip) = 20"
  shows "\<exists>ip'. read_mac (Some bs) ip = Inr ip' \<and> length (real_mac ip') = 20 \<and>
     length (real_ip ip') = length (real_ip ip) \<and>
     cstr (real_mac ip') =
       (if mac_text bs \<noteq> ''00:00:00:00:00:00'' then mac_text bs else cstr (real_mac ip))"
proof -
  have t: "length (mac_text bs) = 17" "no_nul (mac_text bs)" using mac_text_facts [OF assms(1)] by auto
  then have "c_snprintf (c_memset 20) 20 mac_format (map PInt bs) =
      Inr (17, mac_text bs @ NUL # replicate 2 NUL)"
    by (simp add: c_snprintf_def mac_format_result [OF assms(1)] store_at_room c_memset_def)
  then show ?thesis using t assms(2)
    by (auto simp: read_mac_def c_strcpy_room)
qed

lemma read_addr_result:
  assumes "case addr of None \<Rightarrow> True | Some a \<Rightarrow> no_nul a \<and> length a < 30" "length (real_ip ip) = 30"
  shows "\<exists>ip'. read_addr addr ip = Inr ip' \<and> real_mac ip' = real_mac ip \<and> length (real_ip ip') = 30"
proof (cases addr)
  case (Some a)
  then have "c_snprintf (c_memset 32) 32 ''%s'' [PStr a] = Inr (length a, a @ NUL # replicate (31 - length a) NUL)"
    using assms(1) by (simp add: c_snprintf_def format_eval store_at_room c_memset_def)
  then show ?thesis using Some assms by (auto simp: read_addr_def c_strcpy_room)
qed (use assms in \<open>simp add: read_addr_def\<close>)

text \<open>The address that is left: the last one visited that is not all zeros.\<close>

fun chosen_mac :: "iface list \<Rightarrow> string \<Rightarrow> string" where
  "chosen_mac [] m = m"
| "chosen_mac (i # is) m =
     (let m' = chosen_mac is m in
      case if_hwaddr i of
        None \<Rightarrow> m'
      | Some bs \<Rightarrow> (if mac_text bs \<noteq> ''00:00:00:00:00:00'' then mac_text bs else m'))"

definition wf_iface :: "iface \<Rightarrow> bool" where
  "wf_iface i \<longleftrightarrow>
     if_flags_ok i \<and> (case if_hwaddr i of None \<Rightarrow> True | Some bs \<Rightarrow> is_hwaddr bs) \<and>
     (case if_addr i of None \<Rightarrow> True | Some a \<Rightarrow> no_nul a \<and> length a < 30)"

lemma chosen_snoc:
  "chosen_mac (is @ [i]) m = chosen_mac is (chosen_mac [i] m)"
  by (induction "is") (auto simp: Let_def split: option.splits)

lemma local_loop_result:
  "\<forall>i \<in> set is. wf_iface i \<Longrightarrow> length (real_mac ip) = 20 \<Longrightarrow> length (real_ip ip) = 30 \<Longrightarrow>
     \<exists>ip'. local_loop (rev is) ip = Inr (0, ip') \<and> length (real_mac ip') = 20 \<and>
       cstr (real_mac ip') = chosen_mac is (cstr (real_mac ip))"
proof (induction "is" arbitrary: ip rule: rev_induct)
  case (snoc i "is")
  have "\<exists>ip1. read_mac (if_hwaddr i) ip = Inr ip1 \<and> length (real_mac ip1) = 20 \<and>
      length (real_ip ip1) = 30 \<and> cstr (real_mac ip1) = chosen_mac [i] (cstr (real_mac ip))"
    using snoc.prems read_mac_result [of _ ip]
    by (cases "if_hwaddr i") (auto simp: wf_iface_def read_mac_def)
  then obtain ip1 where ip1: "read_mac (if_hwaddr i) ip = Inr ip1" "length (real_mac ip1) = 20"
      "length (real_ip ip1) = 30" "cstr (real_mac ip1) = chosen_mac [i] (cstr (real_mac ip))"
    by blast
  obtain ip2 where ip2: "read_addr (if_addr i) ip1 = Inr ip2" "real_mac ip2 = real_mac ip1"
      "length (real_ip ip2) = 30"
    using read_addr_result [of "if_addr i" ip1] ip1(3) snoc.prems(1) by (auto simp: wf_iface_def)
  have "wf_iface i" using snoc.prems by simp
  with ip1 ip2 snoc.IH [of ip2] snoc.prems(1) show ?case
    by (auto simp: wf_iface_def chosen_snoc simp del: chosen_mac.simps)
qed simp

section \<open>Properties\<close>

text \<open>
  C31. The client's identity: when every interface answers, \<open>getLocalInfo\<close> succeeds and leaves
  the hardware address of the first of the first 16 interfaces whose address is not all
  zeros (or no address), as 17 characters, whether that interface is up or not.
\<close>

theorem client_mac:
  assumes "\<forall>i \<in> set ifs. wf_iface i"
  shows "\<exists>ip. getLocalInfo True (Some ifs) IP_new = Inr (0, ip) \<and> length (real_mac ip) = 20 \<and>
     cstr (real_mac ip) =
       (case find (\<lambda>i. \<exists>bs. if_hwaddr i = Some bs \<and> mac_text bs \<noteq> ''00:00:00:00:00:00'') (take 16 ifs) of
          None \<Rightarrow> []
        | Some i \<Rightarrow> mac_text (the (if_hwaddr i))) \<and>
     length (cstr (real_mac ip)) \<in> {0, 17}"
proof -
  let ?c = "\<lambda>is. (case find (\<lambda>i. \<exists>bs. if_hwaddr i = Some bs \<and> mac_text bs \<noteq> ''00:00:00:00:00:00'') is of
      None \<Rightarrow> [] | Some i \<Rightarrow> mac_text (the (if_hwaddr i)))"
  have c: "chosen_mac is [] = ?c is" for "is"
    by (induction "is") (auto split: option.splits)
  have ifs: "\<forall>i \<in> set (take 16 ifs). wf_iface i" using assms by (auto dest: in_set_takeD)
  obtain ip where "local_loop (rev (take 16 ifs)) IP_new = Inr (0, ip)" "length (real_mac ip) = 20"
      "cstr (real_mac ip) = chosen_mac (take 16 ifs) []"
    using local_loop_result [OF ifs, of IP_new] by (auto simp: IP_new_def c_memset_def)
  moreover have "length (chosen_mac is []) \<in> {0, 17}" if "\<forall>i \<in> set is. wf_iface i" for "is"
    using that
  proof (induction "is")
    case (Cons i "is")
    then show ?case
      by (auto simp: Let_def wf_iface_def mac_text_facts split: option.splits)
  qed simp
  ultimately show ?thesis using ifs c by (auto simp: getLocalInfo_def)
qed

lemma client_mac_witness:
  "\<exists>ip. getLocalInfo True (Some
      [\<lparr>if_flags_ok = True, if_hwaddr = Some [0, 0, 0, 0, 0, 0], if_addr = Some ''127.0.0.1''\<rparr>,
       \<lparr>if_flags_ok = True, if_hwaddr = Some [2, 66, 172, 17, 0, 255], if_addr = None\<rparr>,
       \<lparr>if_flags_ok = True, if_hwaddr = Some [1, 1, 1, 1, 1, 1], if_addr = None\<rparr>]) IP_new = Inr (0, ip) \<and>
     cstr (real_mac ip) = ''02:42:ac:11:00:ff''"
proof -
  have "mac_text [0, 0, 0, 0, 0, 0] = ''00:00:00:00:00:00''"
    "mac_text [2, 66, 172, 17, 0, 255] = ''02:42:ac:11:00:ff''"
    by code_simp+
  then show ?thesis
    using client_mac [of "[\<lparr>if_flags_ok = True, if_hwaddr = Some [0, 0, 0, 0, 0, 0], if_addr = Some ''127.0.0.1''\<rparr>,
       \<lparr>if_flags_ok = True, if_hwaddr = Some [2, 66, 172, 17, 0, 255], if_addr = None\<rparr>,
       \<lparr>if_flags_ok = True, if_hwaddr = Some [1, 1, 1, 1, 1, 1], if_addr = None\<rparr>]"]
    by (auto simp: wf_iface_def is_hwaddr_def)
qed

end
