(* ===== verification/Pieces.thy ===== *)
theory Pieces
  imports C_String
begin

text \<open>
  What is left of a file on its way: the hook's copy lacks the last of every 1024 bytes, the
  client cuts the copy into blocks that begin at multiples of 4095 and end at the first NUL.
  Since 4095 is one less than a multiple of 1024, block \<open>k\<close> begins where \<open>k\<close> bytes are left
  to a multiple of 1024, and so all but the first 1023 bytes of a large file are nearly lost.
\<close>

definition gap :: "nat \<Rightarrow> nat" where
  "gap k = (k + 1023) mod 1024"

definition piece :: "string \<Rightarrow> nat \<Rightarrow> string" where
  "piece F k = take (gap k) (drop (4095 * k) F)"

definition piece_count :: "string \<Rightarrow> nat" where
  "piece_count F = length F div 4096 + 1"

definition cut_blocks :: "string \<Rightarrow> (nat \<times> string) list" where
  "cut_blocks F = map (\<lambda>k. (4095 * k, piece F k)) [0..<piece_count F]"

section \<open>Lost bytes\<close>

lemma gap_bound: "gap k \<le> 1023"
  using mod_less_divisor [of 1024 "k + 1023"] unfolding gap_def by linarith

lemma lost_at_gap: "(4095 * k + gap k) mod 1024 = 1023"
proof -
  have "(4095 * k + gap k) mod 1024 = (4095 * k + (k + 1023)) mod 1024"
    unfolding gap_def by (rule mod_add_right_eq)
  also have "4095 * k + (k + 1023) = 1023 + 1024 * (4 * k)" by simp
  also have "\<dots> mod 1024 = 1023 mod 1024" by (rule mod_mult_self2)
  finally show ?thesis by simp
qed

lemma kept_before_gap:
  assumes "j < gap k"
  shows "(4095 * k + j) mod 1024 \<noteq> 1023"
proof
  assume "(4095 * k + j) mod 1024 = 1023"
  then have "(4095 * k + gap k) mod 1024 = (4095 * k + j) mod 1024" using lost_at_gap by simp
  then have "1024 dvd (4095 * k + gap k) - (4095 * k + j)" using assms by (simp add: mod_eq_dvd_iff_nat)
  then have "1024 dvd gap k - j" by simp
  with assms gap_bound [of k] show False by (auto dest: dvd_imp_le)
qed

lemma gap_small: "0 < k \<Longrightarrow> k \<le> 1024 \<Longrightarrow> gap k = k - 1"
proof -
  assume "0 < k" "k \<le> 1024"
  then have "k + 1023 = (k - 1) + 1024" "k - 1 < 1024" by simp_all
  then show ?thesis unfolding gap_def by (metis mod_add_self2 mod_less)
qed

lemma gap_zero [simp]: "gap 0 = 1023"
  by (simp add: gap_def)

section \<open>Pieces\<close>

lemma length_piece: "length (piece F k) = min (gap k) (length F - 4095 * k)"
  by (simp add: piece_def min.commute)

lemma length_piece_bound: "length (piece F k) \<le> 1023"
  using gap_bound [of k] by (simp add: length_piece)

lemma nth_piece: "j < length (piece F k) \<Longrightarrow> piece F k ! j = F ! (4095 * k + j)"
  unfolding piece_def by (subst nth_take) (auto intro!: nth_drop)

lemma no_nul_piece [simp]: "no_nul F \<Longrightarrow> no_nul (piece F k)"
  by (auto simp: piece_def no_nul_def dest!: in_set_takeD in_set_dropD)

lemma piece_block_of: "4095 * k \<le> length F \<Longrightarrow> block_of F (4095 * k, piece F k)"
  by (auto simp: block_of_def length_piece piece_def min_def)

lemma piece_start: "k < piece_count F \<Longrightarrow> 4095 * k \<le> length F"
proof -
  assume "k < piece_count F"
  then have "k \<le> length F div 4096" by (simp add: piece_count_def)
  then have "k * 4096 \<le> length F" by (simp add: less_eq_div_iff_mult_less_eq)
  then show ?thesis by simp
qed

lemma cut_blocks_of: "\<forall>b \<in> set (cut_blocks F). block_of F b"
  using piece_block_of piece_start by (auto simp: cut_blocks_def)

lemma cut_blocks_small: "length F < 1024 \<Longrightarrow> cut_blocks F = [(0, F)]"
  by (simp add: cut_blocks_def piece_count_def piece_def)

text \<open>A piece of a file that begins in it is empty only where the gap is.\<close>

lemma piece_empty: "0 < k \<Longrightarrow> k < piece_count F \<Longrightarrow> piece F k = [] \<longleftrightarrow> gap k = 0"
proof -
  assume k: "0 < k" "k < piece_count F"
  then have "k \<le> length F div 4096" by (simp add: piece_count_def)
  then have "k * 4096 \<le> length F" by (simp add: less_eq_div_iff_mult_less_eq)
  then have "4095 * k < length F" using k(1) by simp
  then show ?thesis by (simp add: piece_def)
qed

section \<open>The backup\<close>

text \<open>What the blocks leave of a file, over an older version.\<close>

definition remains :: "string \<Rightarrow> string \<Rightarrow> string" where
  "remains F old = splices NUL old (cut_blocks F)"

lemma remains_small: "length F < 1024 \<Longrightarrow> remains F old = F @ drop (length F) old"
  using splices_cover [of "cut_blocks F" F NUL old] cut_blocks_of [of F]
  by (simp add: remains_def cut_blocks_small covers_def)

text \<open>Any blocks that are the non-empty ones of \<open>F\<close>, in any order, leave the same.\<close>

lemma remains_any_order:
  assumes "set bs = {b \<in> set (cut_blocks F). snd b \<noteq> []}"
  shows "splices NUL old bs = remains F old"
  unfolding remains_def
  by (rule splices_same [where F = F]) (use assms cut_blocks_of in auto)

lemma covers_cut:
  "covers (cut_blocks F) i \<longleftrightarrow> (\<exists>k < piece_count F. 4095 * k \<le> i \<and> i < 4095 * k + length (piece F k))"
  by (auto simp: covers_def cut_blocks_def)

lemma remains_nth:
  "(\<forall>i < length (remains F old). remains F old ! i =
      (if covers (cut_blocks F) i then F ! i else if i < length old then old ! i else NUL)) \<and>
   (\<forall>i. covers (cut_blocks F) i \<longrightarrow> i < length (remains F old))"
  using splices_nth [OF cut_blocks_of [of F], of NUL old] unfolding remains_def by blast

end
