(* ===== verification/Client_Tasks.thy ===== *)
theory Client_Tasks
  imports Hook Client_Ip Server_Monitor Pieces
begin

text \<open>
  The client's tasks, class \<open>do_thing\<close> of \<open>client/main.hpp\<close>: taking an announced path from a
  queue (\<open>Send_img\<close>), sending a file's segment in blocks (\<open>Open_task\<close>, \<open>Get_shm\<close>,
  \<open>TransFile\<close>) and asking for a file back (\<open>Close_task\<close>). Local variables that are never set
  are arguments: the initial content of the message on the stack, of the array of blocks,
  of the padding, and the bytes behind a message in memory.
\<close>

section \<open>State\<close>

text \<open>The client's global segment name, the machine, and the streams it has sent.\<close>

record client =
  c_shm_name :: string
  c_host :: host
  c_config :: config

section \<open>Send_img\<close>

definition Send_img :: "int \<Rightarrow> data \<Rightarrow> client \<Rightarrow> (int \<times> data \<times> client) res" where
  "Send_img t open_file c =
     (case msgget t (c_host c) of (ok, h1) \<Rightarrow>
      case (if ok then msgrcv t h1 else None) of
        None \<Rightarrow> Inr (- 1, open_file, c\<lparr>c_host := h1\<rparr>)
      | Some ((mtype, mtext), h2) \<Rightarrow>
          bind_res (c_read mtext) (\<lambda>path.
          bind_res (client_copy_name path (c_shm_name c)) (\<lambda>name.
          let c' = c\<lparr>c_shm_name := name, c_host := h2\<rparr> in
          if path \<noteq> []
          then bind_res (c_strcpy (d_file_name open_file) mtext) (\<lambda>fname.
                 Inr (1, open_file\<lparr>d_file_name := fname, d_length := c_int mtype\<rparr>, c'))
          else Inr (0, open_file, c'))))"

section \<open>TransFile\<close>

text \<open>
  One block on a connection of its own. The mutex is local to the call and always free. The
  result is the stream the server gets, \<open>None\<close> when there is none; the outer \<open>None\<close> is the
  exit of the whole client when the configuration cannot be opened.
\<close>

definition TransFile ::
    "read_event list option \<Rightarrow> config \<Rightarrow> bool \<Rightarrow> string \<Rightarrow> data \<Rightarrow> string option option res" where
  "TransFile conf cf connected pad d =
     bind_res (get_ip_addr conf cf) (\<lambda>r. case r of
       None \<Rightarrow> Inr None
     | Some _ \<Rightarrow>
         if connected
         then bind_res (c_read (d_file_contents d)) (\<lambda>s.
                Inr (Some (if length s > 0 then Some (data_image pad d) else None)))
         else Inr (Some None))"

section \<open>Get_shm\<close>

text \<open>\<open>memmove\<close> from the mapping.\<close>

definition seg_read :: "nat \<Rightarrow> nat \<Rightarrow> segment \<Rightarrow> string res" where
  "seg_read off n seg =
     (if off + n > seg_size seg then Inl Out_of_bounds
      else Inr (map (byte_at (seg_data seg)) [off..<off + n]))"

definition percent :: nat where
  "percent = 4095"

text \<open>Filling block \<open>k\<close>: only some of its members are set.\<close>

definition fill_block :: "data \<Rightarrow> data \<Rightarrow> segment \<Rightarrow> nat \<Rightarrow> data res" where
  "fill_block blk open_file seg k =
     bind_res (c_strcpy (d_file_name blk) (d_file_name open_file)) (\<lambda>fname.
     bind_res (c_strcpy (d_mac blk) (d_mac open_file)) (\<lambda>mac.
     bind_res (c_strcpy (d_events blk) (d_events open_file)) (\<lambda>events.
     bind_res (seg_read (k * percent) 4095 seg) (\<lambda>bytes.
       let contents = bytes @ [NUL] in
       Inr (blk\<lparr>d_file_contents := contents, d_file_name := fname,
                  d_left := int (k * percent), d_mac := mac, d_length := d_length open_file,
                  d_events := events,
                  d_right := int (k * percent + length (cstr contents))\<rparr>)))))"

fun fill_blocks :: "(nat \<Rightarrow> data) \<Rightarrow> data \<Rightarrow> segment \<Rightarrow> nat list \<Rightarrow> data list res" where
  "fill_blocks garbage open_file seg [] = Inr []"
| "fill_blocks garbage open_file seg (k # ks) =
     bind_res (fill_block (garbage k) open_file seg k) (\<lambda>b.
     bind_res (fill_blocks garbage open_file seg ks) (\<lambda>bs. Inr (b # bs)))"

text \<open>
  The number of blocks is \<open>length / 4096 + 1\<close>. A negative length would make an array of no
  or negative size.
\<close>

definition block_count :: "int \<Rightarrow> int" where
  "block_count len = len sdiv 4096 + 1"

text \<open>\<open>shm_open\<close> and \<open>sem_open\<close> of what is already there.\<close>

definition shm_open_rdwr :: "string \<Rightarrow> host \<Rightarrow> segment option" where
  "shm_open_rdwr name h = (if \<not> valid_shm_name name \<or> shm_denied h name then None else shm h name)"

definition sem_open :: "host \<Rightarrow> nat option" where
  "sem_open h = (if sem_denied h then None else sem_value h)"

text \<open>
  \<open>Get_shm\<close> up to starting the threads: the blocks, or \<open>None\<close> when the segment or the
  semaphore cannot be opened; a mapping that fails is read all the same. The second part joins the threads and removes the segment.
\<close>

definition get_blocks :: "(nat \<Rightarrow> data) \<Rightarrow> data \<Rightarrow> client \<Rightarrow> data list option res" where
  "get_blocks garbage open_file c =
     bind_res (c_read (c_shm_name c)) (\<lambda>name.
     case (shm_open_rdwr name (c_host c), sem_open (c_host c)) of
       (Some seg, Some _) \<Rightarrow>
         (if seg_size seg = 0 \<or> map_denied (c_host c) \<or> block_count (d_length open_file) < 1 then Inl Out_of_bounds
          else bind_res (fill_blocks garbage open_file seg [0..<nat (block_count (d_length open_file))])
                 (\<lambda>bs. Inr (Some bs)))
     | _ \<Rightarrow> Inr None)"

definition drop_segment :: "client \<Rightarrow> client" where
  "drop_segment c =
     c\<lparr>c_host := (c_host c)\<lparr>sem_value := map_option Suc (sem_value (c_host c)),
                           shm := (shm (c_host c))(cstr (c_shm_name c) := None)\<rparr>\<rparr>"

fun trans_all ::
    "read_event list option \<Rightarrow> config \<Rightarrow> (nat \<Rightarrow> bool) \<Rightarrow> (nat \<Rightarrow> string) \<Rightarrow> nat \<Rightarrow> data list \<Rightarrow>
     string list option res" where
  "trans_all conf cf connected pad k [] = Inr (Some [])"
| "trans_all conf cf connected pad k (d # ds) =
     bind_res (TransFile conf cf (connected k) (pad k) d) (\<lambda>r. case r of
       None \<Rightarrow> Inr None
     | Some s \<Rightarrow>
         bind_res (trans_all conf cf connected pad (Suc k) ds) (\<lambda>r'. case r' of
           None \<Rightarrow> Inr None
         | Some ss \<Rightarrow> Inr (Some (case s of None \<Rightarrow> ss | Some bs \<Rightarrow> bs # ss))))"

text \<open>The streams sent are those of the threads; they run in any order.\<close>

definition Get_shm ::
    "read_event list option \<Rightarrow> (nat \<Rightarrow> bool) \<Rightarrow> (nat \<Rightarrow> string) \<Rightarrow> (nat \<Rightarrow> data) \<Rightarrow> data \<Rightarrow> client \<Rightarrow>
     (string list \<times> client) option res" where
  "Get_shm conf connected pad garbage open_file c =
     bind_res (get_blocks garbage open_file c) (\<lambda>r. case r of
       None \<Rightarrow> Inr (Some ([], c))
     | Some bs \<Rightarrow>
         bind_res (trans_all conf (c_config c) connected pad 0 bs) (\<lambda>r'. case r' of
           None \<Rightarrow> Inr None
         | Some streams \<Rightarrow> Inr (Some (streams, drop_segment c))))"

section \<open>Open_task and Close_task\<close>

definition local_mac :: "bool \<Rightarrow> iface list option \<Rightarrow> string res" where
  "local_mac socket_ok ifs =
     bind_res (getLocalInfo socket_ok ifs IP_new) (\<lambda>(_, real). Inr (real_mac real))"

definition Open_task ::
    "read_event list option \<Rightarrow> (nat \<Rightarrow> bool) \<Rightarrow> (nat \<Rightarrow> string) \<Rightarrow> (nat \<Rightarrow> data) \<Rightarrow> bool \<Rightarrow> iface list option \<Rightarrow>
     data \<Rightarrow> string \<Rightarrow> client \<Rightarrow> (string list \<times> client) option res" where
  "Open_task conf connected pad garbage socket_ok ifs stack buffer c =
     bind_res (c_strcpy (d_events stack) buffer) (\<lambda>events.
     bind_res (Send_img 1024 (stack\<lparr>d_sign := 0, d_events := events\<rparr>) c) (\<lambda>(r, open_file, c1).
     if r = 1
     then bind_res (local_mac socket_ok ifs) (\<lambda>real_mac.
          bind_res (c_strcpy (d_mac open_file) real_mac) (\<lambda>mac.
            Get_shm conf connected pad garbage (open_file\<lparr>d_mac := mac\<rparr>) c1))
     else Inr (Some ([], c1))))"

text \<open>
  \<open>Close_task\<close> sends \<open>sizeof(struct recv_data)\<close> bytes from a \<open>struct data\<close>: the image and the
  bytes behind it on the stack.
\<close>

definition Close_task ::
    "string \<Rightarrow> string \<Rightarrow> bool \<Rightarrow> iface list option \<Rightarrow> data \<Rightarrow> string \<Rightarrow> client \<Rightarrow>
     (string option \<times> client) res" where
  "Close_task pad behind socket_ok ifs stack buffer c =
     bind_res (c_strcpy (d_events stack) buffer) (\<lambda>events.
     bind_res (Send_img 1025 (stack\<lparr>d_sign := 1, d_events := events\<rparr>) c) (\<lambda>(r, close_file, c1).
     if r = 1
     then bind_res (local_mac socket_ok ifs) (\<lambda>real_mac.
          bind_res (c_strcpy (d_mac close_file) real_mac) (\<lambda>mac.
            Inr (Some (take sizeof_recv_data (data_image pad (close_file\<lparr>d_mac := mac\<rparr>) @ behind)), c1)))
     else Inr (None, c1)))"

section \<open>What the blocks hold\<close>

definition window :: "segment \<Rightarrow> nat \<Rightarrow> string" where
  "window seg k = map (byte_at (seg_data seg)) [k * percent..<k * percent + 4095]"

lemma length_window [simp]: "length (window seg k) = 4095"
  by (simp add: window_def)

text \<open>The strings of a message under construction fit the arrays they are copied to.\<close>

definition sendable :: "data \<Rightarrow> bool" where
  "sendable d \<longleftrightarrow>
     length (d_mac d) = 18 \<and> terminated (d_mac d) \<and> length (d_file_name d) = 256 \<and>
     terminated (d_file_name d) \<and> length (d_events d) = 256 \<and> terminated (d_events d) \<and>
     is_int (d_length d)"

definition block_of_window :: "data \<Rightarrow> data \<Rightarrow> segment \<Rightarrow> nat \<Rightarrow> data \<Rightarrow> bool" where
  "block_of_window garbage open_file seg k b \<longleftrightarrow>
     d_left b = int (k * 4095) \<and> d_right b = int (k * 4095 + length (cstr (window seg k @ [NUL]))) \<and>
     d_file_contents b = window seg k @ [NUL] \<and> d_sign b = d_sign garbage \<and>
     d_count b = d_count garbage \<and> d_length b = d_length open_file \<and>
     cstr (d_mac b) = cstr (d_mac open_file) \<and> terminated (d_mac b) \<and>
     cstr (d_file_name b) = cstr (d_file_name open_file) \<and> terminated (d_file_name b) \<and>
     cstr (d_events b) = cstr (d_events open_file) \<and> terminated (d_events b) \<and>
     length (d_mac b) = 18 \<and> length (d_file_name b) = 256 \<and> length (d_events b) = 256"

lemma c_strcpy_fits:
  assumes "terminated src" "length src \<le> length dst"
  shows "\<exists>b. c_strcpy dst src = Inr b \<and> terminated b \<and> cstr b = cstr src \<and> length b = length dst"
proof -
  have "length (cstr src) < length dst" using cstr_length_less [OF assms(1)] assms(2) by simp
  then obtain b where b: "c_strcpy dst src = Inr b" using c_strcpy_room [OF assms(1)] by blast
  with c_strcpy_string [OF b] c_strcpy_length [OF b] show ?thesis by simp
qed

lemma fill_block_result:
  assumes "wf_data garbage" "sendable open_file" "k * 4095 + 4095 \<le> seg_size seg"
  shows "\<exists>b. fill_block garbage open_file seg k = Inr b \<and> block_of_window garbage open_file seg k b"
proof -
  obtain f m e where f: "c_strcpy (d_file_name garbage) (d_file_name open_file) = Inr f" "terminated f"
      "cstr f = cstr (d_file_name open_file)" "length f = 256"
    and m: "c_strcpy (d_mac garbage) (d_mac open_file) = Inr m" "terminated m"
      "cstr m = cstr (d_mac open_file)" "length m = 18"
    and e: "c_strcpy (d_events garbage) (d_events open_file) = Inr e" "terminated e"
      "cstr e = cstr (d_events open_file)" "length e = 256"
    using c_strcpy_fits [of "d_file_name open_file" "d_file_name garbage"]
      c_strcpy_fits [of "d_mac open_file" "d_mac garbage"]
      c_strcpy_fits [of "d_events open_file" "d_events garbage"] assms(1,2)
    by (auto simp: wf_data_def sendable_def)
  have "seg_read (k * percent) 4095 seg = Inr (window seg k)"
    using assms(3) by (simp add: seg_read_def window_def percent_def)
  with f m e show ?thesis
    by (simp add: fill_block_def Let_def block_of_window_def percent_def)
qed

lemma fill_blocks_result:
  assumes "\<forall>k \<in> set ks. wf_data (garbage k)" "sendable open_file"
    "\<forall>k \<in> set ks. k * 4095 + 4095 \<le> seg_size seg"
  shows "\<exists>bs. fill_blocks garbage open_file seg ks = Inr bs \<and>
     list_all2 (\<lambda>k b. block_of_window (garbage k) open_file seg k b) ks bs"
  using assms
proof (induction ks)
  case (Cons k ks)
  with fill_block_result [of "garbage k" open_file k seg] show ?case by fastforce
qed simp

lemma block_count_nat: "0 \<le> len \<Longrightarrow> nat (block_count len) = nat len div 4096 + 1"
  by (cases "len = 0") (simp_all add: block_count_def signed_divide_int_def nat_div_distrib nat_add_distrib)

lemma c_int_range: "is_int (c_int x)"
  using signed_take_bit_int_greater_eq_minus_exp [of 31 x] signed_take_bit_int_less_exp [of 31 x]
  unfolding is_int_def c_int_def by blast

section \<open>Taking an announcement\<close>

lemma Send_img_result:
  assumes "\<not> q_denied (c_host c) t" "queues (c_host c) t = Some ((len, text) # q)"
    and "length text = 1024" "terminated text" "cstr text \<noteq> []" "length (cstr text) < 256"
    and "length (c_shm_name c) = 256" "length (d_file_name d) = 256"
  shows "\<exists>d' name. Send_img t d c = Inr (1, d', c\<lparr>c_shm_name := name,
        c_host := (c_host c)\<lparr>queues := (queues (c_host c))(t \<mapsto> q)\<rparr>\<rparr>) \<and>
     client_copy_name (cstr text) (c_shm_name c) = Inr name \<and>
     d' = d\<lparr>d_file_name := d_file_name d', d_length := c_int len\<rparr> \<and>
     cstr (d_file_name d') = cstr text \<and> terminated (d_file_name d') \<and> length (d_file_name d') = 256"
proof -
  have "length (base_of (cstr text)) \<le> 256" using length_base_of [of "cstr text"] assms(6) by simp
  then obtain name where name: "client_copy_name (cstr text) (c_shm_name c) = Inr name"
    using copy_name_result [of "cstr text" "c_shm_name c"] assms(7) by (auto simp: client_copy_name_def)
  have "c_strcpy (d_file_name d) text = Inr (cstr text @ NUL # drop (Suc (length (cstr text))) (d_file_name d))"
    using assms(4,6,8) by (simp add: c_strcpy_room)
  then show ?thesis using assms name
    by (simp add: Send_img_def msgget_def msgrcv_def Let_def)
qed

section \<open>All blocks\<close>

lemmas open_simps = grants_def shm_open_rdwr_def sem_open_def

lemma get_blocks_result:
  assumes "c_read (c_shm_name c) = Inr name" "valid_shm_name name" "shm (c_host c) name = Some seg"
    and "grants name (c_host c)" "sendable open_file" "0 \<le> d_length open_file"
    and "\<forall>k. wf_data (garbage k)"
    and "(nat (d_length open_file) div 4096 + 1) * 4095 \<le> seg_size seg"
  shows "\<exists>bs. get_blocks garbage open_file c = Inr (Some bs) \<and>
     length bs = nat (d_length open_file) div 4096 + 1 \<and>
     (\<forall>k < length bs. block_of_window (garbage k) open_file seg k (bs ! k))"
proof -
  let ?n = "nat (d_length open_file) div 4096 + 1"
  have fit: "k * 4095 + 4095 \<le> seg_size seg" if "k < ?n" for k
  proof -
    have "(k + 1) * 4095 \<le> ?n * 4095" using that by (intro mult_le_mono1) simp
    with assms(8) show ?thesis by simp
  qed
  obtain bs where bs: "fill_blocks garbage open_file seg [0..<?n] = Inr bs"
      "list_all2 (\<lambda>k b. block_of_window (garbage k) open_file seg k b) [0..<?n] bs"
    using fill_blocks_result [of "[0..<?n]" garbage open_file seg] assms(5,7) fit by auto
  have pos: "\<not> block_count (d_length open_file) < 1" "seg_size seg \<noteq> 0"
    using block_count_nat [OF assms(6)] assms(8) by auto
  have "get_blocks garbage open_file c = Inr (Some bs)"
    using assms(1-4) bs(1) pos block_count_nat [OF assms(6)] by (auto simp: get_blocks_def open_simps)
  moreover have "length bs = ?n" using list_all2_lengthD [OF bs(2)] by simp
  moreover have "block_of_window (garbage k) open_file seg k (bs ! k)" if "k < length bs" for k
    using list_all2_nthD2 [OF bs(2) that] \<open>length bs = ?n\<close> that by (simp del: upt_Suc)
  ultimately show ?thesis by auto
qed

section \<open>Properties\<close>

text \<open>
  C9. How a file is cut: block \<open>k\<close> of the \<open>length / 4096 + 1\<close> blocks starts at \<open>4095 k\<close>, takes
  the 4095 bytes from there and ends, by its own account, at the first NUL among them; its
  sign, which tells the server what to do, is whatever was on the stack. The windows reach the
  end of the file exactly if \<open>length mod 4096 + length div 4096 \<le> 4095\<close>.
\<close>

theorem segment_cut_into_blocks:
  assumes "c_read (c_shm_name c) = Inr name" "valid_shm_name name" "shm (c_host c) name = Some seg"
    and "grants name (c_host c)" "sendable open_file" "0 \<le> d_length open_file"
    and "\<forall>k. wf_data (garbage k)"
    and "(nat (d_length open_file) div 4096 + 1) * 4095 \<le> seg_size seg"
  shows "\<exists>bs. get_blocks garbage open_file c = Inr (Some bs) \<and>
     length bs = nat (d_length open_file) div 4096 + 1 \<and>
     (\<forall>k < length bs. block_of_window (garbage k) open_file seg k (bs ! k)) \<and>
     (nat (d_length open_file) \<le> length bs * 4095 \<longleftrightarrow>
        nat (d_length open_file) mod 4096 + nat (d_length open_file) div 4096 \<le> 4095)"
proof -
  let ?L = "nat (d_length open_file)"
  have "?L \<le> (?L div 4096 + 1) * 4095 \<longleftrightarrow> ?L mod 4096 + ?L div 4096 \<le> 4095"
    using div_mult_mod_eq [of ?L 4096] by (simp only: distrib_right) linarith
  with get_blocks_result [OF assms] show ?thesis by metis
qed

definition sample_open :: data where
  "sample_open =
     \<lparr>d_left = 0, d_right = 0, d_count = 0, d_sign = 0, d_mac = c_memset 18,
      d_file_name = c_memset 256, d_length = 8191, d_file_contents = c_memset 4096,
      d_events = c_memset 256\<rparr>"

definition sample_client :: client where
  "sample_client =
     \<lparr>c_shm_name = ''/f'' @ replicate 254 NUL,
      c_host = sample_host\<lparr>shm := [''/f'' \<mapsto> \<lparr>seg_data = ''ab'', seg_size = map_size\<rparr>], sem_value := Some 1\<rparr>,
      c_config = \<lparr>cf_ip = c_memset 32, cf_port = 0, cf_path = c_memset 256\<rparr>\<rparr>"

lemma sample_open_ok: "sendable sample_open" "wf_data sample_open"
  by (simp_all add: sendable_def wf_data_def sample_open_def c_memset_def is_int_def is_long_def)

lemma segment_cut_into_blocks_witness:
  "\<exists>bs. get_blocks (\<lambda>_. sample_open) sample_open sample_client = Inr (Some bs) \<and> length bs = 2 \<and>
     d_left (bs ! 1) = 4095 \<and> \<not> 8191 \<le> length bs * 4095"
proof -
  have name: "c_read (c_shm_name sample_client) = Inr ''/f''" "valid_shm_name ''/f''"
    "shm (c_host sample_client) ''/f'' = Some \<lparr>seg_data = ''ab'', seg_size = map_size\<rparr>"
    "grants ''/f'' (c_host sample_client)"
    by (simp_all add: sample_client_def c_read_def cstr_Cons valid_shm_name_def grants_def sample_host_def)
  have len: "d_length sample_open = 8191" by (simp add: sample_open_def)
  show ?thesis
    using segment_cut_into_blocks [OF name sample_open_ok(1), of "\<lambda>_. sample_open"] sample_open_ok(2)
    by (auto simp: len map_size_def block_of_window_def)
qed

section \<open>The request to have a file back\<close>

lemma wf_after_img:
  assumes "Send_img t d c = Inr (r, d', c')" "wf_data d"
  shows "wf_data d' \<and> d_sign d' = d_sign d"
  using assms c_int_range
  by (auto simp: Send_img_def bind_res_eq_Inr Let_def wf_data_def dest: c_strcpy_length
      split: if_splits option.splits prod.splits)

lemma Close_task_stream:
  assumes "Close_task pad behind socket_ok ifs stack buffer c = Inr (Some s, c')" "wf_data stack"
  shows "\<exists>d. wf_data d \<and> d_sign d = 1 \<and> s = take sizeof_recv_data (data_image pad d @ behind)"
proof -
  obtain events close_file c1 mac m where e: "c_strcpy (d_events stack) buffer = Inr events"
    "Send_img 1025 (stack\<lparr>d_sign := 1, d_events := events\<rparr>) c = Inr (1, close_file, c1)"
    "c_strcpy (d_mac close_file) mac = Inr m"
    "s = take sizeof_recv_data (data_image pad (close_file\<lparr>d_mac := m\<rparr>) @ behind)"
    using assms(1) by (auto simp: Close_task_def bind_res_eq_Inr split: if_splits)
  have "wf_data (stack\<lparr>d_sign := 1, d_events := events\<rparr>)"
    using assms(2) c_strcpy_length [OF e(1)] by (simp add: wf_data_def is_int_def)
  with wf_after_img [OF e(2)] c_strcpy_length [OF e(3)] e(4) show ?thesis
    by (intro exI [of _ "close_file\<lparr>d_mac := m\<rparr>"]) (auto simp: wf_data_def)
qed

text \<open>A client whose request can go through: its own strings and address fit their arrays.\<close>

definition request_ready :: "bool \<Rightarrow> iface list option \<Rightarrow> data \<Rightarrow> string \<Rightarrow> string \<Rightarrow> client \<Rightarrow> bool" where
  "request_ready socket_ok ifs stack buffer mac c \<longleftrightarrow>
     length (c_shm_name c) = 256 \<and> wf_data stack \<and> terminated buffer \<and> length buffer \<le> 256 \<and>
     local_mac socket_ok ifs = Inr mac \<and> terminated mac \<and> length (cstr mac) < 18"

lemma close_task_result:
  assumes "queues (c_host c) 1025 = Some ((len, msg) # q)" "\<not> q_denied (c_host c) 1025"
    and "length msg = 1024" "terminated msg" "length (cstr msg) < 256" "cstr msg \<noteq> []"
    and "request_ready socket_ok ifs stack buffer mac c"
  shows "\<exists>d c'. Close_task pad behind socket_ok ifs stack buffer c =
       Inr (Some (take sizeof_recv_data (data_image pad d @ behind)), c') \<and>
     wf_data d \<and> d_sign d = 1 \<and> cstr (d_mac d) = cstr mac \<and> cstr (d_file_name d) = cstr msg \<and>
     terminated (d_mac d) \<and> terminated (d_file_name d) \<and> terminated (d_events d) \<and>
     c_host c' = (c_host c)\<lparr>queues := (queues (c_host c))(1025 \<mapsto> q)\<rparr>"
proof -
  note ready = assms(7) [unfolded request_ready_def]
  obtain ev where ev: "c_strcpy (d_events stack) buffer = Inr ev" "terminated ev" "length ev = 256"
    using c_strcpy_fits [of buffer "d_events stack"] ready by (auto simp: wf_data_def)
  let ?stack = "stack\<lparr>d_sign := 1, d_events := ev\<rparr>"
  obtain d name where img: "Send_img 1025 ?stack c = Inr (1, d, c\<lparr>c_shm_name := name,
       c_host := (c_host c)\<lparr>queues := (queues (c_host c))(1025 \<mapsto> q)\<rparr>\<rparr>)"
    and d: "d = ?stack\<lparr>d_file_name := d_file_name d, d_length := c_int len\<rparr>"
      "cstr (d_file_name d) = cstr msg" "terminated (d_file_name d)"
    using Send_img_result [OF assms(2,1,3,4,6,5), of ?stack] ready by (auto simp: wf_data_def)
  have stack: "wf_data ?stack" using ready ev(3) by (simp add: wf_data_def is_int_def)
  have wf: "wf_data d" "d_sign d = 1" using wf_after_img [OF img stack] by simp_all
  have events: "d_events d = ev" using arg_cong [OF d(1), of d_events] by simp
  obtain m where m: "c_strcpy (d_mac d) mac = Inr m" "terminated m" "cstr m = cstr mac" "length m = 18"
    using c_strcpy_room [of mac "d_mac d"] ready wf(1)
    by (auto simp: wf_data_def dest: c_strcpy_string c_strcpy_length)
  have "wf_data (d\<lparr>d_mac := m\<rparr>)" using wf(1) m(4) by (simp add: wf_data_def)
  with ev img m d(2,3) wf(2) events ready show ?thesis
    by (intro exI [of _ "d\<lparr>d_mac := m\<rparr>"]) (simp add: Close_task_def)
qed


definition sample_closing :: client where
  "sample_closing = sample_client\<lparr>c_host := sample_host\<lparr>queues := [1025 \<mapsto>
     [(3, ''/f'' @ replicate 1022 NUL), (3, ''/f'' @ replicate 1022 NUL)]]\<rparr>\<rparr>"

lemma sample_close:
  assumes "Send_img 1025 (sample_open\<lparr>d_sign := 1, d_events := e\<rparr>) c = Inr (1, d', c')"
    "c_strcpy (d_events sample_open) (lit ''close file'') = Inr e" "length (d_mac d') = 18"
  shows "\<exists>s. Close_task ''ab'' (replicate 228 CHR ''x'') False None sample_open (lit ''close file'') c = Inr (Some s, c')"
proof -
  have "local_mac False None = Inr (c_memset 20)"
    by (simp add: local_mac_def getLocalInfo_def IP_new_def)
  moreover obtain m where "c_strcpy (d_mac d') (c_memset 20) = Inr m"
    using c_strcpy_room [of "c_memset 20" "d_mac d'"] assms(3) by (simp add: c_memset_def)
  ultimately show ?thesis using assms(1,2) by (simp add: Close_task_def)
qed


section \<open>Sending a file\<close>

lemma window_piece:
  assumes "holds_copy F seg" "no_nul F"
  shows "cstr (window seg k @ [NUL]) = piece F k" "take (length (piece F k)) (window seg k @ [NUL]) = piece F k"
proof -
  let ?n = "length (piece F k)" and ?w = "window seg k"
  have n: "?n < 4095" using length_piece_bound [of F k] by simp
  have at: "?w ! j = byte_at (seg_data seg) (4095 * k + j)" if "j < 4095" for j
    using that by (simp add: window_def percent_def mult.commute)
  have piece_at: "take ?n ?w = piece F k"
  proof (rule nth_equalityI)
    fix j assume "j < length (take ?n ?w)"
    then have j: "j < ?n" by simp
    then have "(4095 * k + j) mod 1024 \<noteq> 1023" by (intro kept_before_gap) (simp add: length_piece)
    moreover have "4095 * k + j < length F" using j unfolding length_piece by linarith
    ultimately show "take ?n ?w ! j = piece F k ! j"
      using at [of j] assms(1) j n nth_piece [OF j] by (simp add: holds_copy_def)
  qed (use n in simp)
  have "length F \<le> 4095 * k + ?n \<or> (4095 * k + ?n) mod 1024 = 1023"
    using lost_at_gap [of k] by (auto simp: length_piece min_def)
  then have "?w ! ?n = NUL" using at [OF n] assms(1) by (auto simp: holds_copy_def)
  then have w: "?w @ [NUL] = piece F k @ NUL # drop (Suc ?n) ?w @ [NUL]"
    using id_take_nth_drop [of ?n ?w] n piece_at by simp
  show "cstr (?w @ [NUL]) = piece F k"
    unfolding w using assms(2) by (simp add: cstr_no_nul_append cstr_Cons)
  show "take ?n (?w @ [NUL]) = piece F k" unfolding w by simp
qed

text \<open>The messages sent: those whose content is not the empty string, with their padding.\<close>

definition nonempty :: "(nat \<Rightarrow> string) \<Rightarrow> nat \<Rightarrow> data list \<Rightarrow> (string \<times> data) list" where
  "nonempty pad k ds =
     filter (\<lambda>(p, d). cstr (d_file_contents d) \<noteq> []) (zip (map pad [k..<k + length ds]) ds)"

definition images :: "(string \<times> data) list \<Rightarrow> string list" where
  "images ds = map (\<lambda>(p, d). data_image p d) ds"

lemma nonempty_Cons:
  "nonempty pad k (d # ds) =
     (if cstr (d_file_contents d) \<noteq> [] then [(pad k, d)] else []) @ nonempty pad (Suc k) ds"
proof -
  have "[k..<k + length (d # ds)] = k # [Suc k..<Suc k + length ds]"
    by (subst upt_conv_Cons) simp_all
  then show ?thesis unfolding nonempty_def by (simp only: list.map zip_Cons_Cons filter.simps prod.case) simp
qed

lemma trans_all_result:
  assumes "get_ip_addr conf cf = Inr (Some cf')" "\<forall>i. connected i" "\<forall>d \<in> set ds. terminated (d_file_contents d)"
  shows "trans_all conf cf connected pad k ds = Inr (Some (images (nonempty pad k ds)))"
  using assms(3)
proof (induction ds arbitrary: k)
  case (Cons d ds)
  then show ?case using assms(1,2)
    by (simp add: TransFile_def c_read_def nonempty_Cons images_def)
qed (simp add: nonempty_def images_def)

lemma map_filter_zip:
  "length ps = length bs \<Longrightarrow>
     map (\<lambda>(p, b). f b) (filter (\<lambda>(p, b). P b) (zip ps bs)) = map f (filter P bs)"
  by (induction ps bs rule: list_induct2) auto

text \<open>What the messages of a file are to the server.\<close>

definition messages_of :: "data \<Rightarrow> string \<Rightarrow> (string \<times> data) list \<Rightarrow> bool" where
  "messages_of d F ds \<longleftrightarrow>
     map (\<lambda>(p, b). block (TAG_of_data b)) ds = filter (\<lambda>b. snd b \<noteq> []) (cut_blocks F) \<and>
     (\<forall>(p, b) \<in> set ds. length p = 2 \<and> wf_data b \<and> block_ok (TAG_of_data b) \<and>
        block_of F (block (TAG_of_data b)) \<and> cstr (d_mac b) = cstr (d_mac d) \<and> terminated (d_mac b) \<and>
        cstr (d_file_name b) = cstr (d_file_name d) \<and> terminated (d_file_name b))"

lemma get_shm_file:
  assumes "c_read (c_shm_name c) = Inr name" "valid_shm_name name" "shm (c_host c) name = Some seg"
    and "grants name (c_host c)" "holds_copy F seg" "no_nul F" "length F < 2 ^ 29"
    and "get_ip_addr conf (c_config c) = Inr (Some cf)" "\<forall>k. connected k"
    and "sendable d" "d_length d = int (length F)" "\<forall>k. wf_data (garbage k) \<and> d_sign (garbage k) = sg"
    and "\<forall>k. length (pad k) = 2"
  shows "\<exists>ds. Get_shm conf connected pad garbage d c = Inr (Some (images ds, drop_segment c)) \<and>
     messages_of d F ds \<and> (\<forall>(p, b) \<in> set ds. d_sign b = sg)"
proof -
  have "(nat (d_length d) div 4096 + 1) * 4095 \<le> seg_size seg"
    using assms(5,7,11) by (simp add: holds_copy_def map_size_def)
  moreover have "0 \<le> d_length d" using assms(11) by simp
  ultimately obtain bs where bs: "get_blocks garbage d c = Inr (Some bs)" "length bs = piece_count F"
      "\<And>k. k < length bs \<Longrightarrow> block_of_window (garbage k) d seg k (bs ! k)"
    using get_blocks_result [OF assms(1-4,10) _ , of garbage] assms(11,12) by (auto simp: piece_count_def)
  have at: "cstr (d_file_contents (bs ! k)) = piece F k" "terminated (d_file_contents (bs ! k))"
      "block (TAG_of_data (bs ! k)) = (4095 * k, piece F k)" "wf_data (bs ! k)" "d_sign (bs ! k) = sg"
      "block_ok (TAG_of_data (bs ! k))"
    if "k < length bs" for k
  proof -
    note w = bs(3) [OF that, unfolded block_of_window_def] and p = window_piece [OF assms(5,6), of k]
    have small: "4095 * k < 2 ^ 29" "length (piece F k) \<le> 1023"
      using piece_start [of k F] that bs(2) assms(7) length_piece_bound [of F k] by simp_all
    show "cstr (d_file_contents (bs ! k)) = piece F k" "terminated (d_file_contents (bs ! k))"
      "d_sign (bs ! k) = sg"
      using w p(1) assms(12) by simp_all
    show "block (TAG_of_data (bs ! k)) = (4095 * k, piece F k)"
      using w p by (simp add: block_def TAG_of_data_def nat_mult_distrib)
    have "is_int sg" using assms(12) by (auto simp: wf_data_def)
    then show "wf_data (bs ! k)"
      using w p(1) assms(10,12) small by (simp add: wf_data_def is_long_def sendable_def)
    show "block_ok (TAG_of_data (bs ! k))"
      using w p(1) small by (simp add: block_ok_def TAG_of_data_def)
  qed
  let ?ds = "nonempty pad 0 bs"
  have "\<forall>b \<in> set bs. terminated (d_file_contents b)" using at(2) by (auto simp: in_set_conv_nth)
  from trans_all_result [OF assms(8,9) this]
  have run: "Get_shm conf connected pad garbage d c = Inr (Some (images ?ds, drop_segment c))"
    using bs(1) by (simp add: Get_shm_def)
  have "map (\<lambda>b. block (TAG_of_data b)) bs = cut_blocks F"
    using at(3) bs(2) by (intro nth_equalityI) (simp_all add: cut_blocks_def del: upt_Suc)
  moreover have "filter (\<lambda>b. cstr (d_file_contents b) \<noteq> []) bs = filter (\<lambda>b. snd (block (TAG_of_data b)) \<noteq> []) bs"
    using at(1,3) by (intro filter_cong) (auto simp: in_set_conv_nth)
  ultimately have blocks: "map (\<lambda>(p, b). block (TAG_of_data b)) ?ds = filter (\<lambda>b. snd b \<noteq> []) (cut_blocks F)"
    unfolding nonempty_def by (simp add: map_filter_zip filter_map comp_def flip: \<open>map _ bs = _\<close>)
  have "length p = 2 \<and> wf_data b \<and> block_ok (TAG_of_data b) \<and>
      block_of F (block (TAG_of_data b)) \<and> cstr (d_mac b) = cstr (d_mac d) \<and> terminated (d_mac b) \<and>
      cstr (d_file_name b) = cstr (d_file_name d) \<and> terminated (d_file_name b) \<and> d_sign b = sg"
    if mem: "(p, b) \<in> set ?ds" for p b
  proof -
    obtain k where k: "k < length bs" "b = bs ! k" "length p = 2"
      using mem assms(13) by (auto simp: nonempty_def set_zip)
    have "block_of F (block (TAG_of_data b))"
      using at(3) [OF k(1)] piece_block_of [OF piece_start [of k F]] k bs(2) by simp
    with at(4-6) [OF k(1)] bs(3) [OF k(1)] k(2,3) show ?thesis by (simp add: block_of_window_def)
  qed
  with run blocks show ?thesis unfolding messages_of_def by (intro exI [of _ ?ds]) blast
qed

text \<open>
  A client whose task can go through: it has taken no announcement before, its configuration
  can be read, the server answers, and its own strings and address fit their arrays. The
  sign that the server will see is the one found on the stack.
\<close>

definition client_ready ::
    "read_event list option \<Rightarrow> (nat \<Rightarrow> bool) \<Rightarrow> (nat \<Rightarrow> string) \<Rightarrow> (nat \<Rightarrow> data) \<Rightarrow> int \<Rightarrow> bool \<Rightarrow> iface list option \<Rightarrow>
     data \<Rightarrow> string \<Rightarrow> string \<Rightarrow> client \<Rightarrow> bool" where
  "client_ready conf connected pad garbage sg socket_ok ifs stack buffer mac c \<longleftrightarrow>
     c_shm_name c = c_memset 256 \<and> (\<exists>cf. get_ip_addr conf (c_config c) = Inr (Some cf)) \<and>
     (\<forall>k. connected k \<and> length (pad k) = 2 \<and> wf_data (garbage k) \<and> d_sign (garbage k) = sg) \<and> wf_data stack \<and>
     terminated buffer \<and> length buffer \<le> 256 \<and>
     local_mac socket_ok ifs = Inr mac \<and> terminated mac \<and> length (cstr mac) < 18"

lemma open_task_file:
  assumes "queues (c_host c) 1024 = Some ((int (length F), msg) # q)" "\<not> q_denied (c_host c) 1024"
    and "length msg = 1024" "terminated msg" "length (cstr msg) < 256" "valid_shm_name (base_of (cstr msg))"
    and "shm (c_host c) (base_of (cstr msg)) = Some seg" "grants (base_of (cstr msg)) (c_host c)"
    and "holds_copy F seg" "length F < 2 ^ 29" "no_nul F"
    and "client_ready conf connected pad garbage sg socket_ok ifs stack buffer mac c"
  shows "\<exists>d ds c'. Open_task conf connected pad garbage socket_ok ifs stack buffer c = Inr (Some (images ds, c')) \<and>
     messages_of d F ds \<and> cstr (d_mac d) = cstr mac \<and> cstr (d_file_name d) = cstr msg \<and>
     (\<forall>(p, b) \<in> set ds. d_sign b = sg) \<and>
     shm (c_host c') = (shm (c_host c))(base_of (cstr msg) := None)"
proof -
  note ready = assms(12) [unfolded client_ready_def]
  obtain cf where cf: "get_ip_addr conf (c_config c) = Inr (Some cf)" using ready by blast
  obtain ev where ev: "c_strcpy (d_events stack) buffer = Inr ev" "terminated ev" "length ev = 256"
    using c_strcpy_fits [of buffer "d_events stack"] ready by (auto simp: wf_data_def)
  let ?stack = "stack\<lparr>d_sign := 0, d_events := ev\<rparr>"
  have msg_facts: "cstr msg \<noteq> []"
    using assms(6) by (auto simp: valid_shm_name_def base_of_def strrchr_def)
  obtain d name where img: "Send_img 1024 ?stack c = Inr (1, d, c\<lparr>c_shm_name := name,
       c_host := (c_host c)\<lparr>queues := (queues (c_host c))(1024 \<mapsto> q)\<rparr>\<rparr>)"
    and name: "client_copy_name (cstr msg) (c_shm_name c) = Inr name"
    and d: "d = ?stack\<lparr>d_file_name := d_file_name d, d_length := c_int (int (length F))\<rparr>"
      "cstr (d_file_name d) = cstr msg" "terminated (d_file_name d)" "length (d_file_name d) = 256"
    using Send_img_result [OF assms(2,1,3,4) msg_facts assms(5), of ?stack] ready
    by (auto simp: wf_data_def c_memset_def)
  let ?c1 = "c\<lparr>c_shm_name := name, c_host := (c_host c)\<lparr>queues := (queues (c_host c))(1024 \<mapsto> q)\<rparr>\<rparr>"
  have nm: "c_read name = Inr (base_of (cstr msg))" "cstr name = base_of (cstr msg)"
    using name ready assms(6) by (auto simp: client_copy_name_def copy_name_def Let_def c_memset_def
        c_read_def cstr_no_nul_append valid_shm_name_def)
  have df: "d_events d = ev" "length (d_mac d) = 18" "d_length d = int (length F)"
    using arg_cong [OF d(1), of d_events] arg_cong [OF d(1), of d_mac] arg_cong [OF d(1), of d_length]
      assms(10) ready by (simp_all add: wf_data_def c_int_id)
  obtain m where m: "c_strcpy (d_mac d) mac = Inr m" "terminated m" "cstr m = cstr mac" "length m = 18"
    using c_strcpy_room [of mac "d_mac d"] ready df(2) by (auto dest: c_strcpy_string c_strcpy_length)
  let ?d = "d\<lparr>d_mac := m\<rparr>"
  have send: "sendable ?d" using m ev d(3,4) df assms(10) by (simp add: sendable_def is_int_def)
  have "grants (base_of (cstr msg)) (c_host ?c1)" using assms(8) by (simp add: grants_def)
  then obtain ds where ds: "Get_shm conf connected pad garbage ?d ?c1 = Inr (Some (images ds, drop_segment ?c1))"
      "messages_of ?d F ds" "\<forall>(p, b) \<in> set ds. d_sign b = sg"
    using get_shm_file [of ?c1 "base_of (cstr msg)" seg F conf cf connected ?d garbage sg pad] nm assms(6,7,9-11) cf ready
      send df(3) by auto
  then show ?thesis
    using ev(1) img m(1,3) ready d(2) nm(2)
    by (intro exI [of _ ?d] exI [of _ ds] exI [of _ "drop_segment ?c1"]) (simp add: Open_task_def drop_segment_def)
qed

text \<open>
  A file of less than 1024 bytes without NULs is sent whole: \<open>Open_task\<close> takes its
  announcement, finds the segment by the name in the path, and sends one message with the
  file's path, the client's address, and the content as the range from 0 to its length; then
  the segment is removed.
\<close>

lemma open_task_sends_small_file:
  assumes "queues (c_host c) 1024 = Some ((int (length F), msg) # q)" "\<not> q_denied (c_host c) 1024"
    and "length msg = 1024" "terminated msg" "length (cstr msg) < 256" "valid_shm_name (base_of (cstr msg))"
    and "shm (c_host c) (base_of (cstr msg)) = Some seg" "grants (base_of (cstr msg)) (c_host c)"
    and "holds_copy F seg" "F \<noteq> []" "length F < 1024" "no_nul F"
    and "client_ready conf connected pad garbage sg socket_ok ifs stack buffer mac c"
  shows "\<exists>p d c'. Open_task conf connected pad garbage socket_ok ifs stack buffer c =
       Inr (Some ([data_image p d], c')) \<and>
     TAG_of (data_image p d) = TAG_of_data d \<and> block (TAG_of_data d) = (0, F) \<and>
     d_sign d = sg \<and> mac_of (TAG_of_data d) = cstr mac \<and> name_of (TAG_of_data d) = cstr msg \<and>
     shm (c_host c') = (shm (c_host c))(base_of (cstr msg) := None)"
proof -
  have "length F < 2 ^ 29" using assms(11) by simp
  from open_task_file [OF assms(1-9) this assms(12,13)] obtain d0 ds c' where
    run: "Open_task conf connected pad garbage socket_ok ifs stack buffer c = Inr (Some (images ds, c'))"
    and ds: "messages_of d0 F ds" "cstr (d_mac d0) = cstr mac" "cstr (d_file_name d0) = cstr msg"
      "\<forall>(p, b) \<in> set ds. d_sign b = sg" "shm (c_host c') = (shm (c_host c))(base_of (cstr msg) := None)"
    by blast
  have "map (\<lambda>(p, b). block (TAG_of_data b)) ds = [(0, F)]"
    using ds(1) assms(10,11) by (simp add: messages_of_def cut_blocks_small)
  then obtain p d where one: "ds = [(p, d)]" "block (TAG_of_data d) = (0, F)" by auto
  moreover have "length p = 2" "wf_data d" using ds(1) one(1) by (simp_all add: messages_of_def)
  then have "TAG_of (data_image p d) = TAG_of_data d" using to_server.decode_image [of "(p, d)"] by simp
  ultimately show ?thesis using run ds
    by (intro exI [of _ p] exI [of _ d] exI [of _ c'])
      (simp add: images_def messages_of_def mac_of_def name_of_def TAG_of_data_def)
qed

lemma empty_config: "get_ip_addr (Some []) cf = Inr (Some cf)"
  by (simp add: get_ip_addr_def read_config_def cstr_Cons numeral_eq_Suc)

definition sample_opening :: client where
  "sample_opening = sample_client\<lparr>c_shm_name := c_memset 256, c_host := sample_host\<lparr>
     queues := [1024 \<mapsto> [(6, ''/home/a.c'' @ replicate 1015 NUL)]],
     shm := [''/a.c'' \<mapsto> \<lparr>seg_data = ''int x;'', seg_size = map_size\<rparr>], sem_value := Some 1\<rparr>\<rparr>"

lemma sample_client_ready:
  "c_shm_name c = c_memset 256 \<Longrightarrow>
     client_ready (Some []) (\<lambda>_. True) (\<lambda>_. ''ab'') (\<lambda>_. sample_open) 0 False None sample_open
       (lit ''open filea.c'') (c_memset 20) c"
  using sample_open_ok(2) empty_config
  by (simp add: client_ready_def local_mac_def getLocalInfo_def IP_new_def lit_def) (simp add: c_memset_def sample_open_def)

lemma open_task_sends_small_file_example:
  "\<exists>p d c'. Open_task (Some []) (\<lambda>_. True) (\<lambda>_. ''ab'') (\<lambda>_. sample_open) False None sample_open
       (lit ''open filea.c'') sample_opening = Inr (Some ([data_image p d], c')) \<and>
     block (TAG_of_data d) = (0, ''int x;'') \<and> name_of (TAG_of_data d) = ''/home/a.c'' \<and>
     shm (c_host c') ''/a.c'' = None"
proof -
  let ?msg = "''/home/a.c'' @ replicate 1015 NUL"
  let ?seg = "\<lparr>seg_data = ''int x;'', seg_size = map_size\<rparr>"
  have msg_facts: "length ?msg = 1024" "terminated ?msg" "cstr ?msg = ''/home/a.c''"
    by (simp_all add: cstr_Cons)
  have copy: "holds_copy ''int x;'' ?seg" by (auto simp: holds_copy_def byte_at_def)
  have host: "queues (c_host sample_opening) 1024 = Some [(int (length ''int x;''), ?msg)]"
    "\<not> q_denied (c_host sample_opening) 1024" "shm (c_host sample_opening) ''/a.c'' = Some ?seg"
    "grants ''/a.c'' (c_host sample_opening)"
    by (simp_all add: sample_opening_def sample_host_def grants_def)
  have "client_ready (Some []) (\<lambda>_. True) (\<lambda>_. ''ab'') (\<lambda>_. sample_open) 0 False None sample_open
      (lit ''open filea.c'') (c_memset 20) sample_opening"
    using sample_client_ready [of sample_opening] by (simp add: sample_opening_def)
  from open_task_sends_small_file [OF host(1,2) msg_facts(1,2) _ _ _ _ copy _ _ _ this]
  show ?thesis unfolding msg_facts(3) sample_base using host(3,4)
    by (simp add: valid_shm_name_def) (metis fun_upd_same)
qed

text \<open>
  A file of 1024 bytes or more without NULs is never sent whole: its first block ends where
  the hook's copy has lost a byte, at 1023, the second begins at 4095, and no block says that
  it covers what lies between.
\<close>

lemma large_file_incomplete:
  assumes "c_read (c_shm_name c) = Inr name" "valid_shm_name name" "shm (c_host c) name = Some seg"
    and "grants name (c_host c)" "sendable open_file" "d_length open_file = int (length F)"
    and "\<forall>k. wf_data (garbage k)" "holds_copy F seg" "no_nul F" "1024 \<le> length F" "length F < 2 ^ 29"
    and "1023 \<le> i" "i < 4095"
  shows "\<exists>bs. get_blocks garbage open_file c = Inr (Some bs) \<and>
     d_left (bs ! 0) = 0 \<and> d_right (bs ! 0) = 1023 \<and>
     \<not> covers (map (block \<circ> TAG_of_data) bs) i"
proof -
  have "(nat (d_length open_file) div 4096 + 1) * 4095 \<le> seg_size seg"
    using assms(6,8,11) by (simp add: holds_copy_def map_size_def)
  moreover have "0 \<le> d_length open_file" using assms(6) by simp
  ultimately obtain bs where bs: "get_blocks garbage open_file c = Inr (Some bs)" "0 < length bs"
      "\<And>k. k < length bs \<Longrightarrow> block_of_window (garbage k) open_file seg k (bs ! k)"
    using get_blocks_result [OF assms(1-5) _ assms(7)] by (metis Suc_eq_plus1 zero_less_Suc)
  have first: "cstr (window seg 0 @ [NUL]) = take 1023 F"
    using window_piece(1) [OF assms(8,9), of 0] by (simp add: piece_def)
  have "\<not> (fst (block (TAG_of_data (bs ! k))) \<le> i \<and>
      i < fst (block (TAG_of_data (bs ! k))) + length (snd (block (TAG_of_data (bs ! k)))))"
    if "k < length bs" for k
    using bs(3) [OF that] first assms(10,12,13)
    by (cases "k = 0") (auto simp: block_of_window_def block_def TAG_of_data_def)
  then have "\<not> covers (map (block \<circ> TAG_of_data) bs) i"
    by (auto simp: covers_def in_set_conv_nth)
  moreover have "d_left (bs ! 0) = 0" "d_right (bs ! 0) = 1023"
    using bs(3) [OF bs(2)] first assms(10) by (simp_all add: block_of_window_def)
  ultimately show ?thesis using bs(1) by blast
qed

definition sample_large :: string where
  "sample_large = replicate 2000 CHR ''x''"

definition sample_large_client :: client where
  "sample_large_client = sample_client\<lparr>c_host := sample_host\<lparr>
     shm := [''/f'' \<mapsto> \<lparr>seg_data = map (\<lambda>i. if i mod 1024 = 1023 then NUL else CHR ''x'') [0..<2000],
                       seg_size = map_size\<rparr>], sem_value := Some 1\<rparr>\<rparr>"

lemma large_file_incomplete_example:
  "\<exists>bs. get_blocks (\<lambda>_. sample_open) (sample_open\<lparr>d_length := 2000\<rparr>) sample_large_client = Inr (Some bs) \<and>
     d_right (bs ! 0) = 1023 \<and> \<not> covers (map (block \<circ> TAG_of_data) bs) 1500"
proof -
  let ?seg = "\<lparr>seg_data = map (\<lambda>i. if i mod 1024 = 1023 then NUL else CHR ''x'') [0..<2000], seg_size = map_size\<rparr>"
  have host: "c_read (c_shm_name sample_large_client) = Inr ''/f''" "valid_shm_name ''/f''"
    "shm (c_host sample_large_client) ''/f'' = Some ?seg" "grants ''/f'' (c_host sample_large_client)"
    by (simp_all add: sample_large_client_def sample_client_def c_read_def cstr_Cons valid_shm_name_def grants_def sample_host_def)
  have "holds_copy sample_large ?seg"
    by (auto simp: holds_copy_def byte_at_def sample_large_def)
  moreover have "no_nul sample_large" by (auto simp: no_nul_def sample_large_def)
  moreover have "sendable (sample_open\<lparr>d_length := 2000\<rparr>)"
    using sample_open_ok(1) by (simp add: sendable_def is_int_def)
  moreover have "length sample_large = 2000" by (simp add: sample_large_def)
  ultimately show ?thesis
    using large_file_incomplete [OF host, of "sample_open\<lparr>d_length := 2000\<rparr>" sample_large "\<lambda>_. sample_open" 1500]
      sample_open_ok(2)
    by auto
qed

end
