(* ===== verification/Client_Main.thy ===== *)
theory Client_Main
  imports Client_Tasks Server_Monitor
begin

text \<open>
  The client's main program, \<open>client/inotify.cpp\<close>: the heartbeat watch (\<open>heart_handler\<close>), the
  receiver of files (\<open>Recv_file\<close>), the handling of file events (\<open>handle_events\<close>) and start-up
  and main loop (\<open>main\<close>), with \<open>Inotify::Printdir\<close> of \<open>client/main.hpp\<close>. The global \<open>head_file\<close> is the last
  message received; its member \<open>count\<close> is also the counter of the heartbeat watch.
\<close>

section \<open>heart_handler\<close>

text \<open>
  One turn of the loop. \<open>hb_sockets\<close> counts the sockets opened for reconnecting, none of which
  is ever used or closed when the connection succeeds; \<open>None\<close> is the exit of the process in
  \<open>get_ip_addr\<close>. \<open>slept\<close> says whether the turn ended in \<open>sleep(3)\<close>.
\<close>

record heart_state =
  hb_flag :: int
  hb_head :: recv_data
  hb_host :: host
  hb_sockets :: nat

definition next_count :: "char \<Rightarrow> char" where
  "next_count c = char_of ((of_char c :: nat) + 1)"

definition counting :: "char \<Rightarrow> bool" where
  "counting c \<longleftrightarrow> (of_char c :: nat) < of_char CHR ''3'' \<and> (of_char c :: nat) \<ge> of_char CHR ''0''"

definition heart_turn ::
    "read_event list option \<Rightarrow> config \<Rightarrow> bool \<Rightarrow> heart_state \<Rightarrow> (bool \<times> heart_state) option res" where
  "heart_turn conf cf connected s =
     (if hb_flag s \<noteq> 1 then Inr (Some (False, s))
      else if h_count (hb_head s) = CHR ''3''
      then
        let s1 = s\<lparr>hb_host := Send_keep_alive CHR ''0'' (hb_host s), hb_flag := 0\<rparr> in
        bind_res (get_ip_addr conf cf) (\<lambda>r. case r of
          None \<Rightarrow> Inr None
        | Some _ \<Rightarrow>
            Inr (Some (True, if connected then s1\<lparr>hb_flag := 1, hb_sockets := hb_sockets s1 + 1\<rparr> else s1)))
      else if counting (h_count (hb_head s))
      then Inr (Some (True, s\<lparr>hb_head := (hb_head s)\<lparr>h_count := next_count (h_count (hb_head s))\<rparr>\<rparr>))
      else Inr (Some (True, s)))"

fun heart_turns ::
    "nat \<Rightarrow> read_event list option \<Rightarrow> config \<Rightarrow> bool \<Rightarrow> heart_state \<Rightarrow> heart_state option res" where
  "heart_turns 0 conf cf connected s = Inr (Some s)"
| "heart_turns (Suc n) conf cf connected s =
     bind_res (heart_turn conf cf connected s) (\<lambda>r. case r of
       None \<Rightarrow> Inr None
     | Some (_, s') \<Rightarrow> heart_turns n conf cf connected s')"

section \<open>Recv_file\<close>

text \<open>
  The thread's local count of bytes, the global message and the machine. An output stream
  is opened on the message's file name, truncating or appending, and gets the string in the
  message; when it cannot be opened nothing happens.
\<close>

record receiver =
  rc_count :: int
  rc_head :: recv_data
  rc_host :: host

definition out_file :: "bool \<Rightarrow> string \<Rightarrow> string \<Rightarrow> host \<Rightarrow> host" where
  "out_file app path bs h =
     (if path = [] \<or> path \<in> h_dirs h \<or> h_readonly h path then h
      else h\<lparr>h_files := (h_files h)(path \<mapsto>
             (if app then (case h_files h path of None \<Rightarrow> [] | Some old \<Rightarrow> old) else []) @ bs)\<rparr>)"

definition take_message :: "receiver \<Rightarrow> receiver res" where
  "take_message s =
     (if h_sign (rc_head s) = CHR ''4''
      then Inr (s\<lparr>rc_head := (rc_head s)\<lparr>h_count := CHR ''0''\<rparr>\<rparr>)
      else
        bind_res (c_read (h_file_contents (rc_head s))) (\<lambda>bs.
        bind_res (c_read (h_file_name (rc_head s))) (\<lambda>path.
        let count = rc_count s + int (length bs) in
        Inr (s\<lparr>rc_count := count,
               rc_host := out_file (\<not> count \<le> 4096) path bs (rc_host s)\<rparr>))))"

text \<open>
  The loop over what \<open>recv\<close> answers: an error other than the three that are retried is only
  printed, and the message of before is taken again. The end of the stream ends the process.
\<close>

datatype recv_end = Not_started | Exited_offline | Receiving

definition recv_into_head :: "string \<Rightarrow> recv_data \<Rightarrow> recv_data" where
  "recv_into_head bs h = recv_data_of (bs @ drop (length bs) (recv_data_image h))"

fun recv_loop :: "recv_event list \<Rightarrow> receiver \<Rightarrow> (recv_end \<times> receiver) res" where
  "recv_loop [] s = Inr (Receiving, s)"
| "recv_loop (Rv_again # evs) s = recv_loop evs s"
| "recv_loop (Rv_error # evs) s = bind_res (take_message s) (recv_loop evs)"
| "recv_loop (Rv_end # evs) s =
     Inr (Exited_offline, s\<lparr>rc_host := Send_keep_alive CHR ''0'' (rc_host s)\<rparr>)"
| "recv_loop (Rv_bytes bs # evs) s =
     bind_res (take_message (s\<lparr>rc_head := recv_into_head bs (rc_head s)\<rparr>)) (recv_loop evs)"

definition Recv_file :: "int \<Rightarrow> recv_event list \<Rightarrow> receiver \<Rightarrow> (recv_end \<times> receiver) res" where
  "Recv_file keep_alive_flag evs s =
     (if keep_alive_flag = 1 then recv_loop evs (s\<lparr>rc_count := 0\<rparr>) else Inr (Not_started, s))"

section \<open>handle_events\<close>

record filename_fd_desc =
  ff_fd :: int
  ff_name :: string
  ff_base_name :: string

text \<open>
  The events of one \<open>read\<close>: the mask and the name, with its terminator, if the event has one.
  The tasks are started and joined one after the other, so they are listed in order;
  \<open>w_epoll\<close> are the descriptors epoll watches, \<open>w_pollable\<close> those it accepts, which regular
  files are not among.
\<close>

definition IN_OPEN :: nat where "IN_OPEN = 5"
definition IN_CLOSE_NOWRITE :: nat where "IN_CLOSE_NOWRITE = 4"
definition IN_CLOSE_WRITE :: nat where "IN_CLOSE_WRITE = 3"
definition IN_CREATE :: nat where "IN_CREATE = 8"
definition IN_DELETE :: nat where "IN_DELETE = 9"

datatype task = Open_called string string | Close_called string

record watcher =
  w_files :: "filename_fd_desc list"
  w_index :: nat
  w_epoll :: "int set"
  w_pollable :: "int \<Rightarrow> bool"
  w_tasks :: "task list"

text \<open>\<open>epoll_ctl\<close>, whose answer nobody looks at.\<close>

definition client_addfd :: "(int \<Rightarrow> bool) \<Rightarrow> int \<Rightarrow> int set \<Rightarrow> int \<times> int set" where
  "client_addfd pollable fd ep =
     (if fd < 0 \<or> \<not> pollable fd \<or> fd \<in> ep then (- 1, ep) else (0, insert fd ep))"

definition rm_fd :: "int \<Rightarrow> int set \<Rightarrow> int set" where
  "rm_fd fd ep = ep - {fd}"

definition add_created :: "string \<Rightarrow> string \<Rightarrow> int \<Rightarrow> watcher \<Rightarrow> watcher res" where
  "add_created dir name temp_fd w =
     bind_res (arr_get (w_files w) (int (w_index w))) (\<lambda>f.
     bind_res (c_sprintf (ff_name f) ''%s'' [PStr name]) (\<lambda>(_, nm).
     bind_res (c_sprintf (ff_base_name f) ''%s%s'' [PStr dir, PStr name]) (\<lambda>(_, base).
       Inr (w\<lparr>w_files := (w_files w)[w_index w := \<lparr>ff_fd = temp_fd, ff_name = nm, ff_base_name = base\<rparr>],
              w_epoll := snd (client_addfd (w_pollable w) temp_fd (w_epoll w)),
              w_index := w_index w + 1\<rparr>))))"

fun drop_deleted :: "string \<Rightarrow> filename_fd_desc list \<Rightarrow> int set \<Rightarrow> (filename_fd_desc list \<times> int set) res" where
  "drop_deleted name [] ep = Inr ([], ep)"
| "drop_deleted name (f # gs) ep =
     bind_res (c_read (ff_name f)) (\<lambda>n.
       if n = name
       then Inr (\<lparr>ff_fd = 0, ff_name = c_memset 32, ff_base_name = c_memset 128\<rparr> # gs, rm_fd (ff_fd f) ep)
       else bind_res (drop_deleted name gs ep) (\<lambda>(gs', ep'). Inr (f # gs', ep')))"

definition handle_one ::
    "string \<Rightarrow> int \<Rightarrow> nat \<times> string option \<Rightarrow> watcher \<Rightarrow> watcher res" where
  "handle_one dir temp_fd ev w =
     (case snd ev of
        None \<Rightarrow> Inr w
      | Some raw \<Rightarrow>
          bind_res (c_read raw) (\<lambda>name.
          bind_res (if bit (fst ev) IN_CREATE then add_created dir name temp_fd w else Inr w) (\<lambda>w1.
          bind_res
            (if bit (fst ev) IN_DELETE
             then bind_res (drop_deleted name (take 128 (w_files w1)) (w_epoll w1)) (\<lambda>(gs, ep).
                    Inr (w1\<lparr>w_files := gs, w_epoll := ep\<rparr>))
             else Inr w1) (\<lambda>w2.
          bind_res
            (if bit (fst ev) IN_OPEN
             then bind_res (c_strcat (''open file'' @ replicate 1015 NUL) (lit name)) (\<lambda>b.
                    Inr (w2\<lparr>w_tasks := w_tasks w2 @ [Open_called (cstr b) name]\<rparr>))
             else Inr w2) (\<lambda>w3.
          if bit (fst ev) IN_CLOSE_NOWRITE \<or> bit (fst ev) IN_CLOSE_WRITE
          then bind_res (c_strcat (''close file'' @ replicate 1014 NUL) (lit name)) (\<lambda>b.
                 Inr (w3\<lparr>w_tasks := w_tasks w3 @ [Close_called (cstr b)]\<rparr>))
          else Inr w3)))))"

text \<open>All events; \<open>fds\<close> are what \<open>open\<close> answers for the created files.\<close>

fun handle_events ::
    "string \<Rightarrow> (nat \<Rightarrow> int) \<Rightarrow> (nat \<times> string option) list \<Rightarrow> watcher \<Rightarrow> watcher res" where
  "handle_events dir fds [] w = Inr w"
| "handle_events dir fds (ev # evs) w =
     bind_res (handle_one dir (fds 0) ev w) (handle_events dir (\<lambda>i. fds (Suc i)) evs)"

section \<open>Start-up\<close>

text \<open>
  \<open>Printdir\<close>: the entries of the directory (or that it cannot be opened) and what \<open>lstat\<close>
  says of a name are arguments. The names are looked up and watched relative to the working
  directory, and a failing \<open>lstat\<close> leaves the answer for the entry before.
\<close>

fun print_entries :: "(string \<Rightarrow> bool option) \<Rightarrow> bool \<Rightarrow> string list \<Rightarrow> string list" where
  "print_entries lstat before [] = []"
| "print_entries lstat before (d_name # names) =
     (let isdir = (case lstat d_name of None \<Rightarrow> before | Some b \<Rightarrow> b);
          rest = print_entries lstat isdir names in
      if isdir \<and> d_name \<noteq> ''.'' \<and> d_name \<noteq> ''..'' then d_name # rest else rest)"

text \<open>The names watched, and whether the working directory moves up.\<close>

definition Printdir :: "string list option \<Rightarrow> (string \<Rightarrow> bool option) \<Rightarrow> bool \<Rightarrow> string list \<times> bool" where
  "Printdir entries lstat before =
     (case entries of None \<Rightarrow> ([], False) | Some names \<Rightarrow> (print_entries lstat before names, True))"

text \<open>\<open>main\<close> up to its loop: the flag given to the threads, and what is watched.\<close>

definition client_main ::
    "read_event list option \<Rightarrow> config \<Rightarrow> bool \<Rightarrow> string list option \<Rightarrow> (string \<Rightarrow> bool option) \<Rightarrow> bool \<Rightarrow>
     host \<Rightarrow> (int \<times> config \<times> string list \<times> host) option res" where
  "client_main conf cf0 connected entries lstat before h =
     bind_res (get_ip_addr conf cf0) (\<lambda>r. case r of
       None \<Rightarrow> Inr None
     | Some cf \<Rightarrow>
         let watched_names = cstr (cf_path cf) # fst (Printdir entries lstat before);
             h1 = Send_keep_alive CHR ''1'' h in
         if connected then Inr (Some (1, cf, watched_names, h1))
         else Inr (Some (0, cf, watched_names, Send_keep_alive CHR ''0'' h1)))"

text \<open>
  The loop of \<open>main\<close>, on what \<open>epoll_wait\<close> reports one after the other: events of the watched
  directory, with the answers of \<open>open\<close> and the value \<open>handle_events\<close> returns, which has no
  return statement; or a created file that can be read, with the bytes of the \<open>read\<close>
  (\<open>None\<close> when it answers -1). What is read is only stored in \<open>readbuf\<close>. The answer says
  whether the loop goes on.
\<close>

datatype report =
    Directory_ready "(nat \<times> string option) list" "nat \<Rightarrow> int" int
  | File_ready "string option"

definition read_created :: "string option \<Rightarrow> string \<Rightarrow> string res" where
  "read_created answer readbuf =
     (case answer of
        None \<Rightarrow> arr_set readbuf (- 1) NUL
      | Some bs \<Rightarrow> arr_set (bs @ drop (length bs) readbuf) (int (length bs)) NUL)"

fun watch_loop :: "string \<Rightarrow> report list \<Rightarrow> string \<Rightarrow> watcher \<Rightarrow> (bool \<times> string \<times> watcher) res" where
  "watch_loop dir [] readbuf w = Inr (True, readbuf, w)"
| "watch_loop dir (Directory_ready evs fds ret # reports) readbuf w =
     bind_res (handle_events dir fds evs w) (\<lambda>w'.
       if ret = - 1 then Inr (False, readbuf, w') else watch_loop dir reports readbuf w')"
| "watch_loop dir (File_ready answer # reports) readbuf w =
     bind_res (read_created answer readbuf) (\<lambda>readbuf'. watch_loop dir reports readbuf' w)"

section \<open>Receiving messages\<close>

text \<open>A message of the server in the client's terms: well-formed, its strings terminated.\<close>

definition good_message :: "recv_data \<Rightarrow> bool" where
  "good_message m \<longleftrightarrow>
     wf_recv_data m \<and> terminated (h_file_name m) \<and> terminated (h_file_contents m)"

definition is_beat :: "recv_data \<Rightarrow> bool" where
  "is_beat m \<longleftrightarrow> h_sign m = CHR ''4''"

lemma recv_into_head_image: "wf_recv_data m \<Longrightarrow> wf_recv_data h \<Longrightarrow> recv_into_head (recv_data_image m) h = m"
  using length_recv_data_image [of h]
  by (simp add: recv_into_head_def length_recv_data_image recv_data_of_image)

text \<open>What one message does to the count and the files; the rest of the machine is not touched.\<close>

definition absorb :: "recv_data \<Rightarrow> int \<times> host \<Rightarrow> int \<times> host" where
  "absorb m st =
     (if is_beat m then st
      else let count = fst st + int (length (cstr (h_file_contents m))) in
           (count, out_file (\<not> count \<le> 4096) (cstr (h_file_name m)) (cstr (h_file_contents m)) (snd st)))"

lemma take_message_good:
  assumes "good_message (rc_head s)"
  shows "\<exists>s'. take_message s = Inr s' \<and> wf_recv_data (rc_head s') \<and>
     (rc_count s', rc_host s') = absorb (rc_head s) (rc_count s, rc_host s)"
  using assms
  by (auto simp: take_message_def good_message_def is_beat_def absorb_def c_read_def Let_def wf_recv_data_def)

lemma recv_loop_messages:
  assumes "\<forall>m \<in> set ms. good_message m" "wf_recv_data (rc_head s)"
  shows "\<exists>s'. recv_loop (map Rv_bytes (map recv_data_image ms)) s = Inr (Receiving, s') \<and>
     (rc_count s', rc_host s') = fold absorb ms (rc_count s, rc_host s)"
  using assms
proof (induction ms arbitrary: s)
  case (Cons m ms)
  let ?s = "s\<lparr>rc_head := recv_into_head (recv_data_image m) (rc_head s)\<rparr>"
  have "rc_head ?s = m"
    using Cons.prems by (simp add: good_message_def recv_into_head_image)
  with take_message_good [of ?s] Cons.prems obtain s1 where s1: "take_message ?s = Inr s1"
      "wf_recv_data (rc_head s1)" "(rc_count s1, rc_host s1) = absorb m (rc_count s, rc_host s)"
    by auto
  from Cons.IH [OF _ s1(2)] Cons.prems obtain s' where
    "recv_loop (map Rv_bytes (map recv_data_image ms)) s1 = Inr (Receiving, s')"
    "(rc_count s', rc_host s') = fold absorb ms (rc_count s1, rc_host s1)"
    by auto
  with s1 show ?case by simp
qed simp

lemma fold_absorb_filter: "fold absorb ms st = fold absorb (filter (\<lambda>m. \<not> is_beat m) ms) st"
  by (induction ms arbitrary: st) (simp_all add: absorb_def)

section \<open>A file put together from its pieces\<close>

text \<open>The same on contents alone: what the pieces leave at the path.\<close>

fun put_pieces :: "string list \<Rightarrow> int \<Rightarrow> string \<Rightarrow> string" where
  "put_pieces [] count old = old"
| "put_pieces (p # ps) count old =
     (let count' = count + int (length p) in
      put_pieces ps count' ((if count' \<le> 4096 then [] else old) @ p))"

definition file_open_to :: "string \<Rightarrow> host \<Rightarrow> bool" where
  "file_open_to path h \<longleftrightarrow> path \<noteq> [] \<and> path \<notin> h_dirs h \<and> \<not> h_readonly h path"

definition content_of :: "host \<Rightarrow> string \<Rightarrow> string" where
  "content_of h path = (case h_files h path of None \<Rightarrow> [] | Some bs \<Rightarrow> bs)"

definition put_file :: "string \<Rightarrow> string \<Rightarrow> host \<Rightarrow> host" where
  "put_file path bs h = h\<lparr>h_files := (h_files h)(path \<mapsto> bs)\<rparr>"

lemma put_file_simps [simp]:
  "put_file path a (put_file path b h) = put_file path a h"
  "content_of (put_file path a h) path = a"
  "file_open_to p (put_file path a h) = file_open_to p h"
  by (simp_all add: put_file_def content_of_def file_open_to_def)

lemma absorb_piece:
  assumes "\<not> is_beat m" "cstr (h_file_name m) = path" "file_open_to path h"
  shows "absorb m (count, h) =
    (count + int (length (cstr (h_file_contents m))),
     put_file path (put_pieces [cstr (h_file_contents m)] count (content_of h path)) h)"
  using assms by (auto simp: absorb_def out_file_def file_open_to_def content_of_def put_file_def Let_def)

lemma fold_absorb_pieces:
  assumes "\<forall>m \<in> set ms. \<not> is_beat m \<and> cstr (h_file_name m) = path" "file_open_to path h" "ms \<noteq> []"
  shows "fold absorb ms (count, h) =
    (count + int (length (concat (map (\<lambda>m. cstr (h_file_contents m)) ms))),
     put_file path (put_pieces (map (\<lambda>m. cstr (h_file_contents m)) ms) count (content_of h path)) h)"
  using assms
proof (induction ms arbitrary: count h)
  case (Cons m ms)
  let ?p = "cstr (h_file_contents m)"
  let ?h = "put_file path (put_pieces [?p] count (content_of h path)) h"
  have step: "absorb m (count, h) = (count + int (length ?p), ?h)"
    using absorb_piece [of m path h count] Cons.prems by simp
  show ?case
  proof (cases "ms = []")
    case True
    with step show ?thesis by (simp del: put_pieces.simps)
  next
    case False
    have "file_open_to path ?h" using Cons.prems(2) by simp
    from Cons.IH [OF _ this False, of "count + int (length ?p)"] Cons.prems step
    show ?thesis by (simp add: Let_def add.assoc)
  qed
qed simp

text \<open>Pieces of 4095 bytes: the second of a file decides whether the first survives.\<close>

lemma put_pieces_append:
  "4096 < count \<Longrightarrow> put_pieces ps count old = old @ concat ps"
  by (induction ps count old rule: put_pieces.induct) (auto simp: Let_def)

lemma put_frames:
  "put_pieces (frames 4095 F) 0 old =
     (if F = [] then old else if length F = 4096 then drop 4095 F else F)"
proof (cases "length F \<le> 4095")
  case True
  then have "frames 4095 F = (if F = [] then [] else [F])"
    by (simp add: frames_step)
  with True show ?thesis by simp
next
  case False
  let ?a = "take 4095 F" and ?b = "drop 4095 F"
  have "?b \<noteq> []" "F \<noteq> []" using False by auto
  then have fr: "frames 4095 F = ?a # take 4095 ?b # frames 4095 (drop 4095 ?b)"
    using frames_step [of 4095 F] frames_step [of 4095 ?b] by simp
  have one: "put_pieces (frames 4095 F) 0 old =
      put_pieces (take 4095 ?b # frames 4095 (drop 4095 ?b)) 4095 ?a"
    unfolding fr put_pieces.simps(2) [of ?a] using False by (simp add: Let_def del: put_pieces.simps)
  show ?thesis
  proof (cases "length F = 4096")
    case True
    then have "length ?b = 1" by simp
    then have "take 4095 ?b = ?b" "drop 4095 ?b = []" by simp_all
    with one True show ?thesis by (simp add: \<open>F \<noteq> []\<close>)
  next
    case longer: False
    let ?q = "take 4095 ?b"
    have "1 < length F - 4095" using False longer by linarith
    then have "1 < length ?q" by simp
    then have "put_pieces (?q # frames 4095 (drop 4095 ?b)) 4095 ?a =
        put_pieces (frames 4095 (drop 4095 ?b)) (4095 + int (length ?q)) (?a @ ?q)"
      unfolding put_pieces.simps(2) [of ?q] by (simp add: Let_def del: put_pieces.simps length_take)
    also have "\<dots> = (?a @ ?q) @ concat (frames 4095 (drop 4095 ?b))"
      by (rule put_pieces_append) (use \<open>1 < length ?q\<close> in simp)
    also have "\<dots> = F"
      using concat_frames [of 4095 "drop 4095 ?b"] by (metis append_take_drop_id append.assoc zero_less_numeral)
    finally show ?thesis using one longer \<open>F \<noteq> []\<close> by simp
  qed
qed

section \<open>A whole file\<close>

text \<open>The messages of one file, with heartbeats anywhere between them.\<close>

lemma receive_pieces:
  assumes "\<forall>m \<in> set ms. good_message m \<and> (is_beat m \<or> cstr (h_file_name m) = path)"
    and "map (\<lambda>m. cstr (h_file_contents m)) (filter (\<lambda>m. \<not> is_beat m) ms) = ps" "ps \<noteq> []"
    and "wf_recv_data (rc_head s)" "file_open_to path (rc_host s)"
  shows "\<exists>s'. recv_loop (map Rv_bytes (map recv_data_image ms)) s = Inr (Receiving, s') \<and>
     rc_count s' = rc_count s + int (length (concat ps)) \<and>
     rc_host s' = put_file path (put_pieces ps (rc_count s) (content_of (rc_host s) path)) (rc_host s)"
proof -
  let ?fs = "filter (\<lambda>m. \<not> is_beat m) ms"
  obtain s' where s': "recv_loop (map Rv_bytes (map recv_data_image ms)) s = Inr (Receiving, s')"
      "(rc_count s', rc_host s') = fold absorb ?fs (rc_count s, rc_host s)"
    using recv_loop_messages [of ms s] assms(1,4) fold_absorb_filter [of ms] by auto
  have "?fs \<noteq> []" using assms(2,3) by auto
  moreover have "\<forall>m \<in> set ?fs. \<not> is_beat m \<and> cstr (h_file_name m) = path" using assms(1) by auto
  ultimately have "fold absorb ?fs (rc_count s, rc_host s) =
      (rc_count s + int (length (concat ps)),
       put_file path (put_pieces ps (rc_count s) (content_of (rc_host s) path)) (rc_host s))"
    using fold_absorb_pieces [OF _ assms(5), of ?fs "rc_count s"] unfolding assms(2) by blast
  with s' show ?thesis by (intro exI [of _ s']) simp
qed

lemma receive_file:
  assumes "\<forall>m \<in> set ms. good_message m \<and> (is_beat m \<or> cstr (h_file_name m) = path)"
    and "map (\<lambda>m. cstr (h_file_contents m)) (filter (\<lambda>m. \<not> is_beat m) ms) = frames 4095 F"
    and "F \<noteq> []" "wf_recv_data (rc_head s)" "file_open_to path (rc_host s)"
  shows "\<exists>s'. Recv_file 1 (map Rv_bytes (map recv_data_image ms)) s = Inr (Receiving, s') \<and>
     rc_count s' = int (length F) \<and>
     rc_host s' = put_file path (if length F = 4096 then drop 4095 F else F) (rc_host s)"
proof -
  have "frames 4095 F \<noteq> []" using assms(3) frames_step [of 4095 F] by simp
  with receive_pieces [OF assms(1,2) _ , of "s\<lparr>rc_count := 0\<rparr>"] assms(3-5) concat_frames [of 4095 F]
  show ?thesis by (auto simp: Recv_file_def put_frames)
qed

section \<open>Properties\<close>

text \<open>
  C6. The receiver puts a file together: given the messages of a file, 4095 bytes each, with
  heartbeats anywhere between them, a client that has received nothing before ends with the
  file as it was, except when it has exactly 4096 bytes: then the last byte alone is left.
  Nothing but that path is touched.
\<close>

theorem receive_restores_file:
  assumes "\<forall>m \<in> set ms. good_message m \<and> (is_beat m \<or> cstr (h_file_name m) = path)"
    and "map (\<lambda>m. cstr (h_file_contents m)) (filter (\<lambda>m. \<not> is_beat m) ms) = frames 4095 F"
    and "F \<noteq> []" "wf_recv_data (rc_head s)" "file_open_to path (rc_host s)"
  shows "\<exists>s'. Recv_file 1 (map Rv_bytes (map recv_data_image ms)) s = Inr (Receiving, s') \<and>
     rc_count s' = int (length F) \<and>
     rc_host s' = put_file path (if length F = 4096 then drop 4095 F else F) (rc_host s)"
  using receive_file [OF assms] by blast

text \<open>
  The count is never reset: once a client has received more than 4096 bytes in all, the
  next file is written behind what the path already holds, instead of replacing it.
\<close>

lemma receive_appends_later:
  assumes "\<forall>m \<in> set ms. good_message m \<and> (is_beat m \<or> cstr (h_file_name m) = path)"
    and "map (\<lambda>m. cstr (h_file_contents m)) (filter (\<lambda>m. \<not> is_beat m) ms) = frames 4095 F"
    and "F \<noteq> []" "wf_recv_data (rc_head s)" "file_open_to path (rc_host s)" "4096 < rc_count s"
  shows "\<exists>s'. recv_loop (map Rv_bytes (map recv_data_image ms)) s = Inr (Receiving, s') \<and>
     rc_host s' = put_file path (content_of (rc_host s) path @ F) (rc_host s)"
proof -
  have "frames 4095 F \<noteq> []" using assms(3) frames_step [of 4095 F] by simp
  with receive_pieces [OF assms(1,2) _ assms(4,5)] assms(6) concat_frames [of 4095 F]
  show ?thesis by (auto simp: put_pieces_append)
qed

definition sample_message :: "char \<Rightarrow> string \<Rightarrow> recv_data" where
  "sample_message sign bs =
     \<lparr>h_count = CHR ''0'', h_sign = sign, h_mac = c_memset 18,
      h_file_name = ''/home/a'' @ replicate 249 NUL, h_file_contents = bs @ replicate (4096 - length bs) NUL,
      h_events = c_memset 256, h_length = c_memset 256\<rparr>"

definition sample_receiver :: receiver where
  "sample_receiver =
     \<lparr>rc_count = 0, rc_head = sample_message NUL [],
      rc_host = sample_host\<lparr>h_files := [''/home/a'' \<mapsto> ''It is a secret'']\<rparr>\<rparr>"

lemma sample_message_good:
  "length bs < 4096 \<Longrightarrow> no_nul bs \<Longrightarrow>
     good_message (sample_message sign bs) \<and> cstr (h_file_name (sample_message sign bs)) = ''/home/a'' \<and>
     cstr (h_file_contents (sample_message sign bs)) = bs \<and>
     (is_beat (sample_message sign bs) \<longleftrightarrow> sign = CHR ''4'')"
  by (simp add: good_message_def wf_recv_data_def sample_message_def cstr_no_nul_append is_beat_def
      c_memset_def cstr_Cons)

lemma sample_receiver_ok:
  "wf_recv_data (rc_head sample_receiver)" "file_open_to ''/home/a'' (rc_host sample_receiver)"
  using sample_message_good [of "[]" NUL]
  by (simp_all add: sample_receiver_def good_message_def file_open_to_def sample_host_def)

lemma receive_restores_file_witness:
  "\<exists>s'. Recv_file 1 (map Rv_bytes (map recv_data_image
       [sample_message CHR ''4'' [], sample_message CHR ''1'' ''int x;'', sample_message CHR ''4'' []]))
       sample_receiver = Inr (Receiving, s') \<and>
     content_of (rc_host s') ''/home/a'' = ''int x;''"
proof -
  have "frames 4095 ''int x;'' = [''int x;'']" by (simp add: frames_step)
  then show ?thesis
    using receive_restores_file [of "[sample_message CHR ''4'' [], sample_message CHR ''1'' ''int x;'',
        sample_message CHR ''4'' []]" "''/home/a''" "''int x;''" sample_receiver]
      sample_receiver_ok sample_message_good [of "[]" "CHR ''4''"]
      sample_message_good [of "''int x;''" "CHR ''1''"]
    by auto
qed

lemma receive_appends_later_example:
  "\<exists>s'. recv_loop (map Rv_bytes (map recv_data_image [sample_message CHR ''1'' ''int x;'']))
       (sample_receiver\<lparr>rc_count := 5000\<rparr>) = Inr (Receiving, s') \<and>
     content_of (rc_host s') ''/home/a'' = ''It is a secretint x;''"
proof -
  have "frames 4095 ''int x;'' = [''int x;'']" by (simp add: frames_step)
  moreover have "content_of (rc_host sample_receiver) ''/home/a'' = ''It is a secret''"
    by (simp add: sample_receiver_def content_of_def)
  ultimately show ?thesis
    using receive_appends_later [of "[sample_message CHR ''1'' ''int x;'']" "''/home/a''" "''int x;''"
        "sample_receiver\<lparr>rc_count := 5000\<rparr>"]
      sample_receiver_ok sample_message_good [of "''int x;''" "CHR ''1''"]
    by auto
qed

section \<open>The heartbeat watch\<close>

definition beat_char :: "nat \<Rightarrow> char" where
  "beat_char k = char_of (48 + k)"

lemma beat_chars:
  "beat_char 0 = CHR ''0''" "beat_char 3 = CHR ''3''"
  "k < 3 \<Longrightarrow> counting (beat_char k) \<and> beat_char k \<noteq> CHR ''3'' \<and> next_count (beat_char k) = beat_char (Suc k)"
proof -
  show "beat_char 0 = CHR ''0''" "beat_char 3 = CHR ''3''" by (simp_all add: beat_char_def) code_simp+
  assume "k < 3"
  moreover have "beat_char k \<noteq> CHR ''3''" if "k < 3"
  proof
    assume "beat_char k = CHR ''3''"
    then have "(of_char (beat_char k) :: nat) = 51" by simp
    with that show False by (simp add: beat_char_def)
  qed
  ultimately show "counting (beat_char k) \<and> beat_char k \<noteq> CHR ''3'' \<and> next_count (beat_char k) = beat_char (Suc k)"
    by (simp add: counting_def beat_char_def next_count_def)
qed

text \<open>The turns up to the end of the count.\<close>

definition with_count :: "char \<Rightarrow> heart_state \<Rightarrow> heart_state" where
  "with_count c s = s\<lparr>hb_head := (hb_head s)\<lparr>h_count := c\<rparr>\<rparr>"

lemma with_count_simps [simp]:
  "hb_flag (with_count c s) = hb_flag s" "h_count (hb_head (with_count c s)) = c"
  "hb_host (with_count c s) = hb_host s" "hb_sockets (with_count c s) = hb_sockets s"
  by (simp_all add: with_count_def)

lemma with_count_id: "h_count (hb_head s) = c \<Longrightarrow> with_count c s = s"
  by (auto simp: with_count_def)

lemma beat_char_three: "beat_char (Suc (Suc (Suc 0))) = CHR ''3''"
  using beat_chars(2) by (simp add: eval_nat_numeral)

lemma heart_turn_counts:
  assumes "hb_flag s = 1" "k < 3"
  shows "heart_turn conf cf connected (with_count (beat_char k) s) =
    Inr (Some (True, with_count (beat_char (Suc k)) s))"
  using assms beat_chars(3) [of k] by (simp add: heart_turn_def) (simp add: with_count_def)

lemma heart_turns_count:
  assumes "hb_flag s = 1" "h_count (hb_head s) = CHR ''0''"
  shows "heart_turns (3 + n) conf cf connected s = heart_turns n conf cf connected (with_count CHR ''3'' s)"
proof -
  have "with_count (beat_char 0) s = s" using assms(2) by (simp add: with_count_id beat_chars)
  with heart_turn_counts [OF assms(1), of 0] heart_turn_counts [OF assms(1), of 1]
    heart_turn_counts [OF assms(1), of 2]
  show ?thesis by (simp add: eval_nat_numeral beat_char_three)
qed

text \<open>A state in which a turn changes nothing.\<close>

lemma heart_turns_still:
  assumes "heart_turn conf cf connected s = Inr (Some (b, s))"
  shows "heart_turns n conf cf connected s = Inr (Some s)"
  using assms by (induction n) auto

text \<open>The turns after the counter has reached its end, with a server to connect to.\<close>

definition reconnected :: "nat \<Rightarrow> heart_state \<Rightarrow> heart_state" where
  "reconnected n s =
     s\<lparr>hb_host := (Send_keep_alive CHR ''0'' ^^ n) (hb_host s), hb_sockets := hb_sockets s + n\<rparr>"

lemma heart_turns_reconnect:
  assumes "hb_flag s = 1" "h_count (hb_head s) = CHR ''3''" "get_ip_addr conf cf = Inr (Some cf')"
  shows "heart_turns n conf cf True s = Inr (Some (reconnected n s))"
  using assms
proof (induction n arbitrary: s)
  case (Suc n)
  have turn: "heart_turn conf cf True s = Inr (Some (True, reconnected 1 s))"
    using Suc.prems by (simp add: heart_turn_def reconnected_def Let_def)
  have "reconnected n (reconnected 1 s) = reconnected (Suc n) s"
    by (simp add: reconnected_def funpow_swap1)
  with Suc.IH [of "reconnected 1 s"] Suc.prems turn show ?case by (simp add: reconnected_def)
qed (simp add: reconnected_def)

text \<open>
  Before the first heartbeat (any count outside \<open>0\<close> to \<open>3\<close>) the watch never does anything: a
  server that dies before its first message is not noticed by it.
\<close>

lemma heart_watch_idle:
  assumes "hb_flag s = 1" "\<not> counting (h_count (hb_head s))" "h_count (hb_head s) \<noteq> CHR ''3''"
  shows "heart_turns n conf cf connected s = Inr (Some s)"
  using assms by (intro heart_turns_still [where b = True]) (simp add: heart_turn_def)

text \<open>
  At the end of the count the server is declared gone. With a server to connect to, the count is
  still at its end afterwards, so every later turn does the same again.
\<close>

lemma heart_gone:
  assumes "hb_flag s = 1" "h_count (hb_head s) = CHR ''3''" "get_ip_addr conf cf = Inr (Some cf')"
  shows "heart_turns (Suc n) conf cf connected s =
     Inr (Some (if connected then reconnected (Suc n) s
       else s\<lparr>hb_flag := 0, hb_host := Send_keep_alive CHR ''0'' (hb_host s)\<rparr>))"
proof (cases connected)
  case False
  let ?over = "s\<lparr>hb_flag := 0, hb_host := Send_keep_alive CHR ''0'' (hb_host s)\<rparr>"
  have "heart_turn conf cf connected s = Inr (Some (True, ?over))"
    using assms False by (simp add: heart_turn_def Let_def)
  moreover have "heart_turns n conf cf connected ?over = Inr (Some ?over)"
    by (rule heart_turns_still [where b = False]) (simp add: heart_turn_def)
  ultimately show ?thesis using False by simp
qed (use heart_turns_reconnect [OF assms, of "Suc n"] in simp)

section \<open>The table of watched files\<close>

text \<open>
  The array holds 128 entries; its names are strings that end. An event fits when its name is
  short enough for the arrays it is copied to.
\<close>

definition entry_ok :: "filename_fd_desc \<Rightarrow> bool" where
  "entry_ok f \<longleftrightarrow> length (ff_name f) = 32 \<and> terminated (ff_name f) \<and> length (ff_base_name f) = 128"

definition table_ok :: "watcher \<Rightarrow> bool" where
  "table_ok w \<longleftrightarrow> length (w_files w) = 128 \<and> (\<forall>f \<in> set (w_files w). entry_ok f)"

definition event_fits :: "string \<Rightarrow> nat \<times> string option \<Rightarrow> bool" where
  "event_fits dir ev \<longleftrightarrow>
     (case snd ev of
        None \<Rightarrow> True
      | Some raw \<Rightarrow> terminated raw \<and> length (cstr raw) < 32 \<and> length dir + length (cstr raw) < 128)"

definition creations :: "(nat \<times> string option) list \<Rightarrow> nat" where
  "creations evs = length (filter (\<lambda>(mask, name). name \<noteq> None \<and> bit mask IN_CREATE) evs)"

text \<open>The tasks an event starts, in order.\<close>

definition event_tasks :: "nat \<times> string option \<Rightarrow> task list" where
  "event_tasks ev =
     (case snd ev of
        None \<Rightarrow> []
      | Some raw \<Rightarrow>
          (if bit (fst ev) IN_OPEN then [Open_called (''open file'' @ cstr raw) (cstr raw)] else []) @
          (if bit (fst ev) IN_CLOSE_NOWRITE \<or> bit (fst ev) IN_CLOSE_WRITE
           then [Close_called (''close file'' @ cstr raw)] else []))"

lemma sprintf_names:
  "length s + length t < length dst \<Longrightarrow>
     \<exists>b. c_sprintf dst ''%s%s'' [PStr s, PStr t] = Inr (length (s @ t), b) \<and>
       length b = length dst"
  "no_nul t \<Longrightarrow> length t < length dst \<Longrightarrow>
     \<exists>b. c_sprintf dst ''%s'' [PStr t] = Inr (length t, b) \<and> length b = length dst \<and> terminated b \<and> cstr b = t"
  by (auto simp: c_sprintf_def format_eval store_at_room bind_res_def)

lemma add_created_result:
  assumes "table_ok w" "no_nul name" "length name < 32" "length dir + length name < 128"
  shows "if w_index w < 128
     then \<exists>w'. add_created dir name fd w = Inr w' \<and> table_ok w' \<and> w_index w' = w_index w + 1 \<and>
            w_tasks w' = w_tasks w
     else add_created dir name fd w = Inl Out_of_bounds"
proof (cases "w_index w < 128")
  case True
  then obtain f where f: "arr_get (w_files w) (int (w_index w)) = Inr f" "entry_ok f"
    using assms(1) by (auto simp: table_ok_def)
  obtain b c where b: "c_sprintf (ff_name f) ''%s'' [PStr name] = Inr (length name, b)" "length b = 32" "terminated b"
    and c: "c_sprintf (ff_base_name f) ''%s%s'' [PStr dir, PStr name] = Inr (length (dir @ name), c)" "length c = 128"
    using sprintf_names(1) [of dir name "ff_base_name f"] sprintf_names(2) [of name "ff_name f"] f(2) assms(2-4)
    by (auto simp: entry_ok_def)
  have "\<forall>g \<in> set ((w_files w)[w_index w := \<lparr>ff_fd = fd, ff_name = b, ff_base_name = c\<rparr>]). entry_ok g"
    using assms(1) b c set_update_subset_insert [of "w_files w" "w_index w"]
    by (fastforce simp: table_ok_def entry_ok_def)
  with True f b c assms(1) show ?thesis by (simp add: add_created_def table_ok_def)
next
  case False
  with assms(1) have "arr_get (w_files w) (int (w_index w)) = Inl Out_of_bounds"
    by (simp add: table_ok_def arr_get_def)
  with False show ?thesis by (simp add: add_created_def)
qed

lemma drop_deleted_result:
  "\<forall>f \<in> set gs. entry_ok f \<Longrightarrow>
     \<exists>gs' ep'. drop_deleted name gs ep = Inr (gs', ep') \<and> length gs' = length gs \<and> (\<forall>f \<in> set gs'. entry_ok f)"
proof (induction gs)
  case (Cons f gs)
  then show ?case by (auto simp: entry_ok_def c_read_def c_memset_def)
qed simp

lemma strcat_tail:
  assumes "no_nul p" "no_nul name" "length p + length name < n" "length p < n"
  shows "\<exists>b. c_strcat (p @ replicate (n - length p) NUL) (lit name) = Inr b \<and> cstr b = p @ name"
proof -
  have "replicate (n - length p) NUL = NUL # replicate (n - Suc (length p)) NUL"
    using assms(4) by (simp add: Suc_diff_Suc flip: replicate_Suc)
  then have "terminated (p @ replicate (n - length p) NUL)" "cstr (p @ replicate (n - length p) NUL) = p"
    using assms(1) by (simp_all add: cstr_no_nul_append cstr_Cons)
  with c_strcat_room [of "p @ replicate (n - length p) NUL" "lit name"] assms show ?thesis by auto
qed

lemma create_part:
  assumes "table_ok w" "no_nul name" "length name < 32" "length dir + length name < 128"
  shows "if c \<and> \<not> w_index w < 128
     then (if c then add_created dir name fd w else Inr w) = Inl Out_of_bounds
     else \<exists>w'. (if c then add_created dir name fd w else Inr w) = Inr w' \<and> table_ok w' \<and>
            w_index w' = w_index w + (if c then 1 else 0) \<and> w_tasks w' = w_tasks w"
  using add_created_result [OF assms, of fd] assms(1) by (auto split: if_splits)

lemma delete_part:
  assumes "table_ok w"
  shows "\<exists>w'. (if c
       then bind_res (drop_deleted name (take 128 (w_files w)) (w_epoll w)) (\<lambda>(gs, ep).
              Inr (w\<lparr>w_files := gs, w_epoll := ep\<rparr>))
       else Inr w) = Inr w' \<and> table_ok w' \<and> w_index w' = w_index w \<and> w_tasks w' = w_tasks w"
  using drop_deleted_result [of "take 128 (w_files w)" name "w_epoll w"] assms
  by (auto simp: table_ok_def)

lemma open_part:
  assumes "no_nul name" "length name < 32"
  shows "(if c
       then bind_res (c_strcat (''open file'' @ replicate 1015 NUL) (lit name)) (\<lambda>b.
              Inr (w\<lparr>w_tasks := w_tasks w @ [Open_called (cstr b) name]\<rparr>))
       else Inr w) =
     Inr (w\<lparr>w_tasks := w_tasks w @ (if c then [Open_called (''open file'' @ name) name] else [])\<rparr>)"
proof -
  obtain b where "c_strcat (''open file'' @ replicate 1015 NUL) (lit name) = Inr b" "cstr b = ''open file'' @ name"
    using strcat_tail [of "''open file''" name 1024] assms by auto
  then show ?thesis by simp
qed

lemma close_part:
  assumes "no_nul name" "length name < 32"
  shows "(if c
       then bind_res (c_strcat (''close file'' @ replicate 1014 NUL) (lit name)) (\<lambda>b.
              Inr (w\<lparr>w_tasks := w_tasks w @ [Close_called (cstr b)]\<rparr>))
       else Inr w) =
     Inr (w\<lparr>w_tasks := w_tasks w @ (if c then [Close_called (''close file'' @ name)] else [])\<rparr>)"
proof -
  obtain b where "c_strcat (''close file'' @ replicate 1014 NUL) (lit name) = Inr b" "cstr b = ''close file'' @ name"
    using strcat_tail [of "''close file''" name 1024] assms by auto
  then show ?thesis by simp
qed

lemma table_ok_tasks [simp]: "table_ok (w\<lparr>w_tasks := ts\<rparr>) = table_ok w"
  by (simp add: table_ok_def)

lemma handle_one_result:
  assumes "table_ok w" "event_fits dir ev"
  shows "if snd ev \<noteq> None \<and> bit (fst ev) IN_CREATE \<and> \<not> w_index w < 128
     then handle_one dir fd ev w = Inl Out_of_bounds
     else \<exists>w'. handle_one dir fd ev w = Inr w' \<and> table_ok w' \<and>
            w_index w' = w_index w + creations [ev] \<and> w_tasks w' = w_tasks w @ event_tasks ev"
proof (cases "snd ev")
  case None
  with assms show ?thesis by (auto simp: handle_one_def creations_def event_tasks_def split: prod.split)
next
  case (Some raw)
  let ?n = "cstr raw" and ?c = "bit (fst ev) IN_CREATE"
  have n: "c_read raw = Inr ?n" "no_nul ?n" "length ?n < 32" "length dir + length ?n < 128"
    using assms(2) Some by (simp_all add: event_fits_def c_read_def)
  note create = create_part [OF assms(1) n(2-4), of ?c fd]
  have count: "creations [ev] = (if ?c then 1 else 0)"
    using Some by (simp add: creations_def case_prod_beta)
  show ?thesis
  proof (cases "?c \<and> \<not> w_index w < 128")
    case True
    with create Some n(1) show ?thesis by (simp add: handle_one_def)
  next
    case False
    then obtain w1 where w1: "(if ?c then add_created dir ?n fd w else Inr w) = Inr w1" "table_ok w1"
        "w_index w1 = w_index w + (if ?c then 1 else 0)" "w_tasks w1 = w_tasks w"
      using create [unfolded if_not_P [OF False]] by blast
    obtain w2 where w2: "(if bit (fst ev) IN_DELETE
         then bind_res (drop_deleted ?n (take 128 (w_files w1)) (w_epoll w1)) (\<lambda>(gs, ep).
                Inr (w1\<lparr>w_files := gs, w_epoll := ep\<rparr>))
         else Inr w1) = Inr w2" "table_ok w2" "w_index w2 = w_index w1" "w_tasks w2 = w_tasks w1"
      using delete_part [OF w1(2)] by blast
    have "handle_one dir fd ev w = Inr (w2\<lparr>w_tasks := w_tasks w2 @ event_tasks ev\<rparr>)"
      by (simp only: handle_one_def Some option.case n(1) bind_res_Inr w1(1) w2(1) open_part [OF n(2,3)]
          close_part [OF n(2,3)]) (simp add: event_tasks_def Some)
    with w1 w2 False count show ?thesis by auto
  qed
qed

lemma creations_append: "creations (xs @ ys) = creations xs + creations ys"
  by (simp add: creations_def)

lemma creations_Cons: "creations (ev # evs) = creations [ev] + creations evs"
  by (simp add: creations_def)

text \<open>
  What one batch of file events does, as long as the files ever created are at most 128; the
  next creation writes past the end of the array.
\<close>

lemma handle_events_result:
  assumes "table_ok w" "\<forall>ev \<in> set evs. event_fits dir ev" "w_index w \<le> 128"
  shows "if w_index w + creations evs \<le> 128
     then \<exists>w'. handle_events dir fds evs w = Inr w' \<and> table_ok w' \<and>
            w_index w' = w_index w + creations evs \<and>
            w_tasks w' = w_tasks w @ concat (map event_tasks evs)
     else handle_events dir fds evs w = Inl Out_of_bounds"
  using assms
proof (induction evs arbitrary: w fds)
  case Nil
  then show ?case by (simp add: creations_def)
next
  case (Cons ev evs)
  note one = handle_one_result [of w dir ev "fds 0"]
  have create: "creations [ev] = (if snd ev \<noteq> None \<and> bit (fst ev) IN_CREATE then 1 else 0)"
    by (simp add: creations_def case_prod_beta)
  show ?case
  proof (cases "snd ev \<noteq> None \<and> bit (fst ev) IN_CREATE \<and> \<not> w_index w < 128")
    case True
    with one create Cons.prems show ?thesis by (simp add: creations_Cons [of ev evs])
  next
    case False
    then obtain w1 where w1: "handle_one dir (fds 0) ev w = Inr w1" "table_ok w1"
        "w_index w1 = w_index w + creations [ev]" "w_tasks w1 = w_tasks w @ event_tasks ev"
      using one [unfolded if_not_P [OF False]] Cons.prems(1,2) by auto
    have "w_index w1 \<le> 128" using False w1(3) create Cons.prems(3) by (auto split: if_splits)
    with Cons.IH [OF w1(2)] Cons.prems(2) have IH: "if w_index w1 + creations evs \<le> 128
       then \<exists>w'. handle_events dir (\<lambda>i. fds (Suc i)) evs w1 = Inr w' \<and> table_ok w' \<and>
            w_index w' = w_index w1 + creations evs \<and>
            w_tasks w' = w_tasks w1 @ concat (map event_tasks evs)
       else handle_events dir (\<lambda>i. fds (Suc i)) evs w1 = Inl Out_of_bounds"
      by simp
    have total: "w_index w + creations (ev # evs) = w_index w1 + creations evs"
      using w1(3) creations_Cons [of ev evs] by simp
    show ?thesis
    proof (cases "w_index w1 + creations evs \<le> 128")
      case True
      with IH [unfolded if_P [OF True]] show ?thesis unfolding total using w1(1,4) by auto
    next
      case False
      with IH [unfolded if_not_P [OF False]] show ?thesis unfolding total using w1(1) by simp
    qed
  qed
qed

text \<open>
  Epoll never watches more than it accepts: where \<open>open\<close> answers descriptors of regular files
  only, no created file is ever watched, and the reads of the main loop do not happen.
\<close>

definition epoll_within :: "watcher \<Rightarrow> watcher \<Rightarrow> bool" where
  "epoll_within w w' \<longleftrightarrow>
     w_pollable w' = w_pollable w \<and> w_epoll w' \<subseteq> w_epoll w \<union> {fd. w_pollable w fd}"

lemma epoll_within_simps [simp]:
  "epoll_within w w" "epoll_within w (w'\<lparr>w_tasks := ts\<rparr>) = epoll_within w w'"
  by (simp_all add: epoll_within_def)

lemma epoll_within_trans: "epoll_within w1 w2 \<Longrightarrow> epoll_within w2 w3 \<Longrightarrow> epoll_within w1 w3"
  by (auto simp: epoll_within_def)

lemma add_created_epoll: "add_created dir name fd w = Inr w' \<Longrightarrow> epoll_within w w'"
  by (auto simp: add_created_def client_addfd_def epoll_within_def bind_res_eq_Inr split: if_splits)

lemma drop_deleted_epoll: "drop_deleted name gs ep = Inr (gs', ep') \<Longrightarrow> ep' \<subseteq> ep"
  by (induction gs arbitrary: gs') (auto simp: rm_fd_def bind_res_eq_Inr split: if_splits)

lemma handle_one_epoll:
  assumes "handle_one dir fd ev w = Inr w'"
  shows "epoll_within w w'"
proof (cases "snd ev")
  case (Some raw)
  from assms [unfolded handle_one_def Some option.case bind_res_eq_Inr] obtain name w1 w2 w3 where
    created: "(if bit (fst ev) IN_CREATE then add_created dir name fd w else Inr w) = Inr w1"
    and dropped: "(if bit (fst ev) IN_DELETE
       then bind_res (drop_deleted name (take 128 (w_files w1)) (w_epoll w1)) (\<lambda>(gs, ep).
              Inr (w1\<lparr>w_files := gs, w_epoll := ep\<rparr>))
       else Inr w1) = Inr w2"
    and opened: "(if bit (fst ev) IN_OPEN
       then bind_res (c_strcat (''open file'' @ replicate 1015 NUL) (lit name)) (\<lambda>b.
              Inr (w2\<lparr>w_tasks := w_tasks w2 @ [Open_called (cstr b) name]\<rparr>))
       else Inr w2) = Inr w3"
    and closed: "(if bit (fst ev) IN_CLOSE_NOWRITE \<or> bit (fst ev) IN_CLOSE_WRITE
       then bind_res (c_strcat (''close file'' @ replicate 1014 NUL) (lit name)) (\<lambda>b.
              Inr (w3\<lparr>w_tasks := w_tasks w3 @ [Close_called (cstr b)]\<rparr>))
       else Inr w3) = Inr w'"
    by blast
  have "epoll_within w w1" using created by (auto dest: add_created_epoll split: if_splits)
  moreover have "epoll_within w1 w2"
    using dropped drop_deleted_epoll [of name "take 128 (w_files w1)" "w_epoll w1"]
    by (auto simp: epoll_within_def bind_res_eq_Inr split: if_splits)
  moreover have "epoll_within w2 w3" using opened by (auto simp: bind_res_eq_Inr split: if_splits)
  moreover have "epoll_within w3 w'" using closed by (auto simp: bind_res_eq_Inr split: if_splits)
  ultimately show ?thesis by (blast intro: epoll_within_trans)
qed (use assms in \<open>simp add: handle_one_def\<close>)

lemma handle_events_epoll: "handle_events dir fds evs w = Inr w' \<Longrightarrow> epoll_within w w'"
  by (induction evs arbitrary: fds w) (auto simp: bind_res_eq_Inr dest: handle_one_epoll intro: epoll_within_trans)

definition sample_watcher :: "nat \<Rightarrow> watcher" where
  "sample_watcher i =
     \<lparr>w_files = replicate 128 \<lparr>ff_fd = 0, ff_name = c_memset 32, ff_base_name = c_memset 128\<rparr>,
      w_index = i, w_epoll = {}, w_pollable = (\<lambda>_. True), w_tasks = []\<rparr>"

section \<open>The main loop\<close>

text \<open>All events of the directory, and the reads that leave room for the terminator.\<close>

definition report_events :: "report \<Rightarrow> (nat \<times> string option) list" where
  "report_events r = (case r of Directory_ready evs _ _ \<Rightarrow> evs | File_ready _ \<Rightarrow> [])"

definition report_safe :: "report \<Rightarrow> bool" where
  "report_safe r =
     (case r of Directory_ready _ _ _ \<Rightarrow> True | File_ready a \<Rightarrow> (\<exists>bs. a = Some bs \<and> length bs < 1024))"

definition report_possible :: "string \<Rightarrow> report \<Rightarrow> bool" where
  "report_possible dir r =
     (case r of
        Directory_ready evs _ ret \<Rightarrow> (\<forall>ev \<in> set evs. event_fits dir ev) \<and> ret \<noteq> - 1
      | File_ready a \<Rightarrow> (\<forall>bs. a = Some bs \<longrightarrow> length bs \<le> 1024))"

lemma report_simps [simp]:
  "report_events (Directory_ready evs fds ret) = evs" "report_events (File_ready answer) = []"
  "report_safe (Directory_ready evs fds ret)"
  by (simp_all add: report_events_def report_safe_def)

lemma read_created_result:
  assumes "length readbuf = 1024" "\<forall>bs. answer = Some bs \<longrightarrow> length bs \<le> 1024"
  shows "if report_safe (File_ready answer)
     then \<exists>b. read_created answer readbuf = Inr b \<and> length b = 1024
     else read_created answer readbuf = Inl Out_of_bounds"
  using assms by (cases answer) (auto simp: read_created_def report_safe_def arr_set_def)

lemma watch_loop_result:
  assumes "table_ok w" "\<forall>r \<in> set reports. report_possible dir r" "w_index w \<le> 128" "length readbuf = 1024"
  shows "if w_index w + creations (concat (map report_events reports)) \<le> 128 \<and> (\<forall>r \<in> set reports. report_safe r)
     then \<exists>b w'. watch_loop dir reports readbuf w = Inr (True, b, w') \<and> length b = 1024 \<and> table_ok w' \<and>
            w_index w' = w_index w + creations (concat (map report_events reports)) \<and>
            w_tasks w' = w_tasks w @ concat (map event_tasks (concat (map report_events reports)))
     else watch_loop dir reports readbuf w = Inl Out_of_bounds"
  using assms
proof (induction reports arbitrary: w readbuf)
  case Nil
  then show ?case by (simp add: creations_def)
next
  case (Cons r reports)
  show ?case
  proof (cases r)
    case (Directory_ready evs fds ret)
    have evs: "\<forall>ev \<in> set evs. event_fits dir ev" "ret \<noteq> - 1"
      using Cons.prems(2) Directory_ready by (simp_all add: report_possible_def)
    note one = handle_events_result [OF Cons.prems(1) evs(1) Cons.prems(3), of fds]
    show ?thesis
    proof (cases "w_index w + creations evs \<le> 128")
      case True
      then obtain w1 where w1: "handle_events dir fds evs w = Inr w1" "table_ok w1"
          "w_index w1 = w_index w + creations evs" "w_tasks w1 = w_tasks w @ concat (map event_tasks evs)"
        using one by auto
      have "watch_loop dir (r # reports) readbuf w = watch_loop dir reports readbuf w1"
        using Directory_ready w1(1) evs(2) by simp
      then show ?thesis
        using Cons.IH [of w1 readbuf] Cons.prems(2,4) True w1(2-4) Directory_ready
        by (auto simp: creations_append add.assoc split: if_splits)
    next
      case False
      with one Directory_ready show ?thesis by (simp add: creations_append)
    qed
  next
    case (File_ready answer)
    have "\<forall>bs. answer = Some bs \<longrightarrow> length bs \<le> 1024"
      using Cons.prems(2) File_ready by (simp add: report_possible_def)
    note one = read_created_result [OF Cons.prems(4) this]
    show ?thesis
    proof (cases "report_safe (File_ready answer)")
      case True
      then obtain b where "read_created answer readbuf = Inr b" "length b = 1024" using one by auto
      then show ?thesis using Cons.IH [of w b] Cons.prems(1-3) True File_ready
        by simp
    next
      case False
      with one File_ready show ?thesis by simp
    qed
  qed
qed



end
