(* ===== verification/Round_Trip.thy ===== *)
theory Round_Trip
  imports Pieces Client_Main
begin

text \<open>
  What the receiver makes of a backup. The server sends a file in frames of 4095 bytes, the
  client takes of each the string up to its first NUL and truncates the file at every message
  until 4096 bytes have come. A backup with the holes that the way to the server leaves
  (\<open>remains\<close> in Pieces) therefore comes back as its last piece.
\<close>

section \<open>Frames\<close>

lemma frames_map:
  "0 < n \<Longrightarrow> frames n bs = map (\<lambda>k. take n (drop (n * k) bs)) [0..<(length bs + n - 1) div n]"
proof (induction n bs rule: frames.induct)
  case (1 n bs)
  show ?case
  proof (cases "bs = []")
    case True
    then show ?thesis using "1.prems" by simp
  next
    case False
    let ?q = "(length (drop n bs) + n - 1) div n"
    have "(length bs + n - 1) div n = Suc ?q"
    proof (cases "length bs \<le> n")
      case True
      then have "(length bs + n - 1) div n = 1" using False "1.prems"
        by (cases bs) (auto intro!: div_nat_eqI)
      then show ?thesis using True "1.prems" by simp
    next
      case f: False
      then have shift: "length bs + n - 1 = (length (drop n bs) + n - 1) + n" by simp
      show ?thesis unfolding shift using "1.prems" div_add_self2 [of n "length (drop n bs) + n - 1"] by simp
    qed
    moreover have "[0..<Suc ?q] = 0 # map Suc [0..<?q]" by (simp add: map_Suc_upt upt_conv_Cons del: upt_Suc)
    moreover have "frames n bs = take n bs # frames n (drop n bs)" by (rule frames_step [OF "1.prems" False])
    moreover have "frames n (drop n bs) = map (\<lambda>k. take n (drop (n * k) (drop n bs))) [0..<?q]"
      using "1.IH" False "1.prems" by blast
    moreover have "drop (n * k) (drop n bs) = drop (n * Suc k) bs" for k by (simp add: add.commute)
    ultimately show ?thesis by (simp only: list.map map_map comp_def mult_0_right drop_0)
  qed
qed

section \<open>What is received of a content\<close>

definition received :: "string \<Rightarrow> string" where
  "received G = put_pieces (map cstr (frames 4095 G)) 0 []"

lemma put_pieces_first:
  "length p \<le> 4096 \<Longrightarrow> put_pieces (p # ps) 0 old = put_pieces (p # ps) 0 []"
  by (simp add: Let_def)

lemma received_old:
  "G \<noteq> [] \<Longrightarrow> put_pieces (map cstr (frames 4095 G)) 0 old = received G"
  unfolding received_def
  using put_pieces_first [of "cstr (take 4095 G)" "map cstr (frames 4095 (drop 4095 G))" old]
    length_takeWhile_le [of "\<lambda>c. c \<noteq> NUL" "take 4095 G"]
  by (simp add: frames_step cstr_def)

lemma received_whole:
  assumes "no_nul G" "G \<noteq> []"
  shows "received G = (if length G = 4096 then drop 4095 G else G)"
proof -
  have "cstr c = c" if "c \<in> set (frames 4095 G)" for c
  proof -
    have "set c \<subseteq> set G" using that set_concat [of "frames 4095 G"] concat_frames [of 4095 G] by auto
    with assms(1) show ?thesis by (intro cstr_idem) (auto simp: no_nul_def)
  qed
  then have "map cstr (frames 4095 G) = frames 4095 G" by (intro map_idI)
  then show ?thesis using assms(2) by (simp add: received_def put_frames)
qed

text \<open>While all pieces together have at most 4096 bytes, the last is all that stays.\<close>

lemma put_pieces_last:
  "ps \<noteq> [] \<Longrightarrow> count + int (sum_list (map length ps)) \<le> 4096 \<Longrightarrow> put_pieces ps count old = last ps"
proof (induction ps arbitrary: count old)
  case (Cons p ps)
  then show ?case by (cases "ps = []") (auto simp: Let_def)
qed simp

section \<open>A backup with holes\<close>

text \<open>Frame \<open>k\<close> of the remains is piece \<open>k\<close> and then NULs.\<close>

lemma frame_of_remains:
  assumes "k < piece_count F" "no_nul F"
  shows "cstr (take 4095 (drop (4095 * k) (remains F []))) = piece F k"
proof -
  let ?R = "remains F []" and ?n = "length (piece F k)"
  have n: "?n < 4095" using length_piece_bound [of F k] by simp
  note R = remains_nth [of F "[]"]
  have inside: "covers (cut_blocks F) (4095 * k + j) \<longleftrightarrow> j < ?n" if "j < 4095" for j
  proof
    assume "covers (cut_blocks F) (4095 * k + j)"
    then obtain i where i: "4095 * i \<le> 4095 * k + j" "4095 * k + j < 4095 * i + length (piece F i)"
      by (auto simp: covers_cut)
    have "i = k"
      using i that length_piece_bound [of F i] by simp
    with i show "j < ?n" by simp
  qed (use assms(1) in \<open>auto simp: covers_cut\<close>)
  let ?f = "take 4095 (drop (4095 * k) ?R)"
  have at: "?f ! j = (if j < ?n then piece F k ! j else NUL)" if "j < length ?f" for j
  proof -
    have j: "j < 4095" "4095 * k + j < length ?R" using that by (simp, simp, linarith)
    then have "?f ! j = ?R ! (4095 * k + j)" by simp
    also have "\<dots> = (if j < ?n then F ! (4095 * k + j) else NUL)"
      using R j inside [OF j(1)] by simp
    finally show ?thesis by (simp add: nth_piece)
  qed
  have "?n \<le> length ?f"
  proof (cases "piece F k = []")
    case False
    then have "covers (cut_blocks F) (4095 * k + (?n - 1))" using inside [of "?n - 1"] n by simp
    with R have "4095 * k + (?n - 1) < length ?R" by blast
    with n False show ?thesis by simp
  qed simp
  then have f: "?f = piece F k @ replicate (length ?f - ?n) NUL"
    using at by (intro nth_equalityI) (auto simp: nth_append)
  show ?thesis by (subst f) (simp add: cstr_no_nul_append assms(2))
qed

lemma last_piece:
  assumes "0 < length F" "length F < 79 * 4096"
  defines "m \<equiv> if length F < 8192 then 0 else length F div 4096"
  shows "m < piece_count F" "piece F m \<noteq> []" "\<forall>k. m < k \<and> k < piece_count F \<longrightarrow> piece F k = []" "m \<le> 78"
proof -
  have small: "length F div 4096 \<le> 78" using assms(2) by simp
  then show "m \<le> 78" by (simp add: m_def)
  show "m < piece_count F" by (simp add: m_def piece_count_def)
  have one: "length F div 4096 \<le> 1" if "length F < 8192" using that by simp
  show "piece F m \<noteq> []"
  proof (cases "length F < 8192")
    case True
    then show ?thesis using assms(1) by (simp add: m_def piece_def)
  next
    case False
    then have "2 \<le> length F div 4096" by simp
    then show ?thesis using False small piece_empty [of m F] gap_small [of m]
      by (simp add: m_def piece_count_def)
  qed
  show "\<forall>k. m < k \<and> k < piece_count F \<longrightarrow> piece F k = []"
  proof (intro allI impI, elim conjE)
    fix k assume "m < k" "k < piece_count F"
    then have "k = 1" using one by (auto simp: m_def piece_count_def split: if_splits)
    then show "piece F k = []" by (simp add: piece_def gap_def)
  qed
qed

lemma frames_of_remains:
  assumes "0 < length F" "length F < 79 * 4096" "no_nul F"
  shows "map cstr (frames 4095 (remains F [])) =
    map (piece F) [0..<Suc (if length F < 8192 then 0 else length F div 4096)]"
proof -
  define m where "m = (if length F < 8192 then 0 else length F div 4096)"
  let ?R = "remains F []"
  note m = last_piece [OF assms(1,2), folded m_def]
  have len: "length ?R = 4095 * m + length (piece F m)"
  proof -
    have "i < length ?R \<longleftrightarrow> i < 4095 * m + length (piece F m)" for i
    proof -
      have "i < length ?R \<longleftrightarrow> (\<exists>k < piece_count F. piece F k \<noteq> [] \<and> i < 4095 * k + length (piece F k))"
        unfolding remains_def less_length_splices by (auto simp: cut_blocks_def)
      also have "\<dots> \<longleftrightarrow> i < 4095 * m + length (piece F m)"
      proof
        assume "\<exists>k < piece_count F. piece F k \<noteq> [] \<and> i < 4095 * k + length (piece F k)"
        then obtain k where k: "k < piece_count F" "piece F k \<noteq> []" "i < 4095 * k + length (piece F k)" by blast
        then have "k \<le> m" using m(3) by (meson not_le)
        then consider "k = m" | "k + 1 \<le> m" by linarith
        then show "i < 4095 * m + length (piece F m)"
        proof cases
          case 2
          then have "4095 * (k + 1) \<le> 4095 * m" by (rule mult_le_mono2)
          moreover have "i < 4095 * (k + 1)" using k(3) length_piece_bound [of F k] by simp
          ultimately show ?thesis by (meson less_le_trans trans_less_add1)
        qed (use k in simp)
      qed (use m in blast)
      finally show ?thesis .
    qed
    then show ?thesis by (meson less_irrefl linorder_neqE_nat)
  qed
  have "(length ?R + 4095 - 1) div 4095 = Suc m"
    unfolding len using m(2) length_piece_bound [of F m]
    by (intro div_nat_eqI) (auto simp: Suc_le_eq)
  then have "map cstr (frames 4095 ?R) = map (\<lambda>k. cstr (take 4095 (drop (4095 * k) ?R))) [0..<Suc m]"
    by (simp add: frames_map comp_def del: upt_Suc)
  also have "\<dots> = map (piece F) [0..<Suc m]"
    using frame_of_remains [OF _ assms(3)] m(1) by (intro map_cong) auto
  finally show ?thesis by (simp only: m_def)
qed

lemma pieces_total: "2 * sum_list (map (\<lambda>k. length (piece F k)) [0..<Suc m]) \<le> 2046 + m * (m - 1)" if "m \<le> 1024"
  using that
proof (induction m)
  case (Suc m)
  have "length (piece F (Suc m)) \<le> m" using gap_small [of "Suc m"] Suc.prems by (simp add: length_piece)
  moreover have "Suc m * (Suc m - 1) = m * (m - 1) + 2 * m" by (cases m) simp_all
  ultimately show ?case using Suc by simp
qed (use length_piece_bound [of F 0] in simp)

text \<open>
  A file that went to the server and comes back: whole below 1024 bytes, its first 1023 bytes
  below 8192, and then only its last piece, of at most 77 bytes.
\<close>

lemma received_remains:
  assumes "0 < length F" "length F < 79 * 4096" "no_nul F"
  shows "received (remains F []) =
    (if length F < 8192 then take 1023 F
     else take (length F div 4096 - 1) (drop (4095 * (length F div 4096)) F))"
proof -
  let ?m = "if length F < 8192 then 0 else length F div 4096"
  note m = last_piece [OF assms(1,2)]
  have "?m * (?m - 1) \<le> 78 * 77" using m(4) by (intro mult_le_mono) simp_all
  then have "sum_list (map (\<lambda>k. length (piece F k)) [0..<Suc ?m]) \<le> 4096"
    using pieces_total [of ?m F] m(4) by linarith
  then have "put_pieces (map (piece F) [0..<Suc ?m]) 0 [] = piece F ?m"
    using put_pieces_last [of "map (piece F) [0..<Suc ?m]" 0 "[]"] by (simp add: comp_def)
  then have "received (remains F []) = piece F ?m"
    unfolding received_def frames_of_remains [OF assms] .
  then show ?thesis using m(4) gap_small [of ?m] by (auto simp: piece_def)
qed

end
