(* ===== verification/Client_Live.thy ===== *)
theory Client_Live
  imports Client_Main
begin

text \<open>
  The client's two threads together: \<open>main\<close> of \<open>client/inotify.cpp\<close> starts \<open>heart_handler\<close> and
  \<open>Recv_file\<close> with the same flag, each with its own copy, and they share the global \<open>head_file\<close>:
  the receiver overwrites it with every message, the watch counts in its member \<open>count\<close>. A run
  is a list of turns of the watch and answers of \<open>recv\<close> in any order; a turn and the taking of
  one message are atomic here.
\<close>

section \<open>The threads side by side\<close>

record live =
  lv_recv :: receiver
  lv_flag :: int
  lv_sockets :: nat

datatype live_act =
    Turn "read_event list option" bool
  | Arrive recv_event

definition heart_of :: "live \<Rightarrow> heart_state" where
  "heart_of s =
     \<lparr>hb_flag = lv_flag s, hb_head = rc_head (lv_recv s), hb_host = rc_host (lv_recv s),
      hb_sockets = lv_sockets s\<rparr>"

definition put_heart :: "heart_state \<Rightarrow> live \<Rightarrow> live" where
  "put_heart t s =
     \<lparr>lv_recv = (lv_recv s)\<lparr>rc_head := hb_head t, rc_host := hb_host t\<rparr>, lv_flag = hb_flag t,
      lv_sockets = hb_sockets t\<rparr>"

text \<open>\<open>None\<close> is the end of the process: \<open>exit\<close> in \<open>get_ip_addr\<close>, or at the end of the stream.\<close>

definition live_do :: "config \<Rightarrow> live_act \<Rightarrow> live \<Rightarrow> live option res" where
  "live_do cf a s =
     (case a of
        Turn conf connected \<Rightarrow>
          bind_res (heart_turn conf cf connected (heart_of s)) (\<lambda>r. Inr (case r of
            None \<Rightarrow> None
          | Some (_, t) \<Rightarrow> Some (put_heart t s)))
      | Arrive ev \<Rightarrow>
          bind_res (recv_loop [ev] (lv_recv s)) (\<lambda>(e, r). Inr
            (if e = Exited_offline then None else Some (s\<lparr>lv_recv := r\<rparr>))))"

fun live_run :: "config \<Rightarrow> live_act list \<Rightarrow> live \<Rightarrow> live option res" where
  "live_run cf [] s = Inr (Some s)"
| "live_run cf (a # acts) s =
     bind_res (live_do cf a s) (\<lambda>r. case r of None \<Rightarrow> Inr None | Some s' \<Rightarrow> live_run cf acts s')"

lemma live_run_append:
  "live_run cf (xs @ ys) s =
     bind_res (live_run cf xs s) (\<lambda>r. case r of None \<Rightarrow> Inr None | Some s' \<Rightarrow> live_run cf ys s')"
  by (induction xs arbitrary: s) (auto simp: bind_res_def split: sum.splits option.splits)

lemma live_turns:
  "live_run cf (replicate n (Turn conf connected)) s =
     bind_res (heart_turns n conf cf connected (heart_of s)) (\<lambda>r. Inr (case r of
       None \<Rightarrow> None | Some t \<Rightarrow> Some (put_heart t s)))"
proof (induction n arbitrary: s)
  case (Suc n)
  have "heart_of (put_heart t s) = t" "put_heart t' (put_heart t s) = put_heart t' s" for t t'
    by (simp_all add: heart_of_def put_heart_def)
  with Suc.IH show ?case
    by (auto simp: live_do_def bind_res_def split: sum.splits option.splits)
qed (simp add: heart_of_def put_heart_def)

section \<open>A server that keeps beating\<close>

text \<open>
  A message of the server, whole and well-formed. A heartbeat sets the count to \<open>0\<close>; the pieces of
  a file carry the count \<open>0\<close> that \<open>recover\<close> of \<open>server/monitor/monitor.cpp\<close> puts in, so they reset the watch
  too.
\<close>

definition server_message :: "recv_data \<Rightarrow> bool" where
  "server_message m \<longleftrightarrow> good_message m \<and> (is_beat m \<or> h_count m = CHR ''0'')"

fun live_legal :: "live_act \<Rightarrow> bool" where
  "live_legal (Arrive (Rv_bytes bs)) \<longleftrightarrow> (\<exists>m. server_message m \<and> bs = recv_data_image m)"
| "live_legal (Arrive Rv_again) \<longleftrightarrow> True"
| "live_legal (Arrive _) \<longleftrightarrow> False"
| "live_legal (Turn _ _) \<longleftrightarrow> True"

text \<open>The turns since the last message, and that there are never four of them.\<close>

fun is_message :: "live_act \<Rightarrow> bool" where
  "is_message (Arrive (Rv_bytes _)) \<longleftrightarrow> True"
| "is_message _ \<longleftrightarrow> False"

fun is_turn :: "live_act \<Rightarrow> bool" where
  "is_turn (Turn _ _) \<longleftrightarrow> True"
| "is_turn _ \<longleftrightarrow> False"

fun silence :: "nat \<Rightarrow> live_act list \<Rightarrow> nat" where
  "silence k [] = k"
| "silence k (a # acts) =
     silence (if is_message a then 0 else if is_turn a then Suc k else k) acts"

definition calm :: "nat \<Rightarrow> live_act list \<Rightarrow> bool" where
  "calm k acts \<longleftrightarrow> (\<forall>n \<le> length acts. silence k (take n acts) \<le> 3)"

lemma calm_Cons: "calm k (a # acts) \<longleftrightarrow> k \<le> 3 \<and> calm (silence k [a]) acts"
proof -
  have "(\<forall>n \<le> Suc m. P n) \<longleftrightarrow> P 0 \<and> (\<forall>n \<le> m. P (Suc n))" for m and P :: "nat \<Rightarrow> bool"
    by (metis Suc_le_mono le0 not0_implies_Suc)
  then show ?thesis by (simp add: calm_def)
qed

text \<open>The messages of a run.\<close>

fun arrived :: "live_act list \<Rightarrow> recv_data list" where
  "arrived [] = []"
| "arrived (Arrive (Rv_bytes bs) # acts) = recv_data_of bs # arrived acts"
| "arrived (_ # acts) = arrived acts"

definition watching :: "nat \<Rightarrow> live \<Rightarrow> bool" where
  "watching k s \<longleftrightarrow>
     lv_flag s = 1 \<and> wf_recv_data (rc_head (lv_recv s)) \<and> h_count (rc_head (lv_recv s)) = beat_char k"

lemma watching_turn:
  assumes "watching k s" "k < 3"
  shows "\<exists>s'. live_do cf (Turn conf connected) s = Inr (Some s') \<and> watching (Suc k) s' \<and>
     lv_sockets s' = lv_sockets s \<and> rc_count (lv_recv s') = rc_count (lv_recv s) \<and>
     rc_host (lv_recv s') = rc_host (lv_recv s)"
  using assms beat_chars(3) [OF assms(2)]
  by (simp add: live_do_def heart_turn_def heart_of_def put_heart_def watching_def wf_recv_data_def)

lemma watching_message:
  assumes "watching k s" "server_message m"
  shows "\<exists>s'. live_do cf (Arrive (Rv_bytes (recv_data_image m))) s = Inr (Some s') \<and> watching 0 s' \<and>
     lv_sockets s' = lv_sockets s \<and>
     (rc_count (lv_recv s'), rc_host (lv_recv s')) = absorb m (rc_count (lv_recv s), rc_host (lv_recv s))"
proof -
  let ?r = "(lv_recv s)\<lparr>rc_head := m\<rparr>"
  from assms(2) have m: "good_message m" "wf_recv_data m" by (simp_all add: server_message_def good_message_def)
  obtain r where r: "take_message ?r = Inr r" "wf_recv_data (rc_head r)"
    "(rc_count r, rc_host r) = absorb m (rc_count (lv_recv s), rc_host (lv_recv s))"
    using take_message_good [of ?r] m(1) by auto
  moreover have "h_count (rc_head r) = beat_char 0"
    using r(1) assms(2)
    by (auto simp: take_message_def server_message_def is_beat_def beat_chars bind_res_eq_Inr Let_def split: if_splits)
  ultimately show ?thesis
    using assms(1) m(2) by (simp add: live_do_def recv_into_head_image watching_def)
qed

lemma calm_run:
  assumes "watching k s" "calm k acts" "\<forall>a \<in> set acts. live_legal a"
  shows "\<exists>s'. live_run cf acts s = Inr (Some s') \<and> watching (silence k acts) s' \<and>
     lv_sockets s' = lv_sockets s \<and>
     (rc_count (lv_recv s'), rc_host (lv_recv s')) =
       fold absorb (arrived acts) (rc_count (lv_recv s), rc_host (lv_recv s))"
  using assms
proof (induction acts arbitrary: k s)
  case (Cons a acts)
  from Cons.prems(2) have calm: "k \<le> 3" "calm (silence k [a]) acts" by (auto simp: calm_Cons)
  have acts: "\<forall>a \<in> set acts. live_legal a" using Cons.prems(3) by simp
  consider conf connected where "a = Turn conf connected" "k < 3"
    | m where "a = Arrive (Rv_bytes (recv_data_image m))" "server_message m"
    | "a = Arrive Rv_again"
  proof (cases a)
    case (Turn conf connected)
    moreover have "silence k [a] \<le> 3" using calm(2) by (cases acts) (auto simp: calm_def)
    ultimately show ?thesis using that(1) by simp
  next
    case (Arrive ev)
    then show ?thesis using that(2,3) Cons.prems(3) by (cases ev) auto
  qed
  then show ?case
  proof cases
    case 1
    from watching_turn [OF Cons.prems(1) 1(2), of cf conf connected] obtain s1 where
      "live_do cf a s = Inr (Some s1)" "watching (Suc k) s1" "lv_sockets s1 = lv_sockets s"
      "rc_count (lv_recv s1) = rc_count (lv_recv s)" "rc_host (lv_recv s1) = rc_host (lv_recv s)"
      using 1 by auto
    with Cons.IH [of "Suc k" s1] calm(2) acts 1 show ?thesis by simp
  next
    case 2
    then have "recv_data_of (recv_data_image m) = m"
      by (simp add: server_message_def good_message_def recv_data_of_image)
    moreover from watching_message [OF Cons.prems(1) 2(2), of cf] obtain s1 where
      "live_do cf a s = Inr (Some s1)" "watching 0 s1" "lv_sockets s1 = lv_sockets s"
      "(rc_count (lv_recv s1), rc_host (lv_recv s1)) = absorb m (rc_count (lv_recv s), rc_host (lv_recv s))"
      using 2 by auto
    ultimately show ?thesis using Cons.IH [of 0 s1] calm(2) acts 2 by simp
  next
    case 3
    then have "live_do cf a s = Inr (Some s)" by (simp add: live_do_def)
    with Cons.IH [of k s] Cons.prems(1) calm(2) acts 3 show ?thesis by simp
  qed
qed simp

section \<open>Properties\<close>

text \<open>
  C25. The heartbeat protocol from the client's side, with messages and turns in any order. While no
  four turns pass without a message (heartbeats and pieces of files both count) the watch never
  acts: the flag stays, no socket is opened, the permission queue is not touched, the count is
  the number of turns since the last message, and the files are what the messages alone make
  them. Once three turns have passed without a message, the next one declares the server gone and
  tells the hook. When it cannot connect, that is the end of the watch; when it can, nobody
  resets the count: each further turn tells the hook again that the server is gone and
  opens another socket.
\<close>

theorem heartbeat_protocol:
  assumes "watching k s" "calm k acts" "\<forall>a \<in> set acts. live_legal a"
    and "get_ip_addr conf cf = Inr (Some cf')"
  shows "\<exists>s'. live_run cf acts s = Inr (Some s') \<and> watching (silence k acts) s' \<and>
     lv_sockets s' = lv_sockets s \<and>
     (rc_count (lv_recv s'), rc_host (lv_recv s')) =
       fold absorb (arrived acts) (rc_count (lv_recv s), rc_host (lv_recv s)) \<and>
     queues (rc_host (lv_recv s')) = queues (rc_host (lv_recv s)) \<and>
     (silence k acts = 3 \<longrightarrow>
        (\<exists>s''. live_run cf (acts @ replicate (Suc n) (Turn conf connected)) s = Inr (Some s'') \<and>
          (if connected
           then lv_flag s'' = 1 \<and> lv_sockets s'' = lv_sockets s + Suc n \<and>
             rc_host (lv_recv s'') = (Send_keep_alive CHR ''0'' ^^ Suc n) (rc_host (lv_recv s'))
           else lv_flag s'' = 0 \<and> lv_sockets s'' = lv_sockets s \<and>
             rc_host (lv_recv s'') = Send_keep_alive CHR ''0'' (rc_host (lv_recv s')))))"
proof -
  from calm_run [OF assms(1-3), of cf] obtain s' where s': "live_run cf acts s = Inr (Some s')"
    "watching (silence k acts) s'" "lv_sockets s' = lv_sockets s"
    "(rc_count (lv_recv s'), rc_host (lv_recv s')) =
       fold absorb (arrived acts) (rc_count (lv_recv s), rc_host (lv_recv s))" by blast
  have "queues (snd (fold absorb ms st)) = queues (snd st)" for ms st
    by (induction ms arbitrary: st) (auto simp: absorb_def out_file_def Let_def)
  from this [of "arrived acts" "(rc_count (lv_recv s), rc_host (lv_recv s))"] s'(4)
  have q: "queues (rc_host (lv_recv s')) = queues (rc_host (lv_recv s))" by (metis snd_conv)
  have "\<exists>s''. live_run cf (acts @ replicate (Suc n) (Turn conf connected)) s = Inr (Some s'') \<and>
      (if connected
       then lv_flag s'' = 1 \<and> lv_sockets s'' = lv_sockets s + Suc n \<and>
         rc_host (lv_recv s'') = (Send_keep_alive CHR ''0'' ^^ Suc n) (rc_host (lv_recv s'))
       else lv_flag s'' = 0 \<and> lv_sockets s'' = lv_sockets s \<and>
         rc_host (lv_recv s'') = Send_keep_alive CHR ''0'' (rc_host (lv_recv s')))"
    if "silence k acts = 3"
  proof -
    have h: "hb_flag (heart_of s') = 1" "h_count (hb_head (heart_of s')) = CHR ''3''"
      using s'(2) that by (simp_all add: heart_of_def watching_def beat_chars)
    from heart_gone [OF h assms(4), of n connected] show ?thesis
      unfolding live_run_append s'(1) using s'(3) h(1)
      by (auto simp: live_turns heart_of_def put_heart_def reconnected_def
          simp del: replicate_Suc heart_turns.simps)
  qed
  with s' q show ?thesis by blast
qed

lemma heartbeat_protocol_witness:
  "\<exists>s s''. live_run (c_config sample_client)
       ([Turn (Some []) True, Turn (Some []) True, Turn (Some []) True,
         Arrive (Rv_bytes (recv_data_image (sample_message CHR ''4'' []))), Turn (Some []) True,
         Turn (Some []) True, Arrive (Rv_bytes (recv_data_image (sample_message CHR ''1'' ''int x;''))),
         Turn (Some []) True, Turn (Some []) True, Turn (Some []) True] @ replicate (Suc 1) (Turn (Some []) True)) s =
       Inr (Some s'') \<and> lv_sockets s = 0 \<and> lv_sockets s'' = 2"
proof -
  let ?t = "Turn (Some []) True" and ?m = "\<lambda>c bs. Arrive (Rv_bytes (recv_data_image (sample_message c bs)))"
  let ?acts = "[?t, ?t, ?t, ?m CHR ''4'' [], ?t, ?t, ?m CHR ''1'' ''int x;'', ?t, ?t, ?t]"
  let ?s = "\<lparr>lv_recv = sample_receiver\<lparr>rc_head := sample_message CHR ''4'' []\<rparr>, lv_flag = 1, lv_sockets = 0\<rparr>"
  have msg: "server_message (sample_message CHR ''4'' [])" "server_message (sample_message CHR ''1'' ''int x;'')"
    using sample_message_good [of "[]" "CHR ''4''"] sample_message_good [of "''int x;''" "CHR ''1''"]
    by (simp_all add: server_message_def sample_message_def)
  then have w: "watching 0 ?s"
    by (simp add: watching_def server_message_def good_message_def sample_message_def beat_chars)
  have calm: "calm 0 ?acts" "silence 0 ?acts = 3"
    by (simp_all add: calm_Cons) (simp add: calm_def)
  have legal: "\<forall>a \<in> set ?acts. live_legal a" using msg by auto
  obtain s'' where "live_run (c_config sample_client) (?acts @ replicate (Suc 1) ?t) ?s = Inr (Some s'')"
    "lv_sockets s'' = 2"
    using heartbeat_protocol [OF w calm(1) legal empty_config [of "c_config sample_client"], of 1 True] calm(2)
    by (auto simp del: live_run.simps append.simps replicate.simps)
  then show ?thesis by (intro exI [of _ ?s] exI [of _ s'']) (simp only: live.select_convs)
qed

end
