(* ===== verification/Client_Hooked.thy ===== *)
theory Client_Hooked
  imports Client_Live
begin

text \<open>
  The client as \<open>start.sh\<close> starts it: \<open>LD_PRELOAD\<close> is exported before the client runs, so its own
  calls of \<open>open\<close> and \<open>close\<close> are those of \<open>hook/hook.c\<close>. That concerns \<open>get_ip_addr\<close> of
  \<open>client/get_message.h\<close>, \<open>heart_handler\<close> and \<open>main\<close> of \<open>client/inotify.cpp\<close> and the opening of
  created files in its \<open>handle_events\<close>. \<open>conf\<close> is what the hook's readers of the configuration
  file get, \<open>evs\<close> what the client's own \<open>read\<close> gets, \<open>third\<close> the indeterminate third argument.
\<close>

section \<open>The client's calls\<close>

definition conf_file :: string where
  "conf_file = ''/etc/file_watch/init.conf''"

text \<open>\<open>None\<close> as the configuration is the exit of the process.\<close>

definition hooked_get_ip_addr ::
    "read_event list option \<Rightarrow> (string \<Rightarrow> string) \<Rightarrow> int \<Rightarrow> read_event list \<Rightarrow> config \<Rightarrow> hook \<Rightarrow> host \<Rightarrow>
     (config option \<times> hook \<times> host) run" where
  "hooked_get_ip_addr conf realpath third evs cf hk h =
     bind_run (hook_open conf realpath conf_file 0 third hk h) (\<lambda>(fd, hk1, h1).
       if fd < 0 then Some (Inr (None, hk1, h1))
       else
         bind_run (Some (get_ip_addr (Some evs) cf)) (\<lambda>r.
         bind_run (Some (hook_close conf fd hk1 h1)) (\<lambda>(_, hk2, h2). Some (Inr (r, hk2, h2)))))"

text \<open>
  One turn of \<open>heart_handler\<close>. \<open>new_fd\<close> is the socket of the attempt to reconnect; the answer
  says whether the process goes on.
\<close>

definition hooked_turn ::
    "read_event list option \<Rightarrow> (string \<Rightarrow> string) \<Rightarrow> int \<Rightarrow> read_event list \<Rightarrow> config \<Rightarrow> int \<Rightarrow> int \<Rightarrow> bool \<Rightarrow>
     hook \<Rightarrow> heart_state \<Rightarrow> (bool \<times> hook \<times> heart_state) run" where
  "hooked_turn conf realpath third evs cf sockfd new_fd connected hk s =
     (if hb_flag s \<noteq> 1 then Some (Inr (True, hk, s))
      else if h_count (hb_head s) = CHR ''3''
      then
        bind_run (Some (hook_close conf sockfd hk (hb_host s))) (\<lambda>(_, hk1, h1).
        bind_run (hooked_get_ip_addr conf realpath third evs cf hk1 (Send_keep_alive CHR ''0'' h1)) (\<lambda>(r, hk2, h2).
          let s1 = s\<lparr>hb_flag := 0, hb_host := h2\<rparr> in
          case r of
            None \<Rightarrow> Some (Inr (False, hk2, s1))
          | Some _ \<Rightarrow>
              (if connected
               then Some (Inr (True, hk2, s1\<lparr>hb_flag := 1, hb_sockets := hb_sockets s1 + 1\<rparr>))
               else
                 bind_run (Some (hook_close conf new_fd hk2 h2)) (\<lambda>(_, hk3, h3).
                   Some (Inr (True, hk3, s1\<lparr>hb_host := h3\<rparr>))))))
      else if counting (h_count (hb_head s))
      then Some (Inr (True, hk, s\<lparr>hb_head := (hb_head s)\<lparr>h_count := next_count (h_count (hb_head s))\<rparr>\<rparr>))
      else Some (Inr (True, hk, s)))"

fun hooked_turns ::
    "nat \<Rightarrow> read_event list option \<Rightarrow> (string \<Rightarrow> string) \<Rightarrow> int \<Rightarrow> read_event list \<Rightarrow> config \<Rightarrow> int \<Rightarrow> int \<Rightarrow> bool \<Rightarrow>
     hook \<Rightarrow> heart_state \<Rightarrow> (bool \<times> hook \<times> heart_state) run" where
  "hooked_turns 0 conf realpath third evs cf sockfd new_fd connected hk s = Some (Inr (True, hk, s))"
| "hooked_turns (Suc n) conf realpath third evs cf sockfd new_fd connected hk s =
     bind_run (hooked_turn conf realpath third evs cf sockfd new_fd connected hk s) (\<lambda>(go_on, hk', s').
       if go_on then hooked_turns n conf realpath third evs cf sockfd new_fd connected hk' s'
       else Some (Inr (False, hk', s')))"

text \<open>\<open>main\<close> up to its loop, with the flag for the threads; \<open>None\<close> is the exit of the process.\<close>

definition hooked_main ::
    "read_event list option \<Rightarrow> (string \<Rightarrow> string) \<Rightarrow> int \<Rightarrow> read_event list \<Rightarrow> config \<Rightarrow> int \<Rightarrow> bool \<Rightarrow>
     string list option \<Rightarrow> (string \<Rightarrow> bool option) \<Rightarrow> bool \<Rightarrow> hook \<Rightarrow> host \<Rightarrow>
     ((int \<times> config \<times> string list) option \<times> hook \<times> host) run" where
  "hooked_main conf realpath third evs cf0 sockfd connected entries lstat before hk h =
     bind_run (hooked_get_ip_addr conf realpath third evs cf0 hk h) (\<lambda>(r, hk1, h1). case r of
       None \<Rightarrow> Some (Inr (None, hk1, h1))
     | Some cf \<Rightarrow>
         let watched_names = cstr (cf_path cf) # fst (Printdir entries lstat before);
             h2 = Send_keep_alive CHR ''1'' h1 in
         if connected then Some (Inr (Some (1, cf, watched_names), hk1, h2))
         else
           bind_run (Some (hook_close conf sockfd hk1 h2)) (\<lambda>(_, hk2, h3).
             Some (Inr (Some (0, cf, watched_names), hk2, Send_keep_alive CHR ''0'' h3))))"

text \<open>\<open>handle_events\<close> on a created file: it opens the file for reading and writing.\<close>

definition hooked_create ::
    "read_event list option \<Rightarrow> (string \<Rightarrow> string) \<Rightarrow> int \<Rightarrow> string \<Rightarrow> string \<Rightarrow> watcher \<Rightarrow> hook \<Rightarrow> host \<Rightarrow>
     (watcher \<times> hook \<times> host) run" where
  "hooked_create conf realpath third dir name w hk h =
     bind_run (hook_open conf realpath (dir @ name) 2 third hk h) (\<lambda>(temp_fd, hk1, h1).
     bind_run (Some (add_created dir name temp_fd w)) (\<lambda>w1. Some (Inr (w1, hk1, h1))))"

section \<open>Hooked calls that pass\<close>

text \<open>The flags that may wait in the queue, and what a question leaves of it.\<close>

definition flag_queue :: "host \<Rightarrow> bool" where
  "flag_queue h \<longleftrightarrow>
     \<not> q_denied h 1000 \<and> 0 < q_limit h \<and>
     (case queues h 1000 of
        None \<Rightarrow> True
      | Some q \<Rightarrow> (\<forall>m \<in> set q. m = (1, flag_text CHR ''0'') \<or> m = (1, flag_text CHR ''1'')))"

definition no_flags :: "host \<Rightarrow> bool" where
  "no_flags h \<longleftrightarrow> queues h 1000 = None \<or> queues h 1000 = Some []"

lemma question:
  assumes "flag_queue h" "recv_keep_valie h = (answer, h')"
  shows "no_flags h'" "\<not> q_denied h' 1000" "q_limit h' = q_limit h" "h_fds h' = h_fds h" "h_files h' = h_files h"
    "h_dirs h' = h_dirs h" "h_readonly h' = h_readonly h" "shm h' = shm h" "sem_value h' = sem_value h"
    "no_flags h \<Longrightarrow> answer = - 1" "\<forall>t. t \<noteq> 1000 \<longrightarrow> queues h' t = queues h t"
  using assms
  by (auto simp: flag_queue_def no_flags_def recv_keep_valie_def msgget_def msgrcv_def msgctl_rmid_def cstr_flag_text
      split: if_splits option.splits list.splits)

text \<open>A configuration from which the hook reads the path \<open>p\<close>, whatever it had read before.\<close>

definition conf_gives :: "read_event list option \<Rightarrow> string \<Rightarrow> bool" where
  "conf_gives conf p \<longleftrightarrow>
     (\<forall>b. length b = 200 \<longrightarrow> (\<exists>fp. get_path conf b = Inr fp \<and> length fp = 200 \<and> cstr fp = p))"

lemma conf_givesE:
  assumes "conf_gives conf p" "length b = 200"
  obtains fp where "get_path conf b = Inr fp" "length fp = 200" "cstr fp = p"
  using assms by (auto simp: conf_gives_def)

text \<open>A descriptor that the hook has nothing to say about: no watched file is behind it.\<close>

definition quiet_fd :: "string \<Rightarrow> host \<Rightarrow> int \<Rightarrow> bool" where
  "quiet_fd p h fd \<longleftrightarrow>
     (case h_fds h fd of
        None \<Rightarrow> \<not> watched p ''0''
      | Some l \<Rightarrow> no_nul l \<and> l \<noteq> [] \<and> length l < 1024 \<and> \<not> watched p l)"

text \<open>What a hooked call leaves alone.\<close>

definition same_host :: "host \<Rightarrow> host \<Rightarrow> bool" where
  "same_host h h' \<longleftrightarrow>
     q_limit h' = q_limit h \<and> h_files h' = h_files h \<and> h_dirs h' = h_dirs h \<and> h_readonly h' = h_readonly h \<and>
     shm h' = shm h \<and> sem_value h' = sem_value h"

lemma quiet_link:
  assumes "quiet_fd p h fd"
  shows "\<exists>l. read_fd_link ''0'' fd h = Inr l \<and> \<not> watched p (cstr l)"
proof -
  obtain b where b: "proc_fd_link fd = Inr b"
    by (simp add: proc_fd_link_def c_snprintf_def format_eval store_at_room c_memset_def)
  show ?thesis
  proof (cases "h_fds h fd")
    case None
    with assms b show ?thesis by (simp add: read_fd_link_def quiet_fd_def cstr_Cons)
  next
    case (Some l)
    let ?z = "''0'' @ replicate (1024 - length ''0'') NUL"
    have l: "no_nul l" "l \<noteq> []" "length l < 1024" "\<not> watched p l"
      using assms Some by (simp_all add: quiet_fd_def)
    then have "drop (length l) ?z = replicate (1024 - length l) NUL" by (cases l) simp_all
    then have "cstr (l @ drop (length l) ?z) = l"
      using l by (simp add: cstr_no_nul_append)
    then show ?thesis using b Some l by (simp add: read_fd_link_def Let_def)
  qed
qed

lemma close_passes:
  assumes "flag_queue h" "conf_gives conf p" "length (filename_path hk) = 200" "quiet_fd p h fd"
  shows "\<exists>r hk' h'. hook_close conf fd hk h = Inr (r, hk', h') \<and>
     length (filename_path hk') = 200 \<and> shm_name hk' = shm_name hk \<and> no_flags h' \<and> \<not> q_denied h' 1000 \<and>
     same_host h h' \<and> (no_flags h \<and> fd \<noteq> - 1 \<longrightarrow> h_fds h' = (h_fds h)(fd := None))"
proof -
  obtain answer h1 where r: "recv_keep_valie h = (answer, h1)" by fastforce
  note q = question [OF assms(1) r]
  have "quiet_fd p h1 fd" using assms(4) q(4) by (simp add: quiet_fd_def)
  then obtain l where l: "read_fd_link ''0'' fd h1 = Inr l" "\<not> watched p (cstr l)"
    using quiet_link by blast
  obtain fp where "get_path conf (filename_path hk) = Inr fp" "length fp = 200" "cstr fp = p"
    using assms(2,3) by (rule conf_givesE)
  with r q l assms(3) show ?thesis
    by (auto simp: hook_close_def Let_def orig_close_def same_host_def no_flags_def)
qed

lemma same_host_trans: "same_host h h1 \<Longrightarrow> same_host h1 h2 \<Longrightarrow> same_host h h2"
  by (simp add: same_host_def)

lemma same_host_flag: "\<not> q_denied h 1000 \<Longrightarrow> same_host h (Send_keep_alive c h)"
  by (simp add: keep_alive_result same_host_def Let_def)

text \<open>One flag in an empty queue.\<close>

lemma one_flag:
  assumes "no_flags h" "\<not> q_denied h 1000" "0 < q_limit h"
  shows "queues (Send_keep_alive c h) 1000 = Some [(1, flag_text c)]" "\<not> q_denied (Send_keep_alive c h) 1000"
    "q_limit (Send_keep_alive c h) = q_limit h" "h_fds (Send_keep_alive c h) = h_fds h"
  using assms by (auto simp: keep_alive_result Let_def no_flags_def)

lemma one_flag_queue:
  assumes "no_flags h" "\<not> q_denied h 1000" "0 < q_limit h" "c = CHR ''0'' \<or> c = CHR ''1''"
  shows "flag_queue (Send_keep_alive c h)"
  using one_flag [OF assms(1-3), of c] assms(3,4) by (auto simp: flag_queue_def)

lemma ask_one_flag:
  assumes "no_flags h" "\<not> q_denied h 1000" "0 < q_limit h" "c = CHR ''0'' \<or> c = CHR ''1''"
  shows "fst (ask (Suc n) (Send_keep_alive c h)) = (if c = CHR ''0'' then 0 else 1) # replicate n (- 1)"
proof -
  let ?h = "Send_keep_alive c h"
  note f = one_flag [OF assms(1-3), of c]
  from recv_first [OF f(2,1) assms(4)] ask_empty [of "?h\<lparr>queues := (queues ?h)(1000 := None)\<rparr>" n] f(2)
  show ?thesis by (simp add: case_prod_beta Let_def)
qed

section \<open>Reading the configuration\<close>

text \<open>With the oldest flag saying that the server is gone, the open is refused and the process exits.\<close>

lemma config_refused:
  assumes "no_flags h" "\<not> q_denied h 1000" "0 < q_limit h"
  shows "\<exists>h'. hooked_get_ip_addr conf realpath third evs cf hk (Send_keep_alive CHR ''0'' h) =
       Some (Inr (None, hk, h')) \<and> no_flags h' \<and> \<not> q_denied h' 1000 \<and> same_host h h'"
proof -
  note f = one_flag [OF assms, of "CHR ''0''"]
  let ?h = "Send_keep_alive CHR ''0'' h"
  have "recv_keep_valie ?h = (0, ?h\<lparr>queues := (queues ?h)(1000 := None)\<rparr>)"
    using recv_first [OF f(2,1)] by simp
  then show ?thesis using f same_host_flag [OF assms(2), of "CHR ''0''"]
    by (simp add: hooked_get_ip_addr_def hook_open_def no_flags_def same_host_def)
qed

text \<open>The configuration file is there, outside the watched directory, and a descriptor is free.\<close>

definition conf_readable :: "string \<Rightarrow> (string \<Rightarrow> string) \<Rightarrow> host \<Rightarrow> bool" where
  "conf_readable p realpath h \<longleftrightarrow>
     realpath conf_file = conf_file \<and> \<not> watched p conf_file \<and> h_files h conf_file \<noteq> None \<and>
     conf_file \<notin> h_dirs h \<and> \<not> h_readonly h conf_file \<and> free_fds h \<noteq> []"

lemma conf_file_ok: "no_nul conf_file" "conf_file \<noteq> []" "length conf_file < 128"
  by (simp_all add: conf_file_def)

lemma config_passes:
  assumes "no_flags h" "\<not> q_denied h 1000" "0 < q_limit h" "conf_gives conf p" "conf_readable p realpath h"
    and "get_ip_addr (Some evs) cf = Inr (Some cf')"
  shows "\<exists>hk' h'. hooked_get_ip_addr conf realpath third evs cf hk h = Some (Inr (Some cf', hk', h')) \<and>
     length (filename_path hk') = 200 \<and> shm_name hk' = shm_name hk \<and> no_flags h' \<and> \<not> q_denied h' 1000 \<and>
     same_host h h' \<and> h_fds h' = h_fds h"
proof -
  have fq: "flag_queue h" using assms(1-3) by (auto simp: flag_queue_def no_flags_def)
  obtain answer h1 where r: "recv_keep_valie h = (answer, h1)" by fastforce
  note q = question [OF fq r]
  have answer: "answer = - 1" using q(10) assms(1) by simp
  obtain fd rest where fd: "free_fds h1 = fd # rest"
    using assms(5) q(4) free_fds_cong [of h1 h] by (cases "free_fds h") (auto simp: conf_readable_def)
  obtain F where there: "conf_file \<notin> h_dirs h1" "h_files h1 conf_file = Some F" "\<not> h_readonly h1 conf_file"
    using assms(5) q by (auto simp: conf_readable_def)
  let ?h2 = "h1\<lparr>h_fds := (h_fds h1)(fd \<mapsto> conf_file)\<rparr>"
  have orig: "orig_open conf_file 0 h1 = (fd, ?h2)"
    using orig_open_file [OF _ there, of fd 0] fd by (simp add: lowest_fd_def)
  obtain fp where fp: "get_path conf (c_memset 200) = Inr fp" "length fp = 200" "cstr fp = p"
    using conf_givesE [OF assms(4), of "c_memset 200" thesis] by (auto simp: c_memset_def)
  obtain buf where buf: "c_strcpy (c_memset 128) (lit conf_file) = Inr buf" "cstr buf = conf_file"
    using conf_file_ok by (simp add: c_strcpy_room c_memset_def)
  have real: "realpath conf_file = conf_file" "\<not> watched p conf_file" using assms(5) by (simp_all add: conf_readable_def)
  let ?hk = "(if 0 \<le> third \<and> third \<le> 511 then hk\<lparr>per_flag := True\<rparr> else hk)\<lparr>filename_path := fp\<rparr>"
  have op: "hook_open conf realpath conf_file 0 third hk h = Some (Inr (fd, ?hk, ?h2))"
    unfolding hook_open_def r prod.case real(1) using answer buf fp real(2) orig by (simp add: Let_def)
  have fq2: "flag_queue ?h2" and nf2: "no_flags ?h2"
    using q assms(3) by (auto simp: flag_queue_def no_flags_def)
  have "quiet_fd p ?h2 fd" using conf_file_ok real(2) by (simp add: quiet_fd_def)
  from close_passes [OF fq2 assms(4) _ this, of ?hk] fp(2) obtain r' hk' h' where
    cl: "hook_close conf fd ?hk ?h2 = Inr (r', hk', h')"
    "length (filename_path hk') = 200" "shm_name hk' = shm_name ?hk" "no_flags h'" "\<not> q_denied h' 1000"
    "same_host ?h2 h'" "fd \<noteq> - 1 \<longrightarrow> h_fds h' = (h_fds ?h2)(fd := None)"
    using nf2 by auto
  have fd0: "0 \<le> fd" "h_fds h1 fd = None" using free_fds_take [OF fd] by simp_all
  then have "h_fds h' = h_fds h" using cl(7) q(4) by (auto simp: fun_upd_idem)
  moreover have "same_host h h'" using cl(6) q by (simp add: same_host_def)
  moreover have "shm_name ?hk = shm_name hk" by simp
  ultimately show ?thesis using cl fd0
    by (simp add: hooked_get_ip_addr_def op assms(6))
qed

section \<open>Properties\<close>

lemma hooked_counts:
  assumes "hb_flag s = 1" "h_count (hb_head s) = CHR ''0''"
  shows "hooked_turns 4 conf realpath third evs cf sockfd new_fd connected hk s =
    hooked_turns 1 conf realpath third evs cf sockfd new_fd connected hk (with_count CHR ''3'' s)"
proof -
  have step: "hooked_turns (Suc n) conf realpath third evs cf sockfd new_fd connected hk (with_count (beat_char k) s) =
    hooked_turns n conf realpath third evs cf sockfd new_fd connected hk (with_count (beat_char (Suc k)) s)"
    if "k < 3" for k n
    using beat_chars(3) [OF that] assms(1) by (simp add: hooked_turn_def) (simp add: with_count_def)
  have "with_count (beat_char 0) s = s" using assms(2) by (simp add: with_count_id beat_chars)
  with step [of 0 3] step [of 1 2] step [of 2 1] show ?thesis
    by (simp add: eval_nat_numeral beat_char_three del: hooked_turns.simps)
qed

text \<open>
  C7. The client that \<open>start.sh\<close> runs never reconnects. \<open>heart_handler\<close> means to tell the hook that
  the server is gone and then to connect again, with the address read from the configuration
  file; but the client preloads the hook itself: the close of the socket takes what flags were
  waiting, the new flag is the next one, and the client's own open of the configuration file is
  the call that it refuses, so the process exits on the fourth turn without a message. The flag
  is used up: no other process is ever refused. Without the hook the same turns reconnect.
\<close>

theorem hooked_watch_exits:
  assumes "hb_flag s = 1" "h_count (hb_head s) = CHR ''0''" "flag_queue (hb_host s)"
    and "conf_gives conf p" "length (filename_path hk) = 200" "quiet_fd p (hb_host s) sockfd"
    and "get_ip_addr (Some evs) cf = Inr (Some cf')"
  shows "\<exists>hk' s'. hooked_turns 4 conf realpath third evs cf sockfd new_fd connected hk s =
       Some (Inr (False, hk', s')) \<and> hb_sockets s' = hb_sockets s \<and>
     h_files (hb_host s') = h_files (hb_host s) \<and> fst (ask n (hb_host s')) = replicate n (- 1) \<and>
     (\<exists>t. heart_turns 4 (Some evs) cf True s = Inr (Some t) \<and> hb_flag t = 1 \<and> hb_sockets t = hb_sockets s + 1)"
proof -
  let ?s = "with_count CHR ''3'' s"
  obtain r hk1 h1 where c: "hook_close conf sockfd hk (hb_host s) = Inr (r, hk1, h1)"
    "no_flags h1" "\<not> q_denied h1 1000" "same_host (hb_host s) h1"
    using close_passes [OF assms(3-6)] by blast
  have "0 < q_limit h1" using c(4) assms(3) by (simp add: same_host_def flag_queue_def)
  from config_refused [OF c(2,3) this] obtain h' where
    o: "hooked_get_ip_addr conf realpath third evs cf hk1 (Send_keep_alive CHR ''0'' h1) = Some (Inr (None, hk1, h'))"
    "no_flags h'" "\<not> q_denied h' 1000" "same_host h1 h'" by blast
  have run: "hooked_turns 4 conf realpath third evs cf sockfd new_fd connected hk s =
      Some (Inr (False, hk1, ?s\<lparr>hb_flag := 0, hb_host := h'\<rparr>))"
    using hooked_counts [OF assms(1,2)] assms(1) c(1) o(1) by (simp add: hooked_turn_def Let_def)
  have "fst (ask n h') = replicate n (- 1)"
    using ask_empty [OF o(3), of n] o(2) by (simp add: no_flags_def)
  moreover have "h_files h' = h_files (hb_host s)" using c(4) o(4) by (simp add: same_host_def)
  moreover have "heart_turns 4 (Some evs) cf True s = Inr (Some (reconnected 1 ?s))"
    using heart_turns_count [OF assms(1,2), of 1] heart_turns_reconnect [of ?s "Some evs" cf cf' 1] assms(1,7)
    by (simp del: heart_turns.simps)
  ultimately show ?thesis using run assms(1) by (auto simp: reconnected_def)
qed

text \<open>
  C26. Start-up with and without the hook agree on the address, the directories to watch and the
  flag for the threads, but not on what they tell the other processes. Connected, both leave
  the one flag that the server is there. Not connected, the plain client leaves "there" and then
  "gone", of which only the first is ever read, so nothing is refused; the hooked client's close
  of the socket takes the first flag away, and exactly one call of open or close is refused.
\<close>

theorem hooked_start:
  assumes "no_flags h" "\<not> q_denied h 1000" "1 < q_limit h" "conf_gives conf p" "conf_readable p realpath h"
    and "get_ip_addr (Some evs) cf = Inr (Some cf')" "quiet_fd p h sockfd"
  shows "\<exists>hk' h1 h2 names.
     hooked_main conf realpath third evs cf sockfd connected entries lstat before hk h =
       Some (Inr (Some (if connected then 1 else 0, cf', names), hk', h1)) \<and>
     client_main (Some evs) cf connected entries lstat before h =
       Inr (Some (if connected then 1 else 0, cf', names, h2)) \<and>
     h_files h1 = h_files h \<and> h_files h2 = h_files h \<and>
     fst (ask (Suc n) h1) = (if connected then 1 else 0) # replicate n (- 1) \<and>
     fst (ask (Suc n) h2) = 1 # replicate n (- 1)"
proof -
  let ?names = "cstr (cf_path cf') # fst (Printdir entries lstat before)"
  have lim: "0 < q_limit h" using assms(3) by simp
  obtain hk1 h1 where c: "hooked_get_ip_addr conf realpath third evs cf hk h = Some (Inr (Some cf', hk1, h1))"
    "length (filename_path hk1) = 200" "no_flags h1" "\<not> q_denied h1 1000" "same_host h h1" "h_fds h1 = h_fds h"
    using config_passes [OF assms(1,2) lim assms(4-6), of third hk] by blast
  have lim1: "0 < q_limit h1" using c(5) lim by (simp add: same_host_def)
  let ?h2 = "Send_keep_alive CHR ''1'' h1"
  note f = one_flag [OF c(3,4) lim1, of "CHR ''1''"]
  have fq: "flag_queue ?h2" by (rule one_flag_queue [OF c(3,4) lim1]) simp
  have "quiet_fd p ?h2 sockfd" using assms(7) f(4) c(6) by (simp add: quiet_fd_def)
  from close_passes [OF fq assms(4) c(2) this] obtain r hk2 h3 where
    cl: "hook_close conf sockfd hk1 ?h2 = Inr (r, hk2, h3)" "no_flags h3" "\<not> q_denied h3 1000" "same_host ?h2 h3"
    by blast
  have lim3: "0 < q_limit h3" using cl(4) f(3) lim1 by (simp add: same_host_def)
  have files: "h_files ?h2 = h_files h" "h_files (Send_keep_alive CHR ''0'' h3) = h_files h"
    using same_host_flag [OF c(4), of "CHR ''1''"] same_host_flag [OF cl(3), of "CHR ''0''"] cl(4) c(5)
    by (simp_all add: same_host_def)
  have plain: "fst (ask (Suc n) (Send_keep_alive CHR ''1'' h)) = 1 # replicate n (- 1)"
    using ask_one_flag [OF assms(1,2) lim, of "CHR ''1''" n] by simp
  show ?thesis
  proof (cases connected)
    case True
    have "fst (ask (Suc n) ?h2) = 1 # replicate n (- 1)"
      using ask_one_flag [OF c(3,4) lim1, of "CHR ''1''" n] by simp
    moreover have "h_files (Send_keep_alive CHR ''1'' h) = h_files h"
      using same_host_flag [OF assms(2)] by (simp add: same_host_def)
    ultimately show ?thesis using True plain files assms(6)
      by (simp add: hooked_main_def client_main_def c(1) Let_def)
  next
    case False
    let ?g = "Send_keep_alive CHR ''1'' h"
    note g = one_flag [OF assms(1,2) lim, of "CHR ''1''"]
    have old: "fst (ask (Suc n) (Send_keep_alive CHR ''0'' ?g)) = 1 # replicate n (- 1)"
    proof -
      have "queues (Send_keep_alive CHR ''0'' ?g) 1000 = Some ((1, flag_text CHR ''1'') # [(1, flag_text CHR ''0'')])"
        and d: "\<not> q_denied (Send_keep_alive CHR ''0'' ?g) 1000"
        using g assms(3) by (simp_all add: keep_alive_result [OF g(2)])
      from recv_first [OF d this(1)] ask_empty [of "(Send_keep_alive CHR ''0'' ?g)
          \<lparr>queues := (queues (Send_keep_alive CHR ''0'' ?g))(1000 := None)\<rparr>" n] d
      show ?thesis by (simp add: case_prod_beta Let_def)
    qed
    have "fst (ask (Suc n) (Send_keep_alive CHR ''0'' h3)) = 0 # replicate n (- 1)"
      using ask_one_flag [OF cl(2,3) lim3, of "CHR ''0''" n] by simp
    moreover have "h_files (Send_keep_alive CHR ''0'' ?g) = h_files h"
      using same_host_flag [OF assms(2), of "CHR ''1''"] same_host_flag [OF g(2), of "CHR ''0''"]
      by (simp add: same_host_def)
    ultimately show ?thesis using False old files assms(6) cl(1)
      by (simp add: hooked_main_def client_main_def c(1) Let_def del: ask.simps)
  qed
qed

text \<open>
  C8. The hooked client takes the files away that others create. When a file appears in the
  watched directory, \<open>handle_events\<close> opens it to add it to its table; with the hook in the client
  that open moves the content, but for the last of every 1024 bytes, into a segment,
  leaves the constant text in the file, and announces the file to the client itself. The table
  gets its entry.
\<close>

theorem client_takes_created:
  assumes "no_nul (realpath (dir @ name))" "get_path conf (c_memset 200) = Inr fp"
    and "takes_over (cstr fp) (realpath (dir @ name)) 2 F hk h"
    and "table_ok w" "w_index w < 128" "no_nul name" "length name < 32" "length dir + length name < 128"
  shows "\<exists>w' hk' h' seg msg. hooked_create conf realpath third dir name w hk h = Some (Inr (w', hk', h')) \<and>
     table_ok w' \<and> w_index w' = w_index w + 1 \<and>
     shm h' (base_of (realpath (dir @ name))) = Some seg \<and>
     (\<forall>i < length F. byte_at (seg_data seg) i = (if i mod 1024 = 1023 then NUL else F ! i)) \<and>
     h_files h' = (h_files h)(realpath (dir @ name) \<mapsto> ''It is a secret'') \<and>
     queues h' 1024 = Some (if F = [] then [] else [(int (length F), msg)]) \<and>
     cstr msg = realpath (dir @ name)"
proof -
  obtain hk' h' seg msg where o:
    "hook_open conf realpath (dir @ name) 2 third hk h = Some (Inr (hd (free_fds h), hk', h'))"
    "queues h' 1024 = Some (if F = [] then [] else [(int (length F), msg)])"
    "cstr msg = realpath (dir @ name)" "shm h' (base_of (realpath (dir @ name))) = Some seg" "holds_copy F seg"
    "h_files h' = (h_files h)(realpath (dir @ name) \<mapsto> secret)"
    using hook_open_takes [of realpath "dir @ name", OF assms(1-3), of third] by blast
  obtain w' where "add_created dir name (hd (free_fds h)) w = Inr w'" "table_ok w'" "w_index w' = w_index w + 1"
    using add_created_result [OF assms(4,6-8), of "hd (free_fds h)"] assms(5) by auto
  with o show ?thesis
    by (intro exI [of _ w'] exI [of _ hk'] exI [of _ h'] exI [of _ seg] exI [of _ msg])
      (simp add: hooked_create_def holds_copy_def secret_def)
qed

section \<open>Witnesses\<close>

lemma sample_conf_gives: "conf_gives sample_conf ''/home/''"
proof -
  have f: "file_of [(''path:'', ''/home/'')] = ''path:/home/'' @ [newline]"
    by (simp add: file_of_def line_text_def)
  have wf: "\<forall>kv \<in> set [(''path:'', ''/home/'')]. wf_line kv \<and> (\<forall>x \<in> set (line_text kv). \<not> client_line_end x)"
    by (simp add: wf_line_def line_text_def client_line_end_def)
  have "\<exists>fp. get_path sample_conf b = Inr fp \<and> length fp = 200 \<and> cstr fp = ''/home/''" if "length b = 200" for b
    using hook_reads [OF wf, of "[Rd_data (''path:/home/'' @ [newline])]" b] that
    unfolding f sample_conf_def by simp
  then show ?thesis by (simp add: conf_gives_def)
qed

definition sample_client_host :: host where
  "sample_client_host = sample_open_host\<lparr>h_fds := [3 \<mapsto> ''socket:[4711]''],
     h_files := [conf_file \<mapsto> ''path:/home/'' @ [newline]]\<rparr>"

lemma sample_client_host_ok:
  "no_flags sample_client_host" "\<not> q_denied sample_client_host 1000" "1 < q_limit sample_client_host"
  "quiet_fd ''/home/'' sample_client_host 3" "conf_readable ''/home/'' (\<lambda>x. x) sample_client_host"
proof -
  have "\<not> watched ''/home/'' ''socket:[4711]''" "\<not> watched ''/home/'' conf_file" by code_simp+
  moreover have "0 \<in> set (free_fds sample_client_host)" by (simp add: free_fds_def sample_client_host_def)
  then have "free_fds sample_client_host \<noteq> []" by auto
  ultimately show "quiet_fd ''/home/'' sample_client_host 3" "conf_readable ''/home/'' (\<lambda>x. x) sample_client_host"
    by (simp_all add: quiet_fd_def conf_readable_def)
      (simp_all add: sample_client_host_def sample_open_host_def sample_file_host_def sample_host_def)
qed (simp_all add: no_flags_def sample_client_host_def sample_open_host_def sample_file_host_def sample_host_def)

lemma hooked_watch_exits_witness:
  "\<exists>s hk' s'. hooked_turns 4 sample_conf (\<lambda>x. x) 0 [] (c_config sample_client) 3 5 True hook_start s =
       Some (Inr (False, hk', s')) \<and> h_count (hb_head s) = CHR ''0'' \<and> fst (ask 2 (hb_host s')) = [- 1, - 1]"
proof -
  let ?h = "Send_keep_alive CHR ''1'' sample_client_host"
  let ?s = "\<lparr>hb_flag = 1, hb_head = sample_message CHR ''4'' [], hb_host = ?h, hb_sockets = 0\<rparr>"
  note ok = sample_client_host_ok
  have lim: "0 < q_limit sample_client_host" using ok(3) by simp
  have fq: "flag_queue (hb_host ?s)" using one_flag_queue [OF ok(1,2) lim, of "CHR ''1''"] by simp
  have fd: "quiet_fd ''/home/'' (hb_host ?s) 3"
    using ok(4) one_flag(4) [OF ok(1,2) lim, of "CHR ''1''"] by (simp add: quiet_fd_def)
  have len: "length (filename_path hook_start) = 200" by (simp add: hook_start_def c_memset_def)
  have zero: "hb_flag ?s = 1" "h_count (hb_head ?s) = CHR ''0''" by (simp_all add: sample_message_def)
  from hooked_watch_exits [OF zero fq sample_conf_gives len fd empty_config [of "c_config sample_client"],
      of "\<lambda>x. x" 0 5 True 2]
  obtain hk' s' where "hooked_turns 4 sample_conf (\<lambda>x. x) 0 [] (c_config sample_client) 3 5 True hook_start ?s =
      Some (Inr (False, hk', s'))" "fst (ask 2 (hb_host s')) = replicate 2 (- 1)" by blast
  then show ?thesis using zero by (intro exI [of _ ?s] exI [of _ hk'] exI [of _ s']) (simp add: eval_nat_numeral)
qed

lemma hooked_start_witness:
  "\<exists>cf' hk' h1 names. hooked_main sample_conf (\<lambda>x. x) 0 [] (c_config sample_client) 3 False None (\<lambda>_. None) False
       hook_start sample_client_host = Some (Inr (Some (0, cf', names), hk', h1)) \<and>
     fst (ask (Suc 1) h1) = [0, - 1]"
  using hooked_start [OF sample_client_host_ok(1-3) sample_conf_gives sample_client_host_ok(5)
      empty_config [of "c_config sample_client"] sample_client_host_ok(4),
      where connected = False and third = 0 and hk = hook_start and n = 1 and entries = None
        and lstat = "\<lambda>_. None" and before = False]
  by (simp del: ask.simps) blast

definition sample_table :: watcher where
  "sample_table = \<lparr>w_files = replicate 128 \<lparr>ff_fd = 0, ff_name = c_memset 32, ff_base_name = c_memset 128\<rparr>,
     w_index = 3, w_epoll = {}, w_pollable = (\<lambda>_. True), w_tasks = []\<rparr>"

lemma client_takes_created_witness:
  "\<exists>w' hk' h' seg. hooked_create sample_conf (\<lambda>x. x) 0 ''/home/'' ''a.c'' sample_table hook_start sample_open_host =
       Some (Inr (w', hk', h')) \<and> w_index w' = 4 \<and> shm h' ''/a.c'' = Some seg \<and>
     h_files h' ''/home/a.c'' = Some ''It is a secret''"
proof -
  obtain fp where fp: "get_path sample_conf (c_memset 200) = Inr fp" "cstr fp = ''/home/''"
    by (rule sample_get_path)
  have "takes_over ''/home/'' ''/home/a.c'' 2 ''int x;'' hook_start sample_open_host"
  proof -
    have "\<not> bit (2 :: int) 9" by code_simp
    then show ?thesis using sample_opens by (simp add: opens_watched_def takes_over_def)
  qed
  with client_takes_created [where realpath = "\<lambda>x. x" and dir = "''/home/''" and name = "''a.c''"
      and third = 0 and w = sample_table, OF _ fp(1), of "''int x;''" hook_start sample_open_host]
    fp(2) sample_base
  show ?thesis
    by (fastforce simp: sample_table_def table_ok_def entry_ok_def c_memset_def terminated_def)
qed

end
