(* ===== verification/Client_Pool.thy ===== *)
theory Client_Pool
  imports Fifo "HOL-Library.Multiset" "HOL-Library.Sublist"
begin

text \<open>
  The client's thread pool, \<open>client/threadpool.hpp\<close>: tasks are committed to an unbounded
  queue under a mutex, workers wait for them on a condition variable, and the destructor
  sets a flag, wakes every worker and joins them. A state holds the pool's members, the
  place each thread has reached, and the history of the tasks; \<open>'a\<close> is a task.
\<close>

section \<open>State\<close>

text \<open>
  A worker's places: before the test of the loop; wanting the mutex; holding it, before the
  predicate of the wait; holding it with the predicate false, before it sleeps (which
  releases the mutex); asleep; with a task, before \<open>idlThrNum--\<close>; running it; before
  \<open>idlThrNum++\<close>; gone.
\<close>

datatype 'a cphase =
  Looping | Wanting | Checking | Blocking | Asleep | Holding 'a | Working 'a | Returning | Gone

text \<open>A caller of \<open>commit\<close>, past the test of \<open>stoped\<close> or before \<open>notify_one\<close>.\<close>

datatype 'a caller = Outside | Admitted 'a | Pushed

text \<open>The destructor: not begun, the flag set, the workers notified, all joined.\<close>

datatype closing = Open | Storing | Joining | Closed

record 'a cpool =
  tasks :: "'a list"
  stoped :: bool
  idlThrNum :: int
  m_lock :: "nat option"
  threads :: "'a cphase list"
  callers :: "'a caller list"
  closing :: closing
  committed :: "'a list"
  popped :: "'a list"
  ran :: "'a list"

section \<open>Operations\<close>

text \<open>The constructor: at least one thread.\<close>

definition cp_new :: "nat \<Rightarrow> nat \<Rightarrow> 'a cpool" where
  "cp_new sz n =
     (let k = (if sz < 1 then 1 else sz) in
      \<lparr>tasks = [], stoped = False, idlThrNum = int k, m_lock = None, threads = replicate k Looping,
       callers = replicate n Outside, closing = Open, committed = [], popped = [], ran = []\<rparr>)"

text \<open>The part of \<open>commit\<close> under the lock, and the test before it.\<close>

definition cp_admit :: "'a \<Rightarrow> 'a cpool \<Rightarrow> 'a caller" where
  "cp_admit t p = (if stoped p then Outside else Admitted t)"

definition cp_emplace :: "'a \<Rightarrow> 'a cpool \<Rightarrow> 'a cpool" where
  "cp_emplace t p = p\<lparr>tasks := tasks p @ [t], committed := committed p @ [t]\<rparr>"

text \<open>A worker with the mutex: the predicate, then the return or the first task.\<close>

definition cp_ready :: "'a cpool \<Rightarrow> bool" where
  "cp_ready p \<longleftrightarrow> stoped p \<or> tasks p \<noteq> []"

definition cp_take :: "'a cpool \<Rightarrow> ('a \<times> 'a cpool) option" where
  "cp_take p =
     (case tasks p of
        [] \<Rightarrow> None
      | t # ts \<Rightarrow> Some (t, p\<lparr>tasks := ts, popped := popped p @ [t]\<rparr>))"

definition idlCount :: "'a cpool \<Rightarrow> int" where
  "idlCount p = idlThrNum p"

definition move :: "nat \<Rightarrow> 'a cphase \<Rightarrow> 'a cpool \<Rightarrow> 'a cpool" where
  "move i pc p = p\<lparr>threads := (threads p)[i := pc]\<rparr>"

definition call :: "nat \<Rightarrow> 'a caller \<Rightarrow> 'a cpool \<Rightarrow> 'a cpool" where
  "call j c p = p\<lparr>callers := (callers p)[j := c]\<rparr>"

definition wake_all :: "'a cphase list \<Rightarrow> 'a cphase list" where
  "wake_all = map (\<lambda>pc. case pc of Asleep \<Rightarrow> Wanting | _ \<Rightarrow> pc)"

section \<open>Steps\<close>

text \<open>
  \<open>Commit\<close> of a stopped pool throws and leaves the caller outside. The lock of the caller is
  taken and released within one step, in which no other thread could do anything but wait.
  The destructor stores the flag and notifies without the mutex. \<open>Spurious\<close> is a wake-up
  the condition variable allows at any time.
\<close>

datatype 'a cact =
    Commit nat 'a | Emplace nat | Notify nat "nat option"
  | Test nat | Acquire nat | Decide nat | Sleep nat | Spurious nat | Begin nat | Work nat | Finish nat
  | Store | Notify_all | Join

definition at :: "'a cpool \<Rightarrow> nat \<Rightarrow> 'a cphase \<Rightarrow> bool" where
  "at p i pc \<longleftrightarrow> i < length (threads p) \<and> threads p ! i = pc"

inductive cp_step :: "'a cpool \<Rightarrow> 'a cact \<Rightarrow> 'a cpool \<Rightarrow> bool" where
  commit:
    "j < length (callers p) \<Longrightarrow> callers p ! j = Outside \<Longrightarrow>
       cp_step p (Commit j t) (call j (cp_admit t p) p)"
| emplace:
    "j < length (callers p) \<Longrightarrow> callers p ! j = Admitted t \<Longrightarrow> m_lock p = None \<Longrightarrow>
       cp_step p (Emplace j) (call j Pushed (cp_emplace t p))"
| notify:
    "j < length (callers p) \<Longrightarrow> callers p ! j = Pushed \<Longrightarrow> at p i Asleep \<Longrightarrow>
       cp_step p (Notify j (Some i)) (call j Outside (move i Wanting p))"
| notify_nobody:
    "j < length (callers p) \<Longrightarrow> callers p ! j = Pushed \<Longrightarrow> Asleep \<notin> set (threads p) \<Longrightarrow>
       cp_step p (Notify j None) (call j Outside p)"
| test:
    "at p i Looping \<Longrightarrow> cp_step p (Test i) (move i (if stoped p then Gone else Wanting) p)"
| acquire:
    "at p i Wanting \<Longrightarrow> m_lock p = None \<Longrightarrow>
       cp_step p (Acquire i) (move i Checking (p\<lparr>m_lock := Some i\<rparr>))"
| wait:
    "at p i Checking \<Longrightarrow> \<not> cp_ready p \<Longrightarrow> cp_step p (Decide i) (move i Blocking p)"
| return:
    "at p i Checking \<Longrightarrow> cp_ready p \<Longrightarrow> cp_take p = None \<Longrightarrow>
       cp_step p (Decide i) (move i Gone (p\<lparr>m_lock := None\<rparr>))"
| take:
    "at p i Checking \<Longrightarrow> cp_ready p \<Longrightarrow> cp_take p = Some (t, p') \<Longrightarrow>
       cp_step p (Decide i) (move i (Holding t) (p'\<lparr>m_lock := None\<rparr>))"
| sleep:
    "at p i Blocking \<Longrightarrow> cp_step p (Sleep i) (move i Asleep (p\<lparr>m_lock := None\<rparr>))"
| spurious:
    "at p i Asleep \<Longrightarrow> cp_step p (Spurious i) (move i Wanting p)"
| start:
    "at p i (Holding t) \<Longrightarrow>
       cp_step p (Begin i) (move i (Working t) (p\<lparr>idlThrNum := idlThrNum p - 1\<rparr>))"
| work:
    "at p i (Working t) \<Longrightarrow> cp_step p (Work i) (move i Returning (p\<lparr>ran := ran p @ [t]\<rparr>))"
| finish:
    "at p i Returning \<Longrightarrow>
       cp_step p (Finish i) (move i Looping (p\<lparr>idlThrNum := idlThrNum p + 1\<rparr>))"
| store:
    "closing p = Open \<Longrightarrow> cp_step p Store (p\<lparr>stoped := True, closing := Storing\<rparr>)"
| notify_all:
    "closing p = Storing \<Longrightarrow>
       cp_step p Notify_all (p\<lparr>threads := wake_all (threads p), closing := Joining\<rparr>)"
| join:
    "closing p = Joining \<Longrightarrow> \<forall>pc \<in> set (threads p). pc = Gone \<Longrightarrow>
       cp_step p Join (p\<lparr>closing := Closed\<rparr>)"

inductive cp_reach :: "nat \<Rightarrow> nat \<Rightarrow> 'a cpool \<Rightarrow> bool" for sz n where
  new: "cp_reach sz n (cp_new sz n)"
| step: "cp_reach sz n p \<Longrightarrow> cp_step p a p' \<Longrightarrow> cp_reach sz n p'"

section \<open>The queue contract\<close>

lemma cp_take_Some: "cp_take p = Some (t, p') \<longleftrightarrow>
    (\<exists>ts. tasks p = t # ts \<and> p' = p\<lparr>tasks := ts, popped := popped p @ [t]\<rparr>)"
  by (auto simp: cp_take_def split: list.splits)

lemma cp_take_None: "cp_take p = None \<longleftrightarrow> tasks p = []"
  by (simp add: cp_take_def split: list.splits)

interpretation cpq: fifo "\<lambda>_. True" tasks "\<lambda>_. True"
  "\<lambda>t p. Inr (True, cp_emplace t p)" "\<lambda>p. Inr (cp_take p)"
  by unfold_locales (auto simp: cp_emplace_def cp_take_def)

lemmas cp_ops = move_def call_def cp_emplace_def cp_admit_def at_def

section \<open>Invariant\<close>

text \<open>
  Who holds the mutex; that no task is lost, doubled or reordered, and what the idle count
  counts; and, while the pool is open, that waiting tasks are always noticed: some worker
  will look at the queue, or a caller is about to notify.
\<close>

fun holds :: "'a cphase \<Rightarrow> bool" where
  "holds Checking = True"
| "holds Blocking = True"
| "holds _ = False"

fun load :: "'a cphase \<Rightarrow> 'a multiset" where
  "load (Holding t) = {#t#}"
| "load (Working t) = {#t#}"
| "load _ = {#}"

fun busy :: "'a cphase \<Rightarrow> bool" where
  "busy (Working t) = True"
| "busy Returning = True"
| "busy _ = False"

fun awake :: "'a cphase \<Rightarrow> bool" where
  "awake Blocking = False"
| "awake Asleep = False"
| "awake Gone = False"
| "awake _ = True"

definition cp_owner :: "'a cpool \<Rightarrow> bool" where
  "cp_owner p \<longleftrightarrow>
     (\<forall>i < length (threads p). holds (threads p ! i) \<longleftrightarrow> m_lock p = Some i) \<and>
     (\<forall>i \<ge> length (threads p). m_lock p \<noteq> Some i)"

definition cp_kept :: "'a cpool \<Rightarrow> bool" where
  "cp_kept p \<longleftrightarrow>
     committed p = popped p @ tasks p \<and>
     mset (popped p) = mset (ran p) + sum_list (map load (threads p)) \<and>
     idlThrNum p + int (count_if busy (threads p)) = int (length (threads p))"

definition cp_noticed :: "'a cpool \<Rightarrow> bool" where
  "cp_noticed p \<longleftrightarrow>
     threads p \<noteq> [] \<and> (closing p = Open \<longleftrightarrow> \<not> stoped p) \<and>
     (\<not> stoped p \<longrightarrow>
        count_if (\<lambda>pc. pc = Gone) (threads p) = 0 \<and>
        (tasks p \<noteq> [] \<longrightarrow>
           count_if (\<lambda>pc. pc = Blocking) (threads p) = 0 \<and>
           0 < count_if awake (threads p) + count_if (\<lambda>c. c = Pushed) (callers p)))"

definition cp_inv :: "'a cpool \<Rightarrow> bool" where
  "cp_inv p \<longleftrightarrow> cp_owner p \<and> cp_kept p \<and> cp_noticed p"

lemma count_phases:
  "count_if awake pcs + count_if (\<lambda>pc. pc = Blocking) pcs + count_if (\<lambda>pc. pc = Asleep) pcs +
     count_if (\<lambda>pc. pc = Gone) pcs = length pcs"
proof (induction pcs)
  case (Cons pc pcs)
  then show ?case by (cases pc) auto
qed simp

lemma count_if_zero: "count_if P xs = 0 \<longleftrightarrow> (\<forall>x \<in> set xs. \<not> P x)"
  by (simp add: count_if_def filter_empty_conv)

lemma sum_list_empty: "sum_list (replicate k {#}) = {#}"
  by (induction k) auto

lemma cp_new_inv: "cp_inv (cp_new sz n)"
  by (auto simp: cp_inv_def cp_owner_def cp_kept_def cp_noticed_def cp_new_def Let_def sum_list_empty)

lemma wake_all_nth: "i < length pcs \<Longrightarrow> holds (wake_all pcs ! i) = holds (pcs ! i)"
  by (cases "pcs ! i") (auto simp: wake_all_def)

lemma length_wake_all [simp]: "length (wake_all pcs) = length pcs"
  by (simp add: wake_all_def)

lemma wake_all_load [simp]: "map load (wake_all pcs) = map load pcs" "count_if busy (wake_all pcs) = count_if busy pcs"
  "wake_all pcs = [] \<longleftrightarrow> pcs = []"
proof -
  show "count_if busy (wake_all pcs) = count_if busy pcs"
    by (induction pcs) (auto simp: wake_all_def split: cphase.splits)
qed (auto simp: wake_all_def split: cphase.splits)

lemma cp_step_owner:
  assumes "cp_step p a p'" "cp_owner p"
  shows "cp_owner p'"
  using assms
proof (cases rule: cp_step.cases)
  case notify_all
  with assms(2) show ?thesis by (auto simp: cp_owner_def wake_all_nth)
next
  case (take i t q)
  moreover from this assms(2) have "m_lock p = Some i" by (auto simp: cp_owner_def at_def)
  ultimately show ?thesis using assms(2) by (auto simp: cp_owner_def cp_ops cp_take_Some nth_list_update)
qed (auto simp: cp_owner_def cp_ops nth_list_update split: if_splits)

text \<open>A worker that only changes its place, with or without the mutex, keeps the tasks.\<close>

lemma kept_simps [simp]:
  "cp_kept (p\<lparr>m_lock := l\<rparr>) = cp_kept p" "cp_kept (call j c p) = cp_kept p"
  "at (p\<lparr>m_lock := l\<rparr>) i pc = at p i pc"
  by (simp_all add: cp_kept_def call_def at_def)

lemma cp_kept_move:
  assumes "cp_kept p" "at p i pc" "load pc' = load pc" "busy pc' = busy pc"
  shows "cp_kept (move i pc' p)"
  using assms sum_map_update [of i "threads p" load pc'] count_if_update [of i "threads p" busy pc']
  by (auto simp: cp_kept_def move_def at_def split: if_splits)

text \<open>A worker that changes its load or whether it is busy.\<close>

lemma cp_load_move:
  assumes "at p i pc" "threads q = threads p"
  shows "sum_list (map load (threads (move i pc' q))) + load pc = sum_list (map load (threads p)) + load pc'"
    and "count_if busy (threads (move i pc' q)) + (if busy pc then 1 else 0) =
      count_if busy (threads p) + (if busy pc' then 1 else 0)"
  using assms sum_map_update [of i "threads p" load pc'] count_if_update [of i "threads p" busy pc']
  by (simp_all add: move_def at_def)

lemma move_simps [simp]:
  "tasks (move i pc p) = tasks p" "committed (move i pc p) = committed p" "popped (move i pc p) = popped p"
  "ran (move i pc p) = ran p" "idlThrNum (move i pc p) = idlThrNum p"
  "length (threads (move i pc p)) = length (threads p)" "stoped (move i pc p) = stoped p"
  "closing (move i pc p) = closing p" "callers (move i pc p) = callers p"
  by (simp_all add: move_def)

lemma cp_step_kept:
  assumes "cp_step p a p'" "cp_kept p"
  shows "cp_kept p'"
  using assms(1)
proof (cases rule: cp_step.cases)
  case (take i t q)
  then show ?thesis using assms(2) cp_load_move [of p i Checking "q\<lparr>m_lock := None\<rparr>" "Holding t"]
    by (auto simp: cp_kept_def cp_take_Some)
next
  case (start i t)
  then show ?thesis using assms(2) cp_load_move [of p i "Holding t" "p\<lparr>idlThrNum := idlThrNum p - 1\<rparr>" "Working t"]
    by (simp add: cp_kept_def)
next
  case (work i t)
  then show ?thesis using assms(2) cp_load_move [of p i "Working t" "p\<lparr>ran := ran p @ [t]\<rparr>" Returning]
    by (simp add: cp_kept_def)
next
  case (finish i)
  then show ?thesis using assms(2) cp_load_move [of p i Returning "p\<lparr>idlThrNum := idlThrNum p + 1\<rparr>" Looping]
    by (simp add: cp_kept_def)
next
  case (emplace j t)
  with assms(2) show ?thesis by (simp add: cp_kept_def cp_emplace_def call_def)
next
  case notify_all
  with assms(2) show ?thesis by (simp add: cp_kept_def)
qed (use assms(2) in \<open>auto intro!: cp_kept_move\<close>, auto simp: cp_kept_def)

lemma cp_counts:
  assumes "at p i pc"
  shows "count_if P (threads (move i pc' p)) + (if P pc then 1 else 0) =
    count_if P (threads p) + (if P pc' then 1 else 0)"
  using assms count_if_update [of i "threads p" P pc'] by (simp add: move_def at_def)

lemma cp_count_call:
  "j < length (callers p) \<Longrightarrow>
     count_if P (callers (call j c p)) + (if P (callers p ! j) then 1 else 0) =
     count_if P (callers p) + (if P c then 1 else 0)"
  using count_if_update [of j "callers p" P c] by (simp add: call_def)

lemma call_simps [simp]:
  "tasks (call j c p) = tasks p" "threads (call j c p) = threads p" "stoped (call j c p) = stoped p"
  "closing (call j c p) = closing p"
  by (simp_all add: call_def)

lemma at_count: "at p i pc \<Longrightarrow> P pc \<Longrightarrow> 0 < count_if P (threads p)"
  using count_if_pos [of i "threads p" P] by (auto simp: at_def)

lemma noticed_simps [simp]: "cp_noticed (p\<lparr>m_lock := l\<rparr>) = cp_noticed p"
  by (simp add: cp_noticed_def)

text \<open>A worker moving to a place from which it will look at the queue.\<close>

lemma noticed_move_awake:
  assumes "cp_noticed p" "at p i pc" "awake pc'"
  shows "cp_noticed (move i pc' p)"
  using assms cp_counts [of p i pc awake pc'] cp_counts [of p i pc "\<lambda>x. x = Gone" pc']
    cp_counts [of p i pc "\<lambda>x. x = Blocking" pc']
  by (cases pc') (auto simp: cp_noticed_def move_def split: if_splits)

text \<open>A worker moving anywhere when the queue is empty or the pool is stopped.\<close>

lemma noticed_move_idle:
  assumes "cp_noticed p" "at p i pc" "stoped p \<or> (tasks p = [] \<and> pc' \<noteq> Gone)"
  shows "cp_noticed (move i pc' p)"
  using assms cp_counts [of p i pc "\<lambda>x. x = Gone" pc']
  by (auto simp: cp_noticed_def move_def split: if_splits)

lemma not_blocking:
  assumes "cp_owner p" "m_lock p = None"
  shows "count_if (\<lambda>x. x = Blocking) (threads p) = 0"
proof -
  have "threads p ! i \<noteq> Blocking" if "i < length (threads p)" for i
    using assms that by (auto simp: cp_owner_def)
  then show ?thesis by (auto simp: count_if_zero in_set_conv_nth)
qed

lemma cp_step_noticed:
  assumes "cp_step p a p'" "cp_owner p" "cp_noticed p"
  shows "cp_noticed p'"
  using assms(1)
proof (cases rule: cp_step.cases)
  case (commit j t)
  then show ?thesis using assms(3) cp_count_call [of j p "\<lambda>c. c = Pushed" "cp_admit t p"]
    by (auto simp: cp_noticed_def cp_admit_def)
next
  case (emplace j t)
  then have "j < length (callers (cp_emplace t p))" by (simp add: cp_emplace_def)
  then have "0 < count_if (\<lambda>c. c = Pushed) (callers (call j Pushed (cp_emplace t p)))"
    using count_if_pos [of j "callers (call j Pushed (cp_emplace t p))" "\<lambda>c. c = Pushed"] by (simp add: call_def)
  with emplace not_blocking [OF assms(2)] assms(3) show ?thesis
    by (auto simp: cp_noticed_def) (simp_all add: cp_emplace_def)
next
  case (notify j i)
  then have "cp_noticed (call j Outside (move i Wanting p))"
    using assms(3) noticed_move_awake [OF assms(3) notify(5), of Wanting]
      at_count [of "move i Wanting p" i Wanting awake]
    by (auto simp: cp_noticed_def at_def move_def)
  with notify show ?thesis by simp
next
  case (notify_nobody j)
  then have "count_if (\<lambda>pc. pc = Asleep) (threads p) = 0" by (auto simp: count_if_zero)
  with count_phases [of "threads p"] assms(3) notify_nobody show ?thesis
    by (cases "threads p") (auto simp: cp_noticed_def)
next
  case (test i)
  with assms(3) show ?thesis by (auto intro: noticed_move_awake noticed_move_idle)
next
  case (wait i)
  with assms(3) show ?thesis by (auto simp: cp_ready_def intro: noticed_move_idle)
next
  case (return i)
  then have "stoped p" by (auto simp: cp_ready_def cp_take_None)
  with return assms(3) noticed_move_idle [of "p\<lparr>m_lock := None\<rparr>" i Checking Gone] show ?thesis by simp
next
  case (take i t q)
  then obtain ts where q: "q = p\<lparr>tasks := ts, popped := popped p @ [t]\<rparr>" "tasks p = t # ts"
    by (auto simp: cp_take_Some)
  have "cp_noticed (q\<lparr>m_lock := None\<rparr>)" using assms(3) q by (auto simp: cp_noticed_def)
  from noticed_move_awake [OF this, of i Checking "Holding t"] take q show ?thesis by (simp add: at_def)
next
  case (sleep i)
  have "stoped p \<or> tasks p = []"
    using at_count [OF sleep(3), of "\<lambda>pc. pc = Blocking"] assms(3) by (auto simp: cp_noticed_def)
  with sleep assms(3) noticed_move_idle [of "p\<lparr>m_lock := None\<rparr>" i Blocking Asleep] show ?thesis by auto
next
  case (start i t)
  have "cp_noticed (p\<lparr>idlThrNum := idlThrNum p - 1\<rparr>)" using assms(3) by (simp add: cp_noticed_def)
  from noticed_move_awake [OF this, of i "Holding t" "Working t"] start show ?thesis by (simp add: at_def)
next
  case (work i t)
  have "cp_noticed (p\<lparr>ran := ran p @ [t]\<rparr>)" using assms(3) by (simp add: cp_noticed_def)
  from noticed_move_awake [OF this, of i "Working t" Returning] work show ?thesis by (simp add: at_def)
next
  case (finish i)
  have "cp_noticed (p\<lparr>idlThrNum := idlThrNum p + 1\<rparr>)" using assms(3) by (simp add: cp_noticed_def)
  from noticed_move_awake [OF this, of i Returning Looping] finish show ?thesis by (simp add: at_def)
next
  case (acquire i)
  with assms(3) noticed_move_awake [of "p\<lparr>m_lock := Some i\<rparr>" i Wanting Checking] show ?thesis by simp
next
  case (spurious i)
  with assms(3) show ?thesis by (auto intro: noticed_move_awake)
qed (use assms(3) in \<open>auto simp: cp_noticed_def\<close>)

lemma cp_step_inv [inv_intros]: "cp_step p a p' \<Longrightarrow> cp_inv p \<Longrightarrow> cp_inv p'"
  unfolding cp_inv_def using cp_step_owner cp_step_kept cp_step_noticed by blast

lemma cp_reach_inv: "cp_reach sz n p \<Longrightarrow> cp_inv p"
  by (induction rule: cp_reach.induct) (auto intro: cp_new_inv cp_step_inv)

section \<open>Progress\<close>

text \<open>
  Internal steps: all but new calls of \<open>commit\<close>, spurious wake-ups and the destructor. Each
  lowers \<open>cp_work\<close>.
\<close>

fun internal :: "'a cact \<Rightarrow> bool" where
  "internal (Commit j t) = False"
| "internal (Spurious i) = False"
| "internal Store = False"
| "internal Notify_all = False"
| "internal Join = False"
| "internal _ = True"

definition cp_internal :: "'a cpool \<Rightarrow> 'a cpool \<Rightarrow> bool" where
  "cp_internal p p' \<longleftrightarrow> (\<exists>a. cp_step p a p' \<and> internal a)"

fun phase_rank :: "'a cphase \<Rightarrow> nat" where
  "phase_rank Gone = 0"
| "phase_rank Asleep = 0"
| "phase_rank Blocking = 1"
| "phase_rank Checking = 2"
| "phase_rank Wanting = 3"
| "phase_rank Looping = 4"
| "phase_rank Returning = 5"
| "phase_rank (Working t) = 6"
| "phase_rank (Holding t) = 7"

fun caller_rank :: "'a caller \<Rightarrow> nat" where
  "caller_rank Outside = 0"
| "caller_rank Pushed = 4"
| "caller_rank (Admitted t) = 11"

definition cp_work :: "'a cpool \<Rightarrow> nat" where
  "cp_work p =
     6 * length (tasks p) + sum_list (map phase_rank (threads p)) + sum_list (map caller_rank (callers p))"

lemma work_move:
  "at p i pc \<Longrightarrow> cp_work (move i pc' p) + phase_rank pc = cp_work p + phase_rank pc'"
  using sum_map_update [of i "threads p" phase_rank pc'] by (simp add: cp_work_def move_def at_def)

lemma work_call:
  "j < length (callers p) \<Longrightarrow>
     cp_work (call j c p) + caller_rank (callers p ! j) = cp_work p + caller_rank c"
  using sum_map_update [of j "callers p" caller_rank c] by (simp add: cp_work_def call_def)

lemma work_simps [simp]:
  "cp_work (p\<lparr>m_lock := l\<rparr>) = cp_work p" "cp_work (p\<lparr>idlThrNum := k\<rparr>) = cp_work p"
  "cp_work (p\<lparr>ran := ts\<rparr>) = cp_work p" "cp_work (cp_emplace t p) = cp_work p + 6"
  "at (p\<lparr>idlThrNum := k\<rparr>) i pc = at p i pc" "at (p\<lparr>ran := ts\<rparr>) i pc = at p i pc"
  "at (call j c p) i pc = at p i pc" "callers (cp_emplace t p) = callers p"
  by (simp_all add: cp_work_def cp_emplace_def at_def call_def)

lemma cp_step_work:
  assumes "cp_step p a p'" "internal a"
  shows "cp_work p' < cp_work p"
  using assms(1)
proof (cases rule: cp_step.cases)
  case (emplace j t)
  then show ?thesis using work_call [of j "cp_emplace t p" Pushed] by simp
next
  case (notify j i)
  then show ?thesis using work_call [of j "move i Wanting p" Outside] work_move [of p i Asleep Wanting] by simp
next
  case (notify_nobody j)
  then show ?thesis using work_call [of j p Outside] by simp
next
  case (test i)
  then show ?thesis using work_move [of p i Looping "if stoped p then Gone else Wanting"] by (auto split: if_splits)
next
  case (acquire i)
  then show ?thesis using work_move [of "p\<lparr>m_lock := Some i\<rparr>" i Wanting Checking] by simp
next
  case (wait i)
  then show ?thesis using work_move [of p i Checking Blocking] by simp
next
  case (return i)
  then show ?thesis using work_move [of "p\<lparr>m_lock := None\<rparr>" i Checking Gone] by simp
next
  case (take i t q)
  then have "cp_work q + 6 = cp_work p" "at q i Checking" by (auto simp: cp_take_Some cp_work_def at_def)
  with take show ?thesis using work_move [of "q\<lparr>m_lock := None\<rparr>" i Checking "Holding t"] by simp
next
  case (sleep i)
  then show ?thesis using work_move [of "p\<lparr>m_lock := None\<rparr>" i Blocking Asleep] by simp
next
  case (start i t)
  then show ?thesis using work_move [of "p\<lparr>idlThrNum := idlThrNum p - 1\<rparr>" i "Holding t" "Working t"] by simp
next
  case (work i t)
  then show ?thesis using work_move [of "p\<lparr>ran := ran p @ [t]\<rparr>" i "Working t" Returning] by simp
next
  case (finish i)
  then show ?thesis using work_move [of "p\<lparr>idlThrNum := idlThrNum p + 1\<rparr>" i Returning Looping] by simp
qed (use assms(2) in auto)

interpretation cp_progress: measured_steps cp_internal cp_work
  by unfold_locales (auto simp: cp_internal_def intro: cp_step_work)

text \<open>A worker that cannot move is asleep or gone; a caller that cannot is outside.\<close>

lemma cp_stuck:
  assumes "cp_inv p" "\<nexists>p'. cp_internal p p'"
  shows "i < length (threads p) \<Longrightarrow> threads p ! i = Asleep \<or> threads p ! i = Gone"
    and "j < length (callers p) \<Longrightarrow> callers p ! j = Outside"
proof -
  have stuck: "\<not> (cp_step p a p' \<and> internal a)" for a p' using assms(2) by (auto simp: cp_internal_def)
  have held: "\<not> at p i Checking \<and> \<not> at p i Blocking" for i
  proof (intro conjI notI)
    assume "at p i Checking"
    with stuck [of "Decide i"] cp_step.wait [of p i] cp_step.return [of p i] cp_step.take [of p i]
    show False by (cases "cp_take p") auto
  next
    assume "at p i Blocking"
    with stuck [of "Sleep i"] cp_step.sleep [of p i] show False by auto
  qed
  have free: "m_lock p = None"
  proof (cases "m_lock p")
    case (Some i)
    with assms(1) have "i < length (threads p)" "holds (threads p ! i)"
      by (auto simp: cp_inv_def cp_owner_def not_le [symmetric])
    with held [of i] show ?thesis by (cases "threads p ! i") (auto simp: at_def)
  qed simp
  show "threads p ! i = Asleep \<or> threads p ! i = Gone" if "i < length (threads p)"
    using that held [of i] stuck [of "Test i"] cp_step.test [of p i] stuck [of "Acquire i"] cp_step.acquire [OF _ free, of i]
      stuck [of "Begin i"] cp_step.start [of p i] stuck [of "Work i"] cp_step.work [of p i]
      stuck [of "Finish i"] cp_step.finish [of p i]
    by (cases "threads p ! i") (auto simp: at_def)
  show "callers p ! j = Outside" if "j < length (callers p)"
  proof (cases "callers p ! j")
    case (Admitted t)
    with stuck [of "Emplace j"] cp_step.emplace [OF that Admitted free] show ?thesis by auto
  next
    case Pushed
    show ?thesis
    proof (cases "Asleep \<in> set (threads p)")
      case True
      then obtain i where "at p i Asleep" by (auto simp: at_def in_set_conv_nth)
      with stuck [of "Notify j (Some i)"] cp_step.notify [OF that Pushed] show ?thesis by auto
    next
      case False
      with stuck [of "Notify j None"] cp_step.notify_nobody [OF that Pushed] show ?thesis by auto
    qed
  qed simp
qed

lemma asleep_idle:
  "\<forall>pc \<in> set pcs. pc = Asleep \<Longrightarrow> sum_list (map load pcs) = {#} \<and> count_if busy pcs = 0 \<and> count_if awake pcs = 0"
  by (induction pcs) auto

lemma cp_quiescent:
  assumes "cp_inv p" "\<nexists>p'. cp_internal p p'" "\<not> stoped p"
  shows "tasks p = [] \<and> mset (ran p) = mset (committed p) \<and> (\<forall>pc \<in> set (threads p). pc = Asleep) \<and>
     idlCount p = int (length (threads p))"
proof -
  have "count_if (\<lambda>pc. pc = Gone) (threads p) = 0" using assms(1,3) by (simp add: cp_inv_def cp_noticed_def)
  then have asleep: "\<forall>pc \<in> set (threads p). pc = Asleep"
    using cp_stuck(1) [OF assms(1,2)] by (fastforce simp: count_if_zero in_set_conv_nth)
  have "count_if (\<lambda>c. c = Pushed) (callers p) = 0"
    using cp_stuck(2) [OF assms(1,2)] by (fastforce simp: count_if_zero in_set_conv_nth)
  with asleep_idle [OF asleep] assms(1,3) have "tasks p = []" by (auto simp: cp_inv_def cp_noticed_def)
  with asleep asleep_idle [OF asleep] assms(1) show ?thesis
    by (simp add: cp_inv_def cp_kept_def idlCount_def)
qed

section \<open>Properties\<close>

text \<open>
  C16. Tasks are neither lost nor doubled nor reordered, in every reachable state of any number
  of workers and callers: the tasks committed are those popped, in order, followed by the
  queue; each popped task has been run or is held by exactly one worker; and the idle count is
  the number of threads that are not between its decrement and its increment.
\<close>

theorem cp_conservation:
  assumes "cp_reach sz n p"
  shows "committed p = popped p @ tasks p \<and>
     mset (committed p) = mset (ran p) + sum_list (map load (threads p)) + mset (tasks p) \<and>
     idlCount p = int (length (threads p)) - int (count_if busy (threads p))"
  using cp_reach_inv [OF assms] by (simp add: cp_inv_def cp_kept_def idlCount_def)

text \<open>One worker, one caller that has committed a task, the worker past its first test.\<close>

definition sample_committed :: "nat cpool" where
  "sample_committed =
     \<lparr>tasks = [7], stoped = False, idlThrNum = 1, m_lock = None, threads = [Looping], callers = [Outside],
      closing = Open, committed = [7], popped = [], ran = []\<rparr>"

lemma sample_committed_reach: "cp_reach 1 1 sample_committed"
proof -
  define p0 :: "nat cpool" where "p0 = cp_new 1 1"
  have p0: "threads p0 = [Looping]" "callers p0 = [Outside]" "m_lock p0 = None" "\<not> stoped p0"
    by (simp_all add: p0_def cp_new_def)
  let ?p1 = "call 0 (Admitted 7) p0" let ?p2 = "call 0 Pushed (cp_emplace 7 ?p1)" let ?p3 = "call 0 Outside ?p2"
  have r0: "cp_reach 1 1 p0" unfolding p0_def by (rule cp_reach.new)
  have s1: "cp_step p0 (Commit 0 7) ?p1" using cp_step.commit [of 0 p0 7] p0 by (simp add: cp_admit_def)
  have s2: "cp_step ?p1 (Emplace 0) ?p2" by (rule cp_step.emplace) (simp_all add: call_def p0)
  have s3: "cp_step ?p2 (Notify 0 None) ?p3"
    by (rule cp_step.notify_nobody) (simp_all add: call_def cp_emplace_def p0)
  have "?p3 = sample_committed"
    by (simp add: sample_committed_def call_def cp_emplace_def cp_new_def p0_def)
  with cp_reach.step [OF cp_reach.step [OF cp_reach.step [OF r0 s1] s2] s3] show ?thesis by simp
qed

lemma cp_conservation_witness:
  "committed sample_committed = popped sample_committed @ [7] \<and> idlCount sample_committed = 1"
  using cp_conservation [OF sample_committed_reach] by (simp add: sample_committed_def)

text \<open>
  C17. The pool works off its queue: from any reachable state every run of internal steps
  (nobody commits, no spurious wake-up is needed) is finite, and in a pool that is not stopped
  it can only end when every task committed has been run, the queue is empty and all workers
  are asleep, idle by the pool's own count. So no notification is lost.
\<close>

theorem cp_drains:
  assumes "cp_reach sz n p" "\<not> stoped p"
  shows "wfp (\<lambda>q' q. cp_internal q q') \<and>
     (\<forall>q. cp_internal\<^sup>*\<^sup>* p q \<and> \<not> (\<exists>q'. cp_internal q q') \<longrightarrow>
        tasks q = [] \<and> mset (ran q) = mset (committed q) \<and> prefix (committed p) (committed q) \<and>
        (\<forall>pc \<in> set (threads q). pc = Asleep) \<and> idlCount q = int (length (threads q)))"
proof (intro conjI allI impI cp_progress.finite_runs)
  fix q assume q: "cp_internal\<^sup>*\<^sup>* p q \<and> \<not> (\<exists>q'. cp_internal q q')"
  have "cp_inv q \<and> \<not> stoped q \<and> prefix (committed p) (committed q)"
  proof (rule cp_progress.keeps [where I = "\<lambda>q. cp_inv q \<and> \<not> stoped q \<and> prefix (committed p) (committed q)"])
    fix r r' assume "cp_internal r r'" and r: "cp_inv r \<and> \<not> stoped r \<and> prefix (committed p) (committed r)"
    then obtain a where a: "cp_step r a r'" "internal a" by (auto simp: cp_internal_def)
    then have "stoped r' = stoped r \<and> prefix (committed r) (committed r')"
      by cases (auto simp: call_def cp_emplace_def cp_take_Some)
    with a r show "cp_inv r' \<and> \<not> stoped r' \<and> prefix (committed p) (committed r')"
      using cp_step_inv prefix_order.trans by blast
  qed (use q assms cp_reach_inv in auto)
  with q cp_quiescent [of q]
  show "tasks q = []" "mset (ran q) = mset (committed q)" "prefix (committed p) (committed q)"
    "\<forall>pc \<in> set (threads q). pc = Asleep" "idlCount q = int (length (threads q))"
    by auto
qed

lemma cp_drains_witness:
  "\<exists>q. cp_internal\<^sup>*\<^sup>* sample_committed q \<and> tasks q = [] \<and> 7 \<in># mset (ran q)"
proof -
  obtain q where q: "cp_internal\<^sup>*\<^sup>* sample_committed q" "\<not> (\<exists>q'. cp_internal q q')"
    using cp_progress.terminal by blast
  with cp_drains [OF sample_committed_reach]
  have "tasks q = []" "mset (ran q) = mset (committed q)" "prefix [7] (committed q)"
    by (auto simp: sample_committed_def)
  then have "7 \<in># mset (ran q)" by (auto simp: prefix_def)
  with q(1) \<open>tasks q = []\<close> show ?thesis by blast
qed

text \<open>The two runs of the last property below.\<close>

lemma cp_close_hangs:
  "\<exists>p :: 'a cpool. cp_reach 1 0 p \<and> closing p = Joining \<and> threads p = [Asleep] \<and>
     \<not> (\<exists>a p'. cp_step p a p' \<and> a \<noteq> Spurious 0)"
proof -
  define p0 :: "'a cpool" where "p0 = cp_new 1 0"
  have p0: "threads p0 = [Looping]" "callers p0 = []" "m_lock p0 = None" "\<not> stoped p0" "tasks p0 = []"
    "closing p0 = Open"
    by (simp_all add: p0_def cp_new_def)
  let ?p1 = "move 0 Wanting p0" let ?p2 = "move 0 Checking (?p1\<lparr>m_lock := Some 0\<rparr>)"
  let ?p3 = "move 0 Blocking ?p2" let ?p4 = "?p3\<lparr>stoped := True, closing := Storing\<rparr>"
  let ?p5 = "?p4\<lparr>threads := wake_all (threads ?p4), closing := Joining\<rparr>"
  let ?p6 = "move 0 Asleep (?p5\<lparr>m_lock := None\<rparr>)"
  have r0: "cp_reach 1 0 p0" unfolding p0_def by (rule cp_reach.new)
  have s1: "cp_step p0 (Test 0) ?p1" using cp_step.test [of p0 0] p0 by (simp add: at_def)
  have s2: "cp_step ?p1 (Acquire 0) ?p2" by (rule cp_step.acquire) (simp_all add: at_def move_def p0)
  have s3: "cp_step ?p2 (Decide 0) ?p3"
    by (rule cp_step.wait) (simp_all add: at_def move_def p0 cp_ready_def)
  have s4: "cp_step ?p3 Store ?p4" by (rule cp_step.store) (simp add: p0)
  have s5: "cp_step ?p4 Notify_all ?p5" by (rule cp_step.notify_all) simp
  have s6: "cp_step ?p5 (Sleep 0) ?p6"
    by (rule cp_step.sleep) (simp add: at_def move_def p0 wake_all_def)
  have r: "cp_reach 1 0 ?p6"
    by (rule cp_reach.step [OF cp_reach.step [OF cp_reach.step [OF cp_reach.step [OF cp_reach.step [OF cp_reach.step [OF r0 s1] s2] s3] s4] s5] s6])
  have f: "threads ?p6 = [Asleep]" "callers ?p6 = []" "closing ?p6 = Joining"
    by (simp_all add: move_def p0 wake_all_def)
  have g: "\<not> (\<exists>a p'. cp_step ?p6 a p' \<and> a \<noteq> Spurious 0)"
    using f by (auto simp: at_def elim!: cp_step.cases)
  show ?thesis by (rule exI [of _ ?p6]) (intro conjI r f g)
qed

lemma cp_close_drops:
  "\<exists>p. cp_reach 1 1 p \<and> closing p = Closed \<and> committed p = [t] \<and> tasks p = [t] \<and> ran p = [] \<and>
     threads p = [Gone]"
proof -
  define p0 :: "'a cpool" where "p0 = cp_new 1 1"
  have p0: "threads p0 = [Looping]" "callers p0 = [Outside]" "m_lock p0 = None" "\<not> stoped p0"
    "tasks p0 = []" "closing p0 = Open" "committed p0 = []" "ran p0 = []"
    by (simp_all add: p0_def cp_new_def)
  let ?p1 = "call 0 (Admitted t) p0" let ?p2 = "call 0 Pushed (cp_emplace t ?p1)" let ?p3 = "call 0 Outside ?p2"
  let ?p4 = "?p3\<lparr>stoped := True, closing := Storing\<rparr>"
  let ?p5 = "?p4\<lparr>threads := wake_all (threads ?p4), closing := Joining\<rparr>"
  let ?p6 = "move 0 Gone ?p5" let ?p7 = "?p6\<lparr>closing := Closed\<rparr>"
  have r0: "cp_reach 1 1 p0" unfolding p0_def by (rule cp_reach.new)
  have s1: "cp_step p0 (Commit 0 t) ?p1" using cp_step.commit [of 0 p0 t] p0 by (simp add: cp_admit_def)
  have s2: "cp_step ?p1 (Emplace 0) ?p2" by (rule cp_step.emplace) (simp_all add: call_def p0)
  have s3: "cp_step ?p2 (Notify 0 None) ?p3"
    by (rule cp_step.notify_nobody) (simp_all add: call_def cp_emplace_def p0)
  have s4: "cp_step ?p3 Store ?p4" by (rule cp_step.store) (simp add: call_def cp_emplace_def p0)
  have s5: "cp_step ?p4 Notify_all ?p5" by (rule cp_step.notify_all) simp
  have s6: "cp_step ?p5 (Test 0) ?p6"
    using cp_step.test [of ?p5 0] by (simp add: at_def cp_emplace_def p0 wake_all_def)
  have s7: "cp_step ?p6 Join ?p7"
    by (rule cp_step.join) (simp_all add: move_def cp_emplace_def p0 wake_all_def)
  have r: "cp_reach 1 1 ?p7"
    by (rule cp_reach.step [OF cp_reach.step [OF cp_reach.step [OF cp_reach.step [OF cp_reach.step [OF cp_reach.step [OF cp_reach.step [OF r0 s1] s2] s3] s4] s5] s6] s7])
  have f: "closing ?p7 = Closed" "committed ?p7 = [t]" "tasks ?p7 = [t]" "ran ?p7 = []" "threads ?p7 = [Gone]"
    by (simp_all add: move_def cp_emplace_def call_def p0 wake_all_def)
  show ?thesis by (rule exI [of _ ?p7]) (intro conjI r f)
qed

text \<open>
  C40. Two ways the destructor goes wrong, each in a reachable state of a pool with one worker.
  The flag is stored and notified without the mutex, so it can fall between the worker's look
  at the predicate and its sleep: then the destructor waits for a worker that nothing but a
  spurious wake-up will ever wake. And tasks still queued when the flag is stored are never
  run, although the pool closes in order.
\<close>

theorem cp_close_hazards:
  "(\<exists>p :: 'a cpool. cp_reach 1 0 p \<and> closing p = Joining \<and> threads p = [Asleep] \<and>
      \<not> (\<exists>a p'. cp_step p a p' \<and> a \<noteq> Spurious 0)) \<and>
   (\<exists>p. cp_reach 1 1 p \<and> closing p = Closed \<and> committed p = [t] \<and> tasks p = [t] \<and> ran p = [] \<and>
      threads p = [Gone])"
  by (intro conjI cp_close_hangs cp_close_drops)

end
