(* ===== verification/Spec2Isabelle.thy ===== *)
theory Spec2Isabelle
  imports FM_Prelude Fifo Raii Block_Queue Server_Pool C_Format Log_Model Readn
    Wire Server_Env Server_Monitor Server_Main Server_Types Server_Crowd Log_Threads Server_Log
    Config Host Hook Client_Ip Pieces Client_Tasks Client_Main Round_Trip Client_Live Client_Hooked
    Client_Pool
begin

text \<open>
  A model of the file monitor and backup system of this repository, and the theorems about it.

  \<^bold>\<open>The program.\<close> Three programs work together. A library that every process preloads
  (\<open>src/hook/hook.c\<close>) replaces \<open>open\<close> and \<open>close\<close>: a watched file that is opened is moved to
  shared memory, its content replaced by a constant text, and its path announced on a message
  queue. The client (\<open>src/client\<close>) watches a directory with inotify; an opened file makes it take
  the announcement, read the segment and send the content to the server, a closed file makes it
  ask for the backup, and a receiver thread puts the answers together. The server
  (\<open>src/server\<close>) accepts connections, gives each input event to a pool of threads, and stores or
  sends back files below its working directory; it writes a log and sends heartbeats.

  \<^bold>\<open>How they interact, and where that is modelled.\<close> Hook and client share the client's machine:
  message queues (key 1024 for announcements, 1000 for the flag that says whether the server is
  there), shared memory, a semaphore and the files; that state is the record \<open>host\<close> of Host.
  Client and server share the bytes on a socket, whose layout is in Wire. The server's threads
  share the work queue and the log; its objects share the files, descriptors and epoll
  registrations of the record \<open>server\<close> in \<open>Server_Env\<close>. The properties of this theory follow a file of
  any size through all three programs: when it is opened, when it is closed, and what is left of
  a large file after both.

  \<^bold>\<open>Theories.\<close>
  \<^item> \<open>FM_Prelude\<close>: faults and results of C code, integer conversion, array access, blocks written at
    offsets, and the contract \<open>measured_steps\<close> of relations whose steps use up a measure.
  \<^item> Fifo: the contract of a bounded first-in first-out container as locales; interpreted on the
    log's ring buffer (\<open>Block_Queue\<close>), on the work queue (\<open>Server_Pool\<close>) and on the client's tasks
    (\<open>Client_Pool\<close>), whose lemmas give the order and conservation properties.
  \<^item> \<open>C_String\<close>, \<open>C_Format\<close>: the routines of the C library on byte buffers, with a fault for every read
    of an unterminated buffer and every write past the end; \<open>sprintf\<close> and number parsing.
  \<^item> Raii: \<open>sem\<close>, \<open>locker\<close>, \<open>cond\<close> of \<open>server/RAII/locker.h\<close> over a ledger of live resources.
  \<^item> \<open>Block_Queue\<close>: \<open>block_queue<T>\<close> of \<open>server/log/block_queue.h\<close>, one definition per operation;
    refinement of the Fifo contract.
  \<^item> \<open>Log_Model\<close>: the logger of \<open>server/log/log.h\<close> and \<open>log.cpp\<close>: naming, rotation, composition of a
    line, synchronous and asynchronous writing, and that one refines the other while there is room.
    \<open>Log_Threads\<close>: the three critical sections of \<open>write_log\<close> interleaved by any number of threads.
  \<^item> \<open>Server_Pool\<close>: \<open>threadpool\<close> of \<open>server/threadpool/threadpool.h\<close> as a step relation of a producer
    and the workers: conservation, capacity, and that every run of internal steps ends with all
    accepted requests finished.
  \<^item> Readn: the four copies of \<open>readn\<close> over a list of outcomes of \<open>read\<close>.
  \<^item> Wire: the two pairs of message structs, their bytes, and the framing of a stream by
    \<open>MSG_WAITALL\<close> (locale \<open>wire_format\<close>, interpreted on both directions).
  \<^item> \<open>Server_Env\<close>, \<open>Server_Monitor\<close>: kernel state of the server; the class \<open>monitor\<close> of
    \<open>server/monitor/monitor.h\<close> and \<open>monitor.cpp\<close>, one definition per member function: what
    \<open>backup\<close> stores, what \<open>recover\<close> sends and when it never returns, the encoding of names.
  \<^item> \<open>Server_Main\<close>: \<open>server/ser.cpp\<close>, start-up and event loop as lists of actions; the life of
    connections. \<open>Server_Types\<close>: the objects keep their types in every run, and which faults a run
    can end in (\<open>sound\<close>, a small calculus over results). \<open>Server_Crowd\<close>: many clients served at
    once, as a simulation of schedules of connections by runs of the server. \<open>Server_Log\<close>: the
    server's calls to the logger, an invariant of its runs, played through the logger.
  \<^item> Config: both readers of the configuration (\<open>get_path\<close> of \<open>hook.c\<close>, \<open>get_ip_addr\<close> of
    \<open>client/get_message.h\<close>) and when they agree.
  \<^item> Host, Hook: the machine; \<open>Send_keep_alive\<close>, \<open>recv_keep_valie\<close>, \<open>send_link\<close>; and \<open>open\<close>,
    \<open>close\<close>, \<open>set_map\<close> of \<open>hook.c\<close>, with the descriptors they leave open and what they do when the
    kernel refuses a segment, a semaphore, a length or a mapping.
  \<^item> Pieces: how copy and blocks cut a file (\<open>cut_blocks\<close>), and what they leave of it when they are
    written in any order over an older version (\<open>remains\<close>).
  \<^item> \<open>Client_Ip\<close>, \<open>Client_Tasks\<close>, \<open>Client_Main\<close>: class \<open>IP\<close> of \<open>client/ip.hpp\<close>; \<open>do_thing\<close> of
    \<open>client/main.hpp\<close> (\<open>Open_task\<close>, \<open>Get_shm\<close>, \<open>TransFile\<close>, \<open>Close_task\<close>); \<open>heart_handler\<close>,
    \<open>Recv_file\<close>, \<open>handle_events\<close> and \<open>main\<close> of \<open>client/inotify.cpp\<close>. \<open>Round_Trip\<close>: what the receiver
    makes of a backup sent in pieces (\<open>received\<close>), \<open>remains\<close> included. \<open>Client_Live\<close>: heartbeat watch
    and receiver interleaved on the message they share. \<open>Client_Hooked\<close>: the client as \<open>start.sh\<close>
    runs it, its own calls of \<open>open\<close> and \<open>close\<close> going through the preloaded library.
  \<^item> \<open>Client_Pool\<close>: \<open>threadpool\<close> of \<open>client/threadpool.hpp\<close> as a step relation, its destructor
    included.

  \<^bold>\<open>Conventions.\<close> A record or datatype carries the name of its struct or class, a field its name,
  with a prefix where two structs share one (\<open>d_\<close>, \<open>t_\<close>, \<open>h_\<close>, \<open>r_\<close> in the messages). An
  operation takes the state and returns it changed. Undefined behaviour is \<open>Inl\<close> of a fault
  (type \<open>'a res\<close>); code that can fail to return has the type \<open>'a run\<close>, in which \<open>None\<close> is a run
  that never does. What the kernel or the scheduler decides is an argument: a list of outcomes
  of \<open>read\<close> or \<open>recv\<close>, the answers of \<open>open\<close>, \<open>socket\<close>, \<open>pthread_create\<close>, the clock. So are the
  values of variables that the code reads before it sets them. The threads of the two pools
  interleave in a relation with one step per critical section; server events, workers and
  heartbeats are a list of actions in any order; so are the turns of the client's heartbeat
  watch and the messages its receiver takes. The tasks of the client run one after the other,
  since \<open>handle_events\<close> joins each before it starts the next.

  \<^bold>\<open>What the groups of lemmas show.\<close> For each component an invariant and that every operation keeps
  it; then its result on every branch, errors included; then what its caller relies on. The
  properties stand at the end of each theory, each after a text with its number, and those of
  several components here. Many say what the code does where it was meant to do something
  else: the bytes the hook loses, the requests and connections the server loses, the files the
  client cuts; the list of findings beside this development names the lines.

  \<^bold>\<open>Termination and bounds.\<close> No fuel is used. Loops over a list of outcomes recurse on it;
  \<open>c_format\<close>, \<open>readn_loop\<close> and \<open>frames\<close> end by measures. \<open>copy_loop\<close> of the hook and
  \<open>recover_loop\<close> of the server can run for ever and are partial functions; that they return is
  proved where they do, and that \<open>recover_loop\<close> does not for a file that cannot be read. Sizes
  are those of the source: 1024 connections, 4096 bytes of data, 4656 and 4884 bytes per message,
  128 watched files, 20 threads and 10000 requests.

  \<^bold>\<open>Not modelled.\<close> \<open>client/ini.h\<close> and \<open>client/init.h\<close> are third-party headers that nothing uses,
  \<open>client/recv_img.hpp\<close> a struct that nothing uses, \<open>tests\<close> an older prototype of the client; the
  shell scripts only build, preload and remove the program. Of the modelled files: console
  output, the printing of errors, the futures of the client's pool, data races between the client's
  threads on \<open>head_file\<close> (a turn of the watch and the taking of a message are atomic), the memory
  of the array of blocks, which is on the stack and too large for it from about 1800 blocks on,
  and the resolution of symbolic links, \<open>..\<close> and repeated slashes in paths.
  Declared and never defined: \<open>writen\<close> of the hook, \<open>recv_masg\<close> and \<open>send_masg\<close> of \<open>monitor\<close>.
\<close>

section \<open>From the hook to the server and back\<close>

lemma client_ready_host: "client_ready conf connected pad garbage sg socket_ok ifs stack buffer mac (c\<lparr>c_host := h\<rparr>) =
    client_ready conf connected pad garbage sg socket_ok ifs stack buffer mac c"
  by (simp add: client_ready_def)

text \<open>One connection for each message of a file.\<close>

definition jobs_of :: "string \<Rightarrow> string \<Rightarrow> string \<Rightarrow> (nat \<Rightarrow> nat) \<Rightarrow> (string \<times> data) list \<Rightarrow> job list" where
  "jobs_of mac name F tids ds =
     map (\<lambda>i. \<lparr>j_mac = mac, j_name = name, j_file = F, j_messages = [ds ! i], j_thread = tids i\<rparr>) [0..<length ds]"

lemma jobs_of_simps:
  "length (jobs_of mac name F tids ds) = length ds"
  "map job_stream (jobs_of mac name F tids ds) = images ds"
  "map j_thread (jobs_of mac name F tids ds) = map tids [0..<length ds]"
  by (auto simp: jobs_of_def images_def job_stream_def case_prod_beta intro!: nth_equalityI)

lemma jobs_of_file:
  fixes tids :: "nat \<Rightarrow> nat"
  assumes "messages_of d F ds" "cstr (d_mac d) = mac" "cstr (d_file_name d) = name"
    and "\<forall>(p, b) \<in> set ds. d_sign b = 0" "CHR ''/'' \<notin> set mac"
  defines "jobs \<equiv> jobs_of mac name F tids ds"
  shows "\<forall>j \<in> set jobs. job_ok j" "length jobs \<le> piece_count F"
    and "\<forall>j \<in> set jobs. j_mac j = mac \<and> j_name j = name"
    and "set ks = {..<length jobs} \<Longrightarrow>
      set (blocks_for jobs ks (backup_path mac name)) = {b \<in> set (cut_blocks F). snd b \<noteq> []}"
proof -
  have block: "length p = 2 \<and> client_block mac name F b" if "(p, b) \<in> set ds" for p b
    using assms(1-4) that
    by (fastforce simp: messages_of_def client_block_def names_ok_def mac_of_def name_of_def TAG_of_data_def wf_data_def)
  have "\<forall>(p, b) \<in> set [ds ! i]. length p = 2 \<and> client_block mac name F b" if "i < length ds" for i
    using block [of "fst (ds ! i)" "snd (ds ! i)"] that by (simp add: case_prod_beta)
  then show "\<forall>j \<in> set jobs. job_ok j" using assms(5) by (simp add: jobs_def jobs_of_def job_ok_def)
  show "\<forall>j \<in> set jobs. j_mac j = mac \<and> j_name j = name" by (simp add: jobs_def jobs_of_def)
  have blocks: "map (\<lambda>(p, b). block (TAG_of_data b)) ds = filter (\<lambda>b. snd b \<noteq> []) (cut_blocks F)"
    using assms(1) by (simp add: messages_of_def)
  from arg_cong [OF this, of length] show "length jobs \<le> piece_count F"
    using length_filter_le [of "\<lambda>b. snd b \<noteq> []" "cut_blocks F"]
    by (simp add: jobs_def jobs_of_def cut_blocks_def)
  assume ks: "set ks = {..<length jobs}"
  then have ok: "k < length ds" if "k \<in> set ks" for k using that by (simp add: jobs_def jobs_of_def)
  have "blocks_for jobs ks (backup_path mac name) = concat (map (\<lambda>k. job_blocks (jobs ! k)) ks)"
    using ok by (simp add: blocks_for_def jobs_def jobs_of_def job_path_def)
  also have "\<dots> = map (\<lambda>k. (\<lambda>(p, b). block (TAG_of_data b)) (ds ! k)) ks"
    using ok by (induction ks) (auto simp: jobs_def jobs_of_def job_blocks_def case_prod_beta)
  finally have "set (blocks_for jobs ks (backup_path mac name)) =
      (\<lambda>(p, b). block (TAG_of_data b)) ` ((!) ds ` {..<length ds})"
    using ks by (simp add: image_image jobs_def jobs_of_def)
  also have "(!) ds ` {..<length ds} = set ds" by (auto simp: set_conv_nth)
  also have "(\<lambda>(p, b). block (TAG_of_data b)) ` set ds = set (filter (\<lambda>b. snd b \<noteq> []) (cut_blocks F))"
    unfolding blocks [symmetric] by simp
  finally show "set (blocks_for jobs ks (backup_path mac name)) = {b \<in> set (cut_blocks F). snd b \<noteq> []}" by simp
qed

section \<open>From the server back to the file\<close>

text \<open>What a client that has received nothing before makes of the replies to one request.\<close>

lemma replies_received:
  assumes pieces: "map r_data rs = map (\<lambda>c. c @ replicate (4096 - length c) NUL) (frames 4095 G)"
    and rs: "\<forall>r \<in> set rs. wf_RECOVER r \<and> r_sign r = CHR ''1'' \<and> terminated (r_file_name r) \<and>
        cstr (r_file_name r) = name"
    and G: "G \<noteq> []" and s: "wf_recv_data (rc_head s)" "file_open_to name (rc_host s)"
  shows "\<exists>s'. Recv_file 1 (map Rv_bytes (frames sizeof_recv_data (concat (map RECOVER_image rs)))) s =
      Inr (Receiving, s') \<and> rc_host s' = put_file name (received G) (rc_host s)"
proof -
  let ?ms = "map recv_data_of_RECOVER rs"
  have short: "length c \<le> 4095" if "c \<in> set (frames 4095 G)" for c using frames_length [OF that] by simp
  then have "\<forall>c \<in> set (map r_data rs). terminated c"
    unfolding pieces by (auto simp: Suc_diff_le replicate_Suc dest: short)
  then have good: "\<forall>h \<in> set ?ms. good_message h \<and> (is_beat h \<or> cstr (h_file_name h) = name)"
    using rs by (auto simp: good_message_def recv_data_of_RECOVER_def wf_recv_data_def wf_RECOVER_def)
  have "cstr (c @ replicate n NUL) = cstr c" for c n
    by (induction c) (simp_all add: cstr_Cons)
  then have "map cstr (map r_data rs) = map cstr (frames 4095 G)" unfolding pieces by simp
  moreover have "filter (\<lambda>h. \<not> is_beat h) ?ms = ?ms"
    using rs by (auto simp: is_beat_def recv_data_of_RECOVER_def filter_id_conv)
  ultimately have texts: "map (\<lambda>h. cstr (h_file_contents h)) (filter (\<lambda>h. \<not> is_beat h) ?ms) =
      map cstr (frames 4095 G)"
    by (simp add: recv_data_of_RECOVER_def comp_def)
  have "map cstr (frames 4095 G) \<noteq> []" using G by (simp add: frames_step)
  from receive_pieces [OF good texts this, of "s\<lparr>rc_count := 0\<rparr>"] s obtain s' where
    "Recv_file 1 (map Rv_bytes (map recv_data_image ?ms)) s = Inr (Receiving, s')"
    "rc_host s' = put_file name (received G) (rc_host s)"
    using received_old [OF G] by (auto simp: Recv_file_def)
  moreover have "frames sizeof_recv_data (concat (map RECOVER_image rs)) = map recv_data_image ?ms"
    using to_client.frames_stream [of rs "[]"] rs by (simp add: comp_def recv_data_image_RECOVER)
  ultimately show ?thesis by (simp add: comp_def)
qed

section \<open>A machine and a server\<close>

definition sample_iface :: iface where
  "sample_iface = \<lparr>if_flags_ok = True, if_hwaddr = Some [2, 66, 172, 17, 0, 255], if_addr = None\<rparr>"

lemma sample_mac:
  obtains mac where "local_mac True (Some [sample_iface]) = Inr mac" "terminated mac" "cstr mac = ''02:42:ac:11:00:ff''"
proof -
  have "(case local_mac True (Some [sample_iface]) of
      Inr mac \<Rightarrow> terminated mac \<and> cstr mac = ''02:42:ac:11:00:ff'' | _ \<Rightarrow> False)"
    by code_simp
  with that show thesis by (auto split: sum.splits)
qed

lemma sample_waits_path: "server_waits sample_ser 5 ''02:42:ac:11:00:ff'' ''/home/a.c''"
proof -
  have "parent_dir ''02:42:ac:11:00:ff'' = ''.''" by code_simp
  then have "file_ready ''02:42:ac:11:00:ff'' ''/home/a.c'' sample_server"
    by (simp add: file_ready_def dir_ready_def sample_server_def backup_path_def slash_to_at_def)
  moreover have "file_ready mac name (world sample_ser) = file_ready mac name sample_server" for mac name
    by (simp add: file_ready_def dir_ready_def sample_ser_def)
  ultimately show ?thesis using sample_waits by (simp add: server_waits_def)
qed

section \<open>Properties\<close>


definition sample_big :: string where
  "sample_big = replicate 9000 CHR ''x''"

definition sample_big_host :: host where
  "sample_big_host = sample_open_host\<lparr>h_files := [''/home/a.c'' \<mapsto> sample_big]\<rparr>"

lemma sample_big_opens:
  "opens_watched ''/home/'' ''/home/a.c'' 0 sample_big (hook_start\<lparr>buf_tail := [NUL]\<rparr>) sample_big_host"
proof -
  have "free_fds sample_big_host = free_fds sample_open_host"
    by (rule free_fds_cong) (simp add: sample_big_host_def)
  moreover have "fst (recv_keep_valie sample_big_host) = - 1"
    using recv_empty [of sample_big_host]
    by (simp add: sample_big_host_def sample_open_host_def sample_file_host_def sample_host_def)
  ultimately show ?thesis
    using sample_opens unfolding opens_watched_def takes_over_def hookable_def
    by (simp add: copyable_def terminated_def) (simp add: sample_big_host_def sample_big_def map_size_def)
qed


lemma backup_comes_back:
  assumes "no_nul path" "get_path conf (filename_path hk) = Inr fp"
    and "closes_watched (cstr fp) path fd G h" "length path < 256"
    and "request_ready socket_ok ifs stack buffer mac c" "length pad = 2" "length behind = 228"
    and "server_waits s conn (cstr mac) path" "wf_mon (users s ! nat conn)" "sent (world s) = []"
    and "open_rdonly (backup_path (cstr mac) path) (world s) = Op_file B"
    and "B \<noteq> []" "CHR ''@'' \<notin> set path"
    and "wf_recv_data (rc_head r)" "\<not> h_readonly h path"
  shows "\<exists>h' stream c' s' r'.
     hook_close conf fd hk h = Inr (None, hk\<lparr>filename_path := fp\<rparr>, h') \<and>
     Close_task pad behind socket_ok ifs stack buffer (c\<lparr>c_host := h'\<rparr>) = Inr (Some stream, c') \<and>
     ser_run (one_request conn addr t addr' tid pth stream s) s = Some (Inr (Some s')) \<and>
     (\<forall>m \<in> set (sent (world s')). fst m = conn) \<and>
     Recv_file 1 (map Rv_bytes (frames sizeof_recv_data (concat (map snd (sent (world s'))))))
       (r\<lparr>rc_host := c_host c'\<rparr>) = Inr (Receiving, r') \<and>
     h_files (rc_host r') = (h_files h)(path \<mapsto> received B)"
proof -
  have path: "path \<noteq> []" "path \<notin> h_dirs h" using assms(3) by (simp_all add: closes_watched_def)
  obtain h' msg where closed: "hook_close conf fd hk h = Inr (None, hk\<lparr>filename_path := fp\<rparr>, h')"
      "queues h' 1025 = Some [(int (length G), msg)]" "length msg = 1024" "terminated msg" "cstr msg = path"
      "\<not> q_denied h' 1025" "h_files h' = h_files h" "h_dirs h' = h_dirs h" "h_readonly h' = h_readonly h"
    using hook_close_result [OF assms(1-3)] by blast
  let ?c = "c\<lparr>c_host := h'\<rparr>"
  have ready: "request_ready socket_ok ifs stack buffer mac ?c" using assms(5) by (simp add: request_ready_def)
  obtain d c' where task: "Close_task pad behind socket_ok ifs stack buffer ?c =
       Inr (Some (take sizeof_recv_data (data_image pad d @ behind)), c')"
      "c_host c' = h'\<lparr>queues := (queues h')(1025 \<mapsto> [])\<rparr>"
    and d: "wf_data d" "d_sign d = 1" "cstr (d_mac d) = cstr mac" "cstr (d_file_name d) = path"
      "terminated (d_mac d)" "terminated (d_file_name d)" "terminated (d_events d)"
    using close_task_result [of ?c "int (length G)" msg "[]" socket_ok ifs stack buffer mac pad behind] ready closed(2-6)
      path assms(4) by fastforce
  have stream: "take sizeof_recv_data (data_image pad d @ behind) = data_image pad d @ behind"
    using to_server.image_width [of "(pad, d)"] d(1) assms(6,7) by (simp add: sizeof_recv_data_def sizeof_data_def)
  obtain ro where ro: "rebag (users s ! nat conn) = Some ro" "wf_RECOVER ro"
    using assms(9) by (auto simp: wf_mon_def)
  have small: "length behind < sizeof_data" using assms(7) by (simp add: sizeof_data_def)
  obtain s' rs where answer: "ser_run (one_request conn addr t addr' tid pth (data_image pad d @ behind) s) s = Some (Inr (Some s'))"
      "sent (world s') = map (\<lambda>r. (conn, RECOVER_image r)) rs"
      "map r_data rs = map (\<lambda>c. c @ replicate (4096 - length c) NUL) (frames 4095 B)"
      "\<forall>r \<in> set rs. wf_RECOVER r \<and> r_sign r = CHR ''1'' \<and> terminated (r_file_name r) \<and> cstr (r_file_name r) = path"
    using serve_request [OF assms(8) ro d(1,2) assms(6) small d(5,3,6,4,7) assms(11), of addr t addr' tid pth]
      map_at_slash [of path] assms(10,13) by (auto simp: BUFF_SIZE_def)
  have "file_open_to path (rc_host (r\<lparr>rc_host := c_host c'\<rparr>))"
    using path assms(15) closed(8,9) task(2) by (simp add: file_open_to_def)
  from replies_received [OF answer(3,4) assms(12) _ this] assms(14) obtain r' where
    "Recv_file 1 (map Rv_bytes (frames sizeof_recv_data (concat (map RECOVER_image rs)))) (r\<lparr>rc_host := c_host c'\<rparr>) =
       Inr (Receiving, r')" "rc_host r' = put_file path (received B) (c_host c')"
    by auto
  moreover have "map snd (sent (world s')) = map RECOVER_image rs" using answer(2) by simp
  moreover have "h_files (put_file path (received B) (c_host c')) = (h_files h)(path \<mapsto> received B)"
    using task(2) closed(7) by (simp add: put_file_def)
  ultimately show ?thesis using closed(1) task(1) answer(1,2) unfolding stream
    by (intro exI [of _ h'] exI [of _ "data_image pad d @ behind"] exI [of _ c'] exI [of _ s'] exI [of _ r'])
      (auto simp: comp_def)
qed



definition sample_closing_host :: host where
  "sample_closing_host = sample_host\<lparr>h_files := [''/home/a.c'' \<mapsto> ''It is a secret''], h_fds := [3 \<mapsto> ''/home/a.c'']\<rparr>"

definition keeper :: "string \<Rightarrow> ser" where
  "keeper B = sample_ser\<lparr>world := (world sample_ser)
     \<lparr>fs := [backup_path ''02:42:ac:11:00:ff'' ''/home/a.c'' \<mapsto> B]\<rparr>\<rparr>"

lemma keeper_ok:
  "server_waits (keeper B) 5 ''02:42:ac:11:00:ff'' ''/home/a.c''" "sent (world (keeper B)) = []"
  "wf_mon (users (keeper B) ! 5)"
  "open_rdonly (backup_path ''02:42:ac:11:00:ff'' ''/home/a.c'') (world (keeper B)) = Op_file B"
proof -
  have "backup_path ''02:42:ac:11:00:ff'' ''/home/a.c'' \<noteq> ''02:42:ac:11:00:ff''"
    by (simp add: backup_path_def)
  then have "file_ready ''02:42:ac:11:00:ff'' ''/home/a.c'' (world (keeper B))"
    using sample_waits_path
    by (simp add: server_waits_def file_ready_def dir_ready_def keeper_def sample_ser_def sample_server_def)
  then show "server_waits (keeper B) 5 ''02:42:ac:11:00:ff'' ''/home/a.c''"
    using sample_waits_path
    by (simp add: server_waits_def ser_ok_def listening_def accept_fd_def keeper_def)
  show "sent (world (keeper B)) = []" by (simp add: keeper_def sample_ser_def sample_server_def)
  show "wf_mon (users (keeper B) ! 5)"
    by (simp add: wf_mon_def keeper_def sample_ser_def sample_monitor_def sample_data_def wf_data_def MAX_FD_def
        is_long_def is_int_def sample_RECOVER_def wf_RECOVER_def c_memset_def BACKUP_F_NAME_def)
  have "last (backup_path ''02:42:ac:11:00:ff'' ''/home/a.c'') \<noteq> CHR ''/''" by (rule last_backup_path) simp
  then show "open_rdonly (backup_path ''02:42:ac:11:00:ff'' ''/home/a.c'') (world (keeper B)) = Op_file B"
    by (simp add: open_rdonly_def is_dir_def keeper_def sample_ser_def sample_server_def)
      (simp add: backup_path_def)
qed

lemma closing_ready:
  obtains fp mac where "get_path sample_conf (filename_path hook_start) = Inr fp" "cstr mac = ''02:42:ac:11:00:ff''"
    "closes_watched (cstr fp) ''/home/a.c'' 3 ''It is a secret'' sample_closing_host"
    "request_ready True (Some [sample_iface]) sample_open (lit ''close filea.c'') mac sample_opening"
proof -
  obtain fp where fp: "get_path sample_conf (c_memset 200) = Inr fp" "cstr fp = ''/home/''"
    by (rule sample_get_path)
  obtain mac where mac: "local_mac True (Some [sample_iface]) = Inr mac" "terminated mac" "cstr mac = ''02:42:ac:11:00:ff''"
    by (rule sample_mac)
  have conf: "get_path sample_conf (filename_path hook_start) = Inr fp" using fp(1) by (simp add: hook_start_def)
  have "fst (recv_keep_valie sample_closing_host) = - 1"
    using recv_empty [of sample_closing_host] by (simp add: sample_closing_host_def sample_host_def)
  moreover have "watched ''/home/'' ''/home/a.c''" by code_simp
  ultimately have closes: "closes_watched (cstr fp) ''/home/a.c'' 3 ''It is a secret'' sample_closing_host"
    unfolding fp(2) by (simp add: closes_watched_def sample_closing_host_def sample_host_def map_size_def)
  have ready: "request_ready True (Some [sample_iface]) sample_open (lit ''close filea.c'') mac sample_opening"
    using sample_open_ok(2) mac by (simp add: request_ready_def lit_def sample_opening_def c_memset_def)
  show thesis by (rule that [OF conf mac(3) closes ready])
qed

lemma closing_facts:
  "no_nul ''/home/a.c''" "length ''/home/a.c'' < 256" "length ''ab'' = 2" "length (replicate 228 CHR ''x'') = 228"
  "CHR ''@'' \<notin> set ''/home/a.c''" "\<not> h_readonly sample_closing_host ''/home/a.c''" "nat 5 = 5"
  by (simp_all add: sample_closing_host_def sample_host_def)



end
